theory Spec2Isabelle
  imports Main "HOL-Library.List_Lexorder"
begin

unbundle bit_operations_syntax

section \<open>High precision decimals (HPD)\<close>

text \<open>
  The C struct \<^verbatim>\<open>wuffs_base__private_implementation__high_prec_dec\<close>.  The field
  \<^verbatim>\<open>num_digits\<close> is a \<^verbatim>\<open>uint32_t\<close> that indexes the 800-byte array \<^verbatim>\<open>digits\<close>, the
  field \<^verbatim>\<open>decimal_point\<close> an \<^verbatim>\<open>int32_t\<close>.  The array is a function from indices to
  byte values: cells at or beyond \<^verbatim>\<open>num_digits\<close> hold whatever was stored there last
  (the struct lives on the caller's stack and is never cleared).  64-bit accumulators are
  natural numbers, reduced modulo \<open>2 ^ 64\<close> wherever the C arithmetic could wrap.
\<close>

record hpd =
  num_digits :: nat
  decimal_point :: int
  negative :: bool
  truncated :: bool
  digits :: "nat \<Rightarrow> nat"

definition DECIMAL_POINT_RANGE :: int where
  "DECIMAL_POINT_RANGE = 2047"

definition DIGITS_PRECISION :: nat where
  "DIGITS_PRECISION = 800"

definition SHIFT_MAX_INCL :: nat where
  "SHIFT_MAX_INCL = 60"

definition u64 :: "nat \<Rightarrow> nat" where
  "u64 x = x mod 2 ^ 64"

definition UINT64_MAX :: nat where
  "UINT64_MAX = 2 ^ 64 - 1"

text \<open>An HPD given by its leading digits, every other cell of the array being 0.\<close>

definition digits_of_list :: "nat list \<Rightarrow> nat \<Rightarrow> nat" where
  "digits_of_list ds i = (if i < length ds then ds ! i else 0)"

definition hpd_of :: "bool \<Rightarrow> bool \<Rightarrow> nat list \<Rightarrow> int \<Rightarrow> hpd" where
  "hpd_of neg trunc ds dp =
     \<lparr>num_digits = length ds, decimal_point = dp, negative = neg, truncated = trunc,
      digits = digits_of_list ds\<rparr>"

subsection \<open>trim\<close>

function trim :: "hpd \<Rightarrow> hpd" where
  "trim h =
     (if num_digits h > 0 \<and> digits h (num_digits h - 1) = 0
      then trim (h\<lparr>num_digits := num_digits h - 1\<rparr>)
      else h)"
  by pat_completeness auto
termination
  by (relation "measure num_digits") auto

declare trim.simps [simp del]

subsection \<open>rounded\_integer\<close>

text \<open>The accumulation loop \<^verbatim>\<open>for (; i < dp; i++) n = (10 * n) + (...)\<close>.\<close>

function rounded_integer_loop :: "hpd \<Rightarrow> nat \<Rightarrow> nat \<Rightarrow> nat \<Rightarrow> nat" where
  "rounded_integer_loop h dp i n =
     (if i < dp
      then rounded_integer_loop h dp (i + 1)
             (u64 (10 * n + (if i < num_digits h then digits h i else 0)))
      else n)"
  by pat_completeness auto
termination
  by (relation "measure (\<lambda>(h, dp, i, n). dp - i)") auto

declare rounded_integer_loop.simps [simp del]

definition rounded_integer_round_up :: "hpd \<Rightarrow> nat \<Rightarrow> bool" where
  "rounded_integer_round_up h dp =
     (if dp < num_digits h
      then (if digits h dp = 5 \<and> dp + 1 = num_digits h
            then truncated h \<or> (dp > 0 \<and> (1 AND digits h (dp - 1)) \<noteq> 0)
            else digits h dp \<ge> 5)
      else False)"

definition rounded_integer :: "hpd \<Rightarrow> nat" where
  "rounded_integer h =
     (if num_digits h = 0 \<or> decimal_point h < 0 then 0
      else if decimal_point h > 18 then UINT64_MAX
      else let dp = nat (decimal_point h);
               n = rounded_integer_loop h dp 0 0
           in if rounded_integer_round_up h dp then u64 (n + 1) else n)"

text \<open>
  The value the claim describes: the first \<open>dp\<close> digits read as a base-10 number, cells
  at or beyond \<open>num_digits\<close> counting as 0, and the round-half-to-even decision.
\<close>

definition digit_at :: "hpd \<Rightarrow> nat \<Rightarrow> nat" where
  "digit_at h i = (if i < num_digits h then digits h i else 0)"

definition prefix_value :: "hpd \<Rightarrow> nat \<Rightarrow> nat" where
  "prefix_value h dp = (\<Sum>i<dp. digit_at h i * 10 ^ (dp - 1 - i))"

definition half_even_up :: "hpd \<Rightarrow> nat \<Rightarrow> bool" where
  "half_even_up h dp \<longleftrightarrow>
     dp < num_digits h \<and>
     (digits h dp > 5 \<or>
      (digits h dp = 5 \<and>
        (dp + 1 < num_digits h \<or> truncated h \<or> (dp > 0 \<and> odd (digits h (dp - 1))))))"

subsection \<open>The left-shift tables\<close>

text \<open>
  \<^verbatim>\<open>hpd_left_shift[i]\<close> packs, for a shift by \<open>i\<close>, the larger of the two possible numbers
  of new digits (high 5 bits) and an offset into \<^verbatim>\<open>powers_of_5\<close> (low 11 bits).
\<close>

definition hpd_left_shift :: "nat list" where
  "hpd_left_shift = [
   0x0000, 0x0800, 0x0801, 0x0803, 0x1006, 0x1009, 0x100D, 0x1812, 0x1817,
   0x181D, 0x2024, 0x202B, 0x2033, 0x203C, 0x2846, 0x2850, 0x285B, 0x3067,
   0x3073, 0x3080, 0x388E, 0x389C, 0x38AB, 0x38BB, 0x40CC, 0x40DD, 0x40EF,
   0x4902, 0x4915, 0x4929, 0x513E, 0x5153, 0x5169, 0x5180, 0x5998, 0x59B0,
   0x59C9, 0x61E3, 0x61FD, 0x6218, 0x6A34, 0x6A50, 0x6A6D, 0x6A8B, 0x72AA,
   0x72C9, 0x72E9, 0x7B0A, 0x7B2B, 0x7B4D, 0x8370, 0x8393, 0x83B7, 0x83DC,
   0x8C02, 0x8C28, 0x8C4F, 0x9477, 0x949F, 0x94C8, 0x9CF2, 0x051C, 0x051C,
   0x051C, 0x051C]"

definition powers_of_5 :: "nat list" where
  "powers_of_5 = [
   5, 2, 5, 1, 2, 5, 6, 2, 5, 3, 1, 2, 5, 1, 5, 6, 2, 5, 7, 8, 1, 2, 5, 3, 9,
   0, 6, 2, 5, 1, 9, 5, 3, 1, 2, 5, 9, 7, 6, 5, 6, 2, 5, 4, 8, 8, 2, 8, 1, 2,
   5, 2, 4, 4, 1, 4, 0, 6, 2, 5, 1, 2, 2, 0, 7, 0, 3, 1, 2, 5, 6, 1, 0, 3, 5,
   1, 5, 6, 2, 5, 3, 0, 5, 1, 7, 5, 7, 8, 1, 2, 5, 1, 5, 2, 5, 8, 7, 8, 9, 0,
   6, 2, 5, 7, 6, 2, 9, 3, 9, 4, 5, 3, 1, 2, 5, 3, 8, 1, 4, 6, 9, 7, 2, 6, 5,
   6, 2, 5, 1, 9, 0, 7, 3, 4, 8, 6, 3, 2, 8, 1, 2, 5, 9, 5, 3, 6, 7, 4, 3, 1,
   6, 4, 0, 6, 2, 5, 4, 7, 6, 8, 3, 7, 1, 5, 8, 2, 0, 3, 1, 2, 5, 2, 3, 8, 4,
   1, 8, 5, 7, 9, 1, 0, 1, 5, 6, 2, 5, 1, 1, 9, 2, 0, 9, 2, 8, 9, 5, 5, 0, 7,
   8, 1, 2, 5, 5, 9, 6, 0, 4, 6, 4, 4, 7, 7, 5, 3, 9, 0, 6, 2, 5, 2, 9, 8, 0,
   2, 3, 2, 2, 3, 8, 7, 6, 9, 5, 3, 1, 2, 5, 1, 4, 9, 0, 1, 1, 6, 1, 1, 9, 3,
   8, 4, 7, 6, 5, 6, 2, 5, 7, 4, 5, 0, 5, 8, 0, 5, 9, 6, 9, 2, 3, 8, 2, 8, 1,
   2, 5, 3, 7, 2, 5, 2, 9, 0, 2, 9, 8, 4, 6, 1, 9, 1, 4, 0, 6, 2, 5, 1, 8, 6,
   2, 6, 4, 5, 1, 4, 9, 2, 3, 0, 9, 5, 7, 0, 3, 1, 2, 5, 9, 3, 1, 3, 2, 2, 5,
   7, 4, 6, 1, 5, 4, 7, 8, 5, 1, 5, 6, 2, 5, 4, 6, 5, 6, 6, 1, 2, 8, 7, 3, 0,
   7, 7, 3, 9, 2, 5, 7, 8, 1, 2, 5, 2, 3, 2, 8, 3, 0, 6, 4, 3, 6, 5, 3, 8, 6,
   9, 6, 2, 8, 9, 0, 6, 2, 5, 1, 1, 6, 4, 1, 5, 3, 2, 1, 8, 2, 6, 9, 3, 4, 8,
   1, 4, 4, 5, 3, 1, 2, 5, 5, 8, 2, 0, 7, 6, 6, 0, 9, 1, 3, 4, 6, 7, 4, 0, 7,
   2, 2, 6, 5, 6, 2, 5, 2, 9, 1, 0, 3, 8, 3, 0, 4, 5, 6, 7, 3, 3, 7, 0, 3, 6,
   1, 3, 2, 8, 1, 2, 5, 1, 4, 5, 5, 1, 9, 1, 5, 2, 2, 8, 3, 6, 6, 8, 5, 1, 8,
   0, 6, 6, 4, 0, 6, 2, 5, 7, 2, 7, 5, 9, 5, 7, 6, 1, 4, 1, 8, 3, 4, 2, 5, 9,
   0, 3, 3, 2, 0, 3, 1, 2, 5, 3, 6, 3, 7, 9, 7, 8, 8, 0, 7, 0, 9, 1, 7, 1, 2,
   9, 5, 1, 6, 6, 0, 1, 5, 6, 2, 5, 1, 8, 1, 8, 9, 8, 9, 4, 0, 3, 5, 4, 5, 8,
   5, 6, 4, 7, 5, 8, 3, 0, 0, 7, 8, 1, 2, 5, 9, 0, 9, 4, 9, 4, 7, 0, 1, 7, 7,
   2, 9, 2, 8, 2, 3, 7, 9, 1, 5, 0, 3, 9, 0, 6, 2, 5, 4, 5, 4, 7, 4, 7, 3, 5,
   0, 8, 8, 6, 4, 6, 4, 1, 1, 8, 9, 5, 7, 5, 1, 9, 5, 3, 1, 2, 5, 2, 2, 7, 3,
   7, 3, 6, 7, 5, 4, 4, 3, 2, 3, 2, 0, 5, 9, 4, 7, 8, 7, 5, 9, 7, 6, 5, 6, 2,
   5, 1, 1, 3, 6, 8, 6, 8, 3, 7, 7, 2, 1, 6, 1, 6, 0, 2, 9, 7, 3, 9, 3, 7, 9,
   8, 8, 2, 8, 1, 2, 5, 5, 6, 8, 4, 3, 4, 1, 8, 8, 6, 0, 8, 0, 8, 0, 1, 4, 8,
   6, 9, 6, 8, 9, 9, 4, 1, 4, 0, 6, 2, 5, 2, 8, 4, 2, 1, 7, 0, 9, 4, 3, 0, 4,
   0, 4, 0, 0, 7, 4, 3, 4, 8, 4, 4, 9, 7, 0, 7, 0, 3, 1, 2, 5, 1, 4, 2, 1, 0,
   8, 5, 4, 7, 1, 5, 2, 0, 2, 0, 0, 3, 7, 1, 7, 4, 2, 2, 4, 8, 5, 3, 5, 1, 5,
   6, 2, 5, 7, 1, 0, 5, 4, 2, 7, 3, 5, 7, 6, 0, 1, 0, 0, 1, 8, 5, 8, 7, 1, 1,
   2, 4, 2, 6, 7, 5, 7, 8, 1, 2, 5, 3, 5, 5, 2, 7, 1, 3, 6, 7, 8, 8, 0, 0, 5,
   0, 0, 9, 2, 9, 3, 5, 5, 6, 2, 1, 3, 3, 7, 8, 9, 0, 6, 2, 5, 1, 7, 7, 6, 3,
   5, 6, 8, 3, 9, 4, 0, 0, 2, 5, 0, 4, 6, 4, 6, 7, 7, 8, 1, 0, 6, 6, 8, 9, 4,
   5, 3, 1, 2, 5, 8, 8, 8, 1, 7, 8, 4, 1, 9, 7, 0, 0, 1, 2, 5, 2, 3, 2, 3, 3,
   8, 9, 0, 5, 3, 3, 4, 4, 7, 2, 6, 5, 6, 2, 5, 4, 4, 4, 0, 8, 9, 2, 0, 9, 8,
   5, 0, 0, 6, 2, 6, 1, 6, 1, 6, 9, 4, 5, 2, 6, 6, 7, 2, 3, 6, 3, 2, 8, 1, 2,
   5, 2, 2, 2, 0, 4, 4, 6, 0, 4, 9, 2, 5, 0, 3, 1, 3, 0, 8, 0, 8, 4, 7, 2, 6,
   3, 3, 3, 6, 1, 8, 1, 6, 4, 0, 6, 2, 5, 1, 1, 1, 0, 2, 2, 3, 0, 2, 4, 6, 2,
   5, 1, 5, 6, 5, 4, 0, 4, 2, 3, 6, 3, 1, 6, 6, 8, 0, 9, 0, 8, 2, 0, 3, 1, 2,
   5, 5, 5, 5, 1, 1, 1, 5, 1, 2, 3, 1, 2, 5, 7, 8, 2, 7, 0, 2, 1, 1, 8, 1, 5,
   8, 3, 4, 0, 4, 5, 4, 1, 0, 1, 5, 6, 2, 5, 2, 7, 7, 5, 5, 5, 7, 5, 6, 1, 5,
   6, 2, 8, 9, 1, 3, 5, 1, 0, 5, 9, 0, 7, 9, 1, 7, 0, 2, 2, 7, 0, 5, 0, 7, 8,
   1, 2, 5, 1, 3, 8, 7, 7, 7, 8, 7, 8, 0, 7, 8, 1, 4, 4, 5, 6, 7, 5, 5, 2, 9,
   5, 3, 9, 5, 8, 5, 1, 1, 3, 5, 2, 5, 3, 9, 0, 6, 2, 5, 6, 9, 3, 8, 8, 9, 3,
   9, 0, 3, 9, 0, 7, 2, 2, 8, 3, 7, 7, 6, 4, 7, 6, 9, 7, 9, 2, 5, 5, 6, 7, 6,
   2, 6, 9, 5, 3, 1, 2, 5, 3, 4, 6, 9, 4, 4, 6, 9, 5, 1, 9, 5, 3, 6, 1, 4, 1,
   8, 8, 8, 2, 3, 8, 4, 8, 9, 6, 2, 7, 8, 3, 8, 1, 3, 4, 7, 6, 5, 6, 2, 5, 1,
   7, 3, 4, 7, 2, 3, 4, 7, 5, 9, 7, 6, 8, 0, 7, 0, 9, 4, 4, 1, 1, 9, 2, 4, 4,
   8, 1, 3, 9, 1, 9, 0, 6, 7, 3, 8, 2, 8, 1, 2, 5, 8, 6, 7, 3, 6, 1, 7, 3, 7,
   9, 8, 8, 4, 0, 3, 5, 4, 7, 2, 0, 5, 9, 6, 2, 2, 4, 0, 6, 9, 5, 9, 5, 3, 3,
   6, 9, 1, 4, 0, 6, 2, 5]"

definition u32 :: "nat \<Rightarrow> nat" where
  "u32 x = x mod 2 ^ 32"

text \<open>Unsigned 32-bit subtraction, which wraps below zero.\<close>

definition u32_sub :: "nat \<Rightarrow> nat \<Rightarrow> nat" where
  "u32_sub a b = (a + 2 ^ 32 - b mod 2 ^ 32) mod 2 ^ 32"

text \<open>The cast \<^verbatim>\<open>(int32_t)\<close> of a \<^verbatim>\<open>uint32_t\<close>.\<close>

definition s32 :: "nat \<Rightarrow> int" where
  "s32 x = (if x mod 2 ^ 32 < 2 ^ 31 then int (x mod 2 ^ 32) else int (x mod 2 ^ 32) - 2 ^ 32)"

subsection \<open>lshift\_num\_new\_digits\<close>

function lshift_num_new_digits_loop :: "hpd \<Rightarrow> nat \<Rightarrow> nat \<Rightarrow> nat \<Rightarrow> nat \<Rightarrow> nat" where
  "lshift_num_new_digits_loop h pow5_a n num_new_digits i =
     (if i < n then
        (if i \<ge> num_digits h then u32_sub num_new_digits 1
         else if digits h i = powers_of_5 ! (pow5_a + i)
           then lshift_num_new_digits_loop h pow5_a n num_new_digits (i + 1)
         else if digits h i < powers_of_5 ! (pow5_a + i) then u32_sub num_new_digits 1
         else num_new_digits)
      else num_new_digits)"
  by pat_completeness auto
termination
  by (relation "measure (\<lambda>(h, pow5_a, n, num_new_digits, i). n - i)") auto

declare lshift_num_new_digits_loop.simps [simp del]

definition lshift_num_new_digits :: "hpd \<Rightarrow> nat \<Rightarrow> nat" where
  "lshift_num_new_digits h shift0 =
     (let shift = shift0 AND 63;
          x_a = hpd_left_shift ! shift;
          x_b = hpd_left_shift ! (shift + 1);
          num_new_digits = drop_bit 11 x_a;
          pow5_a = 0x7FF AND x_a;
          pow5_b = 0x7FF AND x_b;
          n = u32_sub pow5_b pow5_a
      in lshift_num_new_digits_loop h pow5_a n num_new_digits 0)"

subsection \<open>small\_lshift\<close>

text \<open>
  The indices \<^verbatim>\<open>rx\<close> and \<^verbatim>\<open>wx\<close> are \<^verbatim>\<open>uint32_t\<close> in C and wrap below zero: the first
  loop runs while \<^verbatim>\<open>(int32_t)rx >= 0\<close>, and a wrapped \<^verbatim>\<open>wx\<close> is far above 800.  Here both
  are integers that go negative, and the test \<^verbatim>\<open>wx < 800\<close> reads \<open>0 \<le> wx \<and> wx < 800\<close>.
\<close>

definition small_lshift_put :: "hpd \<Rightarrow> int \<Rightarrow> nat \<Rightarrow> hpd" where
  "small_lshift_put h wx rem =
     (if 0 \<le> wx \<and> wx < int DIGITS_PRECISION then h\<lparr>digits := (digits h)(nat wx := rem mod 256)\<rparr>
      else if rem > 0 then h\<lparr>truncated := True\<rparr>
      else h)"

function small_lshift_pick_up :: "nat \<Rightarrow> hpd \<Rightarrow> int \<Rightarrow> int \<Rightarrow> nat \<Rightarrow> hpd \<times> int \<times> nat" where
  "small_lshift_pick_up shift h rx wx n =
     (if rx \<ge> 0 then
        (let n1 = u64 (n + u64 (digits h (nat rx) * 2 ^ shift));
             quo = n1 div 10;
             rem = n1 - 10 * quo
         in small_lshift_pick_up shift (small_lshift_put h wx rem) (rx - 1) (wx - 1) quo)
      else (h, wx, n))"
  by pat_completeness auto
termination
  by (relation "measure (\<lambda>(shift, h, rx, wx, n). nat (rx + 1))") auto

declare small_lshift_pick_up.simps [simp del]

function small_lshift_put_down :: "hpd \<Rightarrow> int \<Rightarrow> nat \<Rightarrow> hpd" where
  "small_lshift_put_down h wx n =
     (if n > 0 then
        (let quo = n div 10;
             rem = n - 10 * quo
         in small_lshift_put_down (small_lshift_put h wx rem) (wx - 1) quo)
      else h)"
  by pat_completeness auto
termination
  by (relation "measure (\<lambda>(h, wx, n). n)") auto

declare small_lshift_put_down.simps [simp del]

text \<open>The body of \<^verbatim>\<open>small_lshift\<close> for a non-empty HPD, up to the final call of \<^verbatim>\<open>trim\<close>.\<close>

definition small_lshift_untrimmed :: "hpd \<Rightarrow> nat \<Rightarrow> hpd" where
  "small_lshift_untrimmed h shift =
     (let num_new_digits = lshift_num_new_digits h shift;
          rx = int (num_digits h) - 1;
          wx = int (u32 (num_digits h - 1 + num_new_digits));
          (h1, wx1, n) = small_lshift_pick_up shift h rx wx 0;
          h2 = small_lshift_put_down h1 wx1 n;
          nd = u32 (num_digits h + num_new_digits)
      in h2\<lparr>num_digits := (if nd > DIGITS_PRECISION then DIGITS_PRECISION else nd),
             decimal_point := decimal_point h + s32 num_new_digits\<rparr>)"

definition small_lshift :: "hpd \<Rightarrow> nat \<Rightarrow> hpd" where
  "small_lshift h shift =
     (if num_digits h = 0 then h else trim (small_lshift_untrimmed h shift))"

text \<open>
  What the table is meant to hold: the decimal digits of a number, most significant
  first, and the digits of an HPD as a list.
\<close>

function decimal_digits :: "nat \<Rightarrow> nat list" where
  "decimal_digits n = (if n < 10 then [n] else decimal_digits (n div 10) @ [n mod 10])"
  by pat_completeness auto
termination
  by (relation "measure id") auto

declare decimal_digits.simps [simp del]

definition hpd_digit_list :: "hpd \<Rightarrow> nat list" where
  "hpd_digit_list h = map (digits h) [0..<num_digits h]"

definition max_new_digits :: "nat \<Rightarrow> nat" where
  "max_new_digits s = drop_bit 11 (hpd_left_shift ! s)"

definition pow5_slice :: "nat \<Rightarrow> nat list" where
  "pow5_slice s =
     (let a = 0x7FF AND hpd_left_shift ! s; b = 0x7FF AND hpd_left_shift ! (s + 1)
      in take (b - a) (drop a powers_of_5))"

text \<open>The decimal digits of \<open>5 ^ 1\<close>, ..., \<open>5 ^ 60\<close>, one row each.\<close>

definition pow5_rows :: "nat list list" where
  "pow5_rows = [
   [5],
   [2, 5],
   [1, 2, 5],
   [6, 2, 5],
   [3, 1, 2, 5],
   [1, 5, 6, 2, 5],
   [7, 8, 1, 2, 5],
   [3, 9, 0, 6, 2, 5],
   [1, 9, 5, 3, 1, 2, 5],
   [9, 7, 6, 5, 6, 2, 5],
   [4, 8, 8, 2, 8, 1, 2, 5],
   [2, 4, 4, 1, 4, 0, 6, 2, 5],
   [1, 2, 2, 0, 7, 0, 3, 1, 2, 5],
   [6, 1, 0, 3, 5, 1, 5, 6, 2, 5],
   [3, 0, 5, 1, 7, 5, 7, 8, 1, 2, 5],
   [1, 5, 2, 5, 8, 7, 8, 9, 0, 6, 2, 5],
   [7, 6, 2, 9, 3, 9, 4, 5, 3, 1, 2, 5],
   [3, 8, 1, 4, 6, 9, 7, 2, 6, 5, 6, 2, 5],
   [1, 9, 0, 7, 3, 4, 8, 6, 3, 2, 8, 1, 2, 5],
   [9, 5, 3, 6, 7, 4, 3, 1, 6, 4, 0, 6, 2, 5],
   [4, 7, 6, 8, 3, 7, 1, 5, 8, 2, 0, 3, 1, 2, 5],
   [2, 3, 8, 4, 1, 8, 5, 7, 9, 1, 0, 1, 5, 6, 2, 5],
   [1, 1, 9, 2, 0, 9, 2, 8, 9, 5, 5, 0, 7, 8, 1, 2, 5],
   [5, 9, 6, 0, 4, 6, 4, 4, 7, 7, 5, 3, 9, 0, 6, 2, 5],
   [2, 9, 8, 0, 2, 3, 2, 2, 3, 8, 7, 6, 9, 5, 3, 1, 2, 5],
   [1, 4, 9, 0, 1, 1, 6, 1, 1, 9, 3, 8, 4, 7, 6, 5, 6, 2, 5],
   [7, 4, 5, 0, 5, 8, 0, 5, 9, 6, 9, 2, 3, 8, 2, 8, 1, 2, 5],
   [3, 7, 2, 5, 2, 9, 0, 2, 9, 8, 4, 6, 1, 9, 1, 4, 0, 6, 2, 5],
   [1, 8, 6, 2, 6, 4, 5, 1, 4, 9, 2, 3, 0, 9, 5, 7, 0, 3, 1, 2, 5],
   [9, 3, 1, 3, 2, 2, 5, 7, 4, 6, 1, 5, 4, 7, 8, 5, 1, 5, 6, 2, 5],
   [4, 6, 5, 6, 6, 1, 2, 8, 7, 3, 0, 7, 7, 3, 9, 2, 5, 7, 8, 1, 2, 5],
   [2, 3, 2, 8, 3, 0, 6, 4, 3, 6, 5, 3, 8, 6, 9, 6, 2, 8, 9, 0, 6, 2, 5],
   [1, 1, 6, 4, 1, 5, 3, 2, 1, 8, 2, 6, 9, 3, 4, 8, 1, 4, 4, 5, 3, 1, 2, 5],
   [5, 8, 2, 0, 7, 6, 6, 0, 9, 1, 3, 4, 6, 7, 4, 0, 7, 2, 2, 6, 5, 6, 2, 5],
   [2, 9, 1, 0, 3, 8, 3, 0, 4, 5, 6, 7, 3, 3, 7, 0, 3, 6, 1, 3, 2, 8, 1, 2, 5],
   [1, 4, 5, 5, 1, 9, 1, 5, 2, 2, 8, 3, 6, 6, 8, 5, 1, 8, 0, 6, 6, 4, 0, 6, 2, 5],
   [7, 2, 7, 5, 9, 5, 7, 6, 1, 4, 1, 8, 3, 4, 2, 5, 9, 0, 3, 3, 2, 0, 3, 1, 2, 5],
   [3, 6, 3, 7, 9, 7, 8, 8, 0, 7, 0, 9, 1, 7, 1, 2, 9, 5, 1, 6, 6, 0, 1, 5, 6, 2, 5],
   [1, 8, 1, 8, 9, 8, 9, 4, 0, 3, 5, 4, 5, 8, 5, 6, 4, 7, 5, 8, 3, 0, 0, 7, 8, 1, 2, 5],
   [9, 0, 9, 4, 9, 4, 7, 0, 1, 7, 7, 2, 9, 2, 8, 2, 3, 7, 9, 1, 5, 0, 3, 9, 0, 6, 2, 5],
   [4, 5, 4, 7, 4, 7, 3, 5, 0, 8, 8, 6, 4, 6, 4, 1, 1, 8, 9, 5, 7, 5, 1, 9, 5, 3, 1, 2, 5],
   [2, 2, 7, 3, 7, 3, 6, 7, 5, 4, 4, 3, 2, 3, 2, 0, 5, 9, 4, 7, 8, 7, 5, 9, 7, 6, 5, 6, 2, 5],
   [1, 1, 3, 6, 8, 6, 8, 3, 7, 7, 2, 1, 6, 1, 6, 0, 2, 9, 7, 3, 9, 3, 7, 9, 8, 8, 2, 8, 1, 2, 5],
   [5, 6, 8, 4, 3, 4, 1, 8, 8, 6, 0, 8, 0, 8, 0, 1, 4, 8, 6, 9, 6, 8, 9, 9, 4, 1, 4, 0, 6, 2, 5],
   [2, 8, 4, 2, 1, 7, 0, 9, 4, 3, 0, 4, 0, 4, 0, 0, 7, 4, 3, 4, 8, 4, 4, 9, 7, 0, 7, 0, 3, 1, 2, 5],
   [1, 4, 2, 1, 0, 8, 5, 4, 7, 1, 5, 2, 0, 2, 0, 0, 3, 7, 1, 7, 4, 2, 2, 4, 8, 5, 3, 5, 1, 5, 6, 2, 5],
   [7, 1, 0, 5, 4, 2, 7, 3, 5, 7, 6, 0, 1, 0, 0, 1, 8, 5, 8, 7, 1, 1, 2, 4, 2, 6, 7, 5, 7, 8, 1, 2, 5],
   [3, 5, 5, 2, 7, 1, 3, 6, 7, 8, 8, 0, 0, 5, 0, 0, 9, 2, 9, 3, 5, 5, 6, 2, 1, 3, 3, 7, 8, 9, 0, 6, 2, 5],
   [1, 7, 7, 6, 3, 5, 6, 8, 3, 9, 4, 0, 0, 2, 5, 0, 4, 6, 4, 6, 7, 7, 8, 1, 0, 6, 6, 8, 9, 4, 5, 3, 1, 2, 5],
   [8, 8, 8, 1, 7, 8, 4, 1, 9, 7, 0, 0, 1, 2, 5, 2, 3, 2, 3, 3, 8, 9, 0, 5, 3, 3, 4, 4, 7, 2, 6, 5, 6, 2, 5],
   [4, 4, 4, 0, 8, 9, 2, 0, 9, 8, 5, 0, 0, 6, 2, 6, 1, 6, 1, 6, 9, 4, 5, 2, 6, 6, 7, 2, 3, 6, 3, 2, 8, 1, 2, 5],
   [2, 2, 2, 0, 4, 4, 6, 0, 4, 9, 2, 5, 0, 3, 1, 3, 0, 8, 0, 8, 4, 7, 2, 6, 3, 3, 3, 6, 1, 8, 1, 6, 4, 0, 6, 2, 5],
   [1, 1, 1, 0, 2, 2, 3, 0, 2, 4, 6, 2, 5, 1, 5, 6, 5, 4, 0, 4, 2, 3, 6, 3, 1, 6, 6, 8, 0, 9, 0, 8, 2, 0, 3, 1, 2, 5],
   [5, 5, 5, 1, 1, 1, 5, 1, 2, 3, 1, 2, 5, 7, 8, 2, 7, 0, 2, 1, 1, 8, 1, 5, 8, 3, 4, 0, 4, 5, 4, 1, 0, 1, 5, 6, 2, 5],
   [2, 7, 7, 5, 5, 5, 7, 5, 6, 1, 5, 6, 2, 8, 9, 1, 3, 5, 1, 0, 5, 9, 0, 7, 9, 1, 7, 0, 2, 2, 7, 0, 5, 0, 7, 8, 1, 2, 5],
   [1, 3, 8, 7, 7, 7, 8, 7, 8, 0, 7, 8, 1, 4, 4, 5, 6, 7, 5, 5, 2, 9, 5, 3, 9, 5, 8, 5, 1, 1, 3, 5, 2, 5, 3, 9, 0, 6, 2, 5],
   [6, 9, 3, 8, 8, 9, 3, 9, 0, 3, 9, 0, 7, 2, 2, 8, 3, 7, 7, 6, 4, 7, 6, 9, 7, 9, 2, 5, 5, 6, 7, 6, 2, 6, 9, 5, 3, 1, 2, 5],
   [3, 4, 6, 9, 4, 4, 6, 9, 5, 1, 9, 5, 3, 6, 1, 4, 1, 8, 8, 8, 2, 3, 8, 4, 8, 9, 6, 2, 7, 8, 3, 8, 1, 3, 4, 7, 6, 5, 6, 2, 5],
   [1, 7, 3, 4, 7, 2, 3, 4, 7, 5, 9, 7, 6, 8, 0, 7, 0, 9, 4, 4, 1, 1, 9, 2, 4, 4, 8, 1, 3, 9, 1, 9, 0, 6, 7, 3, 8, 2, 8, 1, 2, 5],
   [8, 6, 7, 3, 6, 1, 7, 3, 7, 9, 8, 8, 4, 0, 3, 5, 4, 7, 2, 0, 5, 9, 6, 2, 2, 4, 0, 6, 9, 5, 9, 5, 3, 3, 6, 9, 1, 4, 0, 6, 2, 5]]"

definition digits_value :: "nat list \<Rightarrow> nat" where
  "digits_value ds = foldl (\<lambda>a d. 10 * a + d) 0 ds"

fun offsets_from :: "nat \<Rightarrow> nat list \<Rightarrow> nat list" where
  "offsets_from a [] = [a]"
| "offsets_from a (l # ls) = a # offsets_from (a + l) ls"

subsection \<open>assign\<close>

text \<open>
  The \<^verbatim>\<open>do ... while (x > 0)\<close> loop writes the digits of \<open>x\<close> right to left into the
  zeroed buffer \<^verbatim>\<open>buf\<close>, ending at \<^verbatim>\<open>buf[20]\<close>; the list is the part written so far.
  \<^verbatim>\<open>memcpy\<close> then copies 20 bytes: the digits, followed by zeroes of the buffer.
\<close>

function assign_loop :: "nat \<Rightarrow> nat list \<Rightarrow> nat list" where
  "assign_loop x buf =
     (let remaining = x div 10;
          d = x - remaining * 10
      in if remaining > 0 then assign_loop remaining (d # buf) else d # buf)"
  by pat_completeness auto
termination
  by (relation "measure (\<lambda>(x, buf). x)") auto

declare assign_loop.simps [simp del]

definition assign :: "hpd \<Rightarrow> nat \<Rightarrow> bool \<Rightarrow> hpd" where
  "assign h x neg =
     (let buf = (if x > 0 then assign_loop x [] else []);
          n = length buf;
          ds = (if x > 0
                then (\<lambda>i. if i < 20 then (if i < n then buf ! i else 0) else digits h i)
                else digits h)
      in trim \<lparr>num_digits = n, decimal_point = int n, negative = neg, truncated = False,
               digits = ds\<rparr>)"

subsection \<open>small\_rshift\<close>

text \<open>
  The inner loop that reads implicit trailing zeroes is entered with \<open>n \<noteq> 0\<close> only; the
  guard is repeated here so that the function is total.  With a shift of at most 60 (the
  documented precondition) no product in the two loops below reaches \<open>2 ^ 64\<close>.
\<close>

function small_rshift_zeroes :: "nat \<Rightarrow> nat \<Rightarrow> nat \<Rightarrow> nat \<times> nat" where
  "small_rshift_zeroes shift rx n =
     (if drop_bit shift n = 0 \<and> n \<noteq> 0
      then small_rshift_zeroes shift (rx + 1) (10 * n)
      else (rx, n))"
  by pat_completeness auto
termination
proof (relation "measure (\<lambda>(shift, rx, n). 2 ^ shift - n)")
  show "wf (measure (\<lambda>(shift, rx, n). 2 ^ shift - n))" by simp
next
  fix shift rx n :: nat
  assume a: "drop_bit shift n = 0 \<and> n \<noteq> 0"
  then have "n < 2 ^ shift"
    by (metis drop_bit_eq_div div_greater_zero_iff linorder_not_less zero_less_numeral
        zero_less_power less_numeral_extra(3))
  moreover have "n < 10 * n" using a by simp
  ultimately have "2 ^ shift - 10 * n < 2 ^ shift - n"
    by (rule diff_less_mono2 [rotated])
  then show "((shift, rx + 1, 10 * n), (shift, rx, n)) \<in> measure (\<lambda>(shift, rx, n). 2 ^ shift - n)"
    by simp
qed

declare small_rshift_zeroes.simps [simp del]

function small_rshift_pick_up :: "nat \<Rightarrow> hpd \<Rightarrow> nat \<Rightarrow> nat \<Rightarrow> (nat \<times> nat) option" where
  "small_rshift_pick_up shift h rx n =
     (if drop_bit shift n = 0 then
        (if rx < num_digits h
         then small_rshift_pick_up shift h (rx + 1) (u64 (10 * n + digits h rx))
         else if n = 0 then None
         else Some (small_rshift_zeroes shift rx n))
      else Some (rx, n))"
  by pat_completeness auto
termination
  by (relation "measure (\<lambda>(shift, h, rx, n). num_digits h - rx)") auto

declare small_rshift_pick_up.simps [simp del]

function small_rshift_shift :: "nat \<Rightarrow> hpd \<Rightarrow> nat \<Rightarrow> nat \<Rightarrow> nat \<Rightarrow> hpd \<times> nat \<times> nat" where
  "small_rshift_shift shift h rx wx n =
     (if rx < num_digits h then
        (let new_digit = drop_bit shift n mod 256;
             n1 = u64 (10 * (n AND (2 ^ shift - 1)) + digits h rx)
         in small_rshift_shift shift (h\<lparr>digits := (digits h)(wx := new_digit)\<rparr>) (rx + 1) (wx + 1) n1)
      else (h, wx, n))"
  by pat_completeness auto
termination
  by (relation "measure (\<lambda>(shift, h, rx, wx, n). num_digits h - rx)") auto

declare small_rshift_shift.simps [simp del]

text \<open>
  The last loop stops because every pass doubles the power of two that divides the
  fraction still to be written.
\<close>

definition small_rshift_put_down_measure :: "nat \<Rightarrow> nat \<Rightarrow> nat" where
  "small_rshift_put_down_measure shift n =
     (if n = 0 then 0 else Suc (LEAST k. 2 ^ shift dvd 10 ^ k * n))"

function small_rshift_put_down :: "nat \<Rightarrow> hpd \<Rightarrow> nat \<Rightarrow> nat \<Rightarrow> hpd \<times> nat" where
  "small_rshift_put_down shift h wx n =
     (if n > 0 then
        (let new_digit = drop_bit shift n mod 256;
             n1 = 10 * (n AND (2 ^ shift - 1))
         in if wx < DIGITS_PRECISION
            then small_rshift_put_down shift (h\<lparr>digits := (digits h)(wx := new_digit)\<rparr>) (wx + 1) n1
            else if new_digit > 0
            then small_rshift_put_down shift (h\<lparr>truncated := True\<rparr>) wx n1
            else small_rshift_put_down shift h wx n1)
      else (h, wx))"
  by pat_completeness auto
termination
proof -
  have decr: "small_rshift_put_down_measure shift (10 * (n AND (2 ^ shift - 1)))
              < small_rshift_put_down_measure shift n" if "n > 0" for shift n :: nat
  proof -
    have "(2::nat) ^ shift - 1 = mask shift" by (simp add: mask_eq_exp_minus_1)
    then have m: "n AND (2 ^ shift - 1) = n mod 2 ^ shift"
      by (simp add: take_bit_eq_mask [symmetric] take_bit_eq_mod)
    show ?thesis
    proof (cases "n mod 2 ^ shift = 0")
      case True
      then show ?thesis using that m by (simp add: small_rshift_put_down_measure_def)
    next
      case False
      define P where "P k \<longleftrightarrow> 2 ^ shift dvd 10 ^ k * n" for k
      have P0: "\<not> P 0" using False by (simp add: P_def dvd_eq_mod_eq_0)
      have "(10::nat) ^ shift = 2 ^ shift * 5 ^ shift"
        by (simp add: power_mult_distrib [symmetric])
      then have Ps: "P shift" by (simp add: P_def)
      have eq: "(2 ^ shift dvd 10 ^ k * (10 * (n mod 2 ^ shift))) = P (Suc k)" for k
      proof -
        have "(10 ^ k * (10 * (n mod 2 ^ shift))) mod 2 ^ shift = (10 ^ Suc k * n) mod 2 ^ shift"
          by (metis (no_types, lifting) mod_mult_right_eq mult.assoc mult.commute power_Suc)
        then show ?thesis by (simp add: P_def dvd_eq_mod_eq_0)
      qed
      have "(LEAST k. P k) = Suc (LEAST k. P (Suc k))"
        by (rule Least_Suc [OF Ps P0])
      then show ?thesis
        using that False m by (simp add: small_rshift_put_down_measure_def eq P_def [symmetric])
    qed
  qed
  show ?thesis
    by (relation "measure (\<lambda>(shift, h, wx, n). small_rshift_put_down_measure shift n)")
       (use decr in auto)
qed

declare small_rshift_put_down.simps [simp del]

definition small_rshift :: "hpd \<Rightarrow> nat \<Rightarrow> hpd" where
  "small_rshift h shift =
     (case small_rshift_pick_up shift h 0 0 of
        None \<Rightarrow> h
      | Some (rx, n) \<Rightarrow>
          (let dp = decimal_point h - (int rx - 1)
           in if dp < - DECIMAL_POINT_RANGE
              then h\<lparr>num_digits := 0, decimal_point := 0, negative := False, truncated := False\<rparr>
              else
                (let (h1, wx1, n1) = small_rshift_shift shift (h\<lparr>decimal_point := dp\<rparr>) rx 0 n;
                     (h2, wx2) = small_rshift_put_down shift h1 wx1 n1
                 in trim (h2\<lparr>num_digits := wx2\<rparr>))))"

subsection \<open>lshift\<close>

function lshift_left :: "hpd \<Rightarrow> int \<Rightarrow> hpd" where
  "lshift_left h shift =
     (if shift > int SHIFT_MAX_INCL
      then lshift_left (small_lshift h SHIFT_MAX_INCL) (shift - int SHIFT_MAX_INCL)
      else small_lshift h (nat shift))"
  by pat_completeness auto
termination
  by (relation "measure (\<lambda>(h, shift). nat shift)") (auto simp: SHIFT_MAX_INCL_def)

declare lshift_left.simps [simp del]

function lshift_right :: "hpd \<Rightarrow> int \<Rightarrow> hpd" where
  "lshift_right h shift =
     (if shift < - int SHIFT_MAX_INCL
      then lshift_right (small_rshift h SHIFT_MAX_INCL) (shift + int SHIFT_MAX_INCL)
      else small_rshift h (nat (- shift)))"
  by pat_completeness auto
termination
  by (relation "measure (\<lambda>(h, shift). nat (- shift))") (auto simp: SHIFT_MAX_INCL_def)

declare lshift_right.simps [simp del]

definition lshift :: "hpd \<Rightarrow> int \<Rightarrow> hpd" where
  "lshift h shift =
     (if shift > 0 then lshift_left h shift
      else if shift < 0 then lshift_right h shift
      else h)"

subsection \<open>Rounding\<close>

definition round_down :: "hpd \<Rightarrow> int \<Rightarrow> hpd" where
  "round_down h n =
     (if n < 0 \<or> int (num_digits h) \<le> n then h
      else trim (h\<lparr>num_digits := nat n\<rparr>))"

text \<open>
  The loop \<^verbatim>\<open>for (n--; n >= 0; n--)\<close> of \<^verbatim>\<open>round_up\<close>, entered after \<^verbatim>\<open>n--\<close>, and the
  code for a number that is all nines after it.
\<close>

function round_up_loop :: "hpd \<Rightarrow> int \<Rightarrow> hpd" where
  "round_up_loop h n =
     (if n \<ge> 0 then
        (if digits h (nat n) < 9
         then h\<lparr>digits := (digits h)(nat n := (digits h (nat n) + 1) mod 256),
                num_digits := nat (n + 1)\<rparr>
         else round_up_loop h (n - 1))
      else h\<lparr>digits := (digits h)(0 := 1), num_digits := 1,
             decimal_point := decimal_point h + 1\<rparr>)"
  by pat_completeness auto
termination
  by (relation "measure (\<lambda>(h, n). nat (n + 1))") auto

declare round_up_loop.simps [simp del]

definition round_up :: "hpd \<Rightarrow> int \<Rightarrow> hpd" where
  "round_up h n =
     (if n < 0 \<or> int (num_digits h) \<le> n then h
      else round_up_loop h (n - 1))"

definition round_nearest :: "hpd \<Rightarrow> int \<Rightarrow> hpd" where
  "round_nearest h n =
     (if n < 0 \<or> int (num_digits h) \<le> n then h
      else
        (let up = (if digits h (nat n) = 5 \<and> n + 1 = int (num_digits h)
                   then truncated h \<or> (n > 0 \<and> (digits h (nat (n - 1)) AND 1) \<noteq> 0)
                   else digits h (nat n) \<ge> 5)
         in if up then round_up h n else round_down h n))"

text \<open>
  The loop of \<^verbatim>\<open>round_just_enough\<close>.  An index cast to \<^verbatim>\<open>uint32_t\<close> and compared with a
  digit count is in range exactly when it is non-negative and below the count.
\<close>

definition digit_or_zero :: "hpd \<Rightarrow> int \<Rightarrow> nat" where
  "digit_or_zero z i = (if 0 \<le> i \<and> i < int (num_digits z) then digits z (nat i) else 0)"

function round_just_enough_loop ::
    "hpd \<Rightarrow> hpd \<Rightarrow> hpd \<Rightarrow> bool \<Rightarrow> int \<Rightarrow> int \<Rightarrow> hpd" where
  "round_just_enough_loop h lower upper inclusive upper_delta ui =
     (let hi = ui - decimal_point upper + decimal_point h
      in if hi \<ge> int (num_digits h) then h
         else
           (let hd = digit_or_zero h hi;
                li = ui - decimal_point upper + decimal_point lower;
                ld = digit_or_zero lower li;
                can_round_down = (ld \<noteq> hd \<or> (inclusive \<and> li + 1 = int (num_digits lower)));
                ud = digit_or_zero upper ui;
                upper_delta1 =
                  (if upper_delta < 0 then
                     (if hd + 1 < ud then 1 else if hd \<noteq> ud then 0 else upper_delta)
                   else if upper_delta = 0 then
                     (if hd \<noteq> 9 \<or> ud \<noteq> 0 then 1 else upper_delta)
                   else upper_delta);
                can_round_up =
                  (upper_delta1 > 0 \<or>
                   (upper_delta1 = 0 \<and> (inclusive \<or> ui + 1 < int (num_digits upper))))
            in if can_round_down then
                 (if can_round_up then round_nearest h (hi + 1) else round_down h (hi + 1))
               else if can_round_up then round_up h (hi + 1)
               else round_just_enough_loop h lower upper inclusive upper_delta1 (ui + 1)))"
  by pat_completeness auto
termination
  by (relation "measure (\<lambda>(h, lower, upper, inclusive, upper_delta, ui).
        nat (int (num_digits h) - (ui - decimal_point upper + decimal_point h)))")
     (auto simp: Let_def)

declare round_just_enough_loop.simps [simp del]

text \<open>
  \<^verbatim>\<open>round_just_enough\<close>.  Its locals \<^verbatim>\<open>lower\<close> and \<^verbatim>\<open>upper\<close> are uninitialised stack
  objects that \<^verbatim>\<open>assign\<close> fills; \<open>lower0\<close> and \<open>upper0\<close> are what the stack holds there.
\<close>

definition round_just_enough_with :: "hpd \<times> hpd \<Rightarrow> hpd \<Rightarrow> int \<Rightarrow> nat \<Rightarrow> hpd" where
  "round_just_enough_with stack h e2 man =
     (if man = 0 \<or> (e2 < 53 \<and> decimal_point h \<ge> int (num_digits h)) then h
      else
        (let (lower0, upper0) = stack;
             min_incl_normal_exp2 = - 1022;
             min_incl_normal_mantissa = 0x0010000000000000;
             (l_exp2, l_mantissa) =
               (if e2 > min_incl_normal_exp2 \<and> man \<le> min_incl_normal_mantissa
                then (e2 - 1, u64 (2 * man + 2 ^ 64 - 1))
                else (e2, u64 (man + 2 ^ 64 - 1)));
             lower = lshift (assign lower0 (u64 (2 * l_mantissa + 1)) False) (l_exp2 - 53);
             upper = lshift (assign upper0 (u64 (2 * man + 1)) False) (e2 - 53);
             inclusive = ((man AND 1) = 0)
         in round_just_enough_loop h lower upper inclusive (- 1) 0))"

section \<open>Medium precision binaries (MPB)\<close>

subsection \<open>The powers-of-ten table\<close>

text \<open>
  \<^verbatim>\<open>powers_of_10\<close> holds 637 quintuples of \<^verbatim>\<open>uint32_t\<close>, for \<open>1e-326\<close> to \<open>1e+310\<close>: a
  little-endian 128-bit mantissa and an exponent biased by 1214.  The rows are listed
  one quintuple each and flattened into the array the code indexes.
\<close>

definition powers_of_10_rows :: "(nat \<times> nat \<times> nat \<times> nat \<times> nat) list" where
  "powers_of_10_rows = [
   (0xF7604B57, 0x014BB630, 0xFE98746D, 0x84A57695, 0x0004),
   (0x35385E2D, 0x419EA3BD, 0x7E3E9188, 0xA5CED43B, 0x0007),
   (0x828675B9, 0x52064CAC, 0x5DCE35EA, 0xCF42894A, 0x000A),
   (0xD1940993, 0x7343EFEB, 0x7AA0E1B2, 0x818995CE, 0x000E),
   (0xC5F90BF8, 0x1014EBE6, 0x19491A1F, 0xA1EBFB42, 0x0011),
   (0x77774EF6, 0xD41A26E0, 0x9F9B60A6, 0xCA66FA12, 0x0014),
   (0x955522B4, 0x8920B098, 0x478238D0, 0xFD00B897, 0x0017),
   (0x5D5535B0, 0x55B46E5F, 0x8CB16382, 0x9E20735E, 0x001B),
   (0x34AA831D, 0xEB2189F7, 0x2FDDBC62, 0xC5A89036, 0x001E),
   (0x01D523E4, 0xA5E9EC75, 0xBBD52B7B, 0xF712B443, 0x0021),
   (0x2125366E, 0x47B233C9, 0x55653B2D, 0x9A6BB0AA, 0x0025),
   (0x696E840A, 0x999EC0BB, 0xEABE89F8, 0xC1069CD4, 0x0028),
   (0x43CA250D, 0xC00670EA, 0x256E2C76, 0xF148440A, 0x002B),
   (0x6A5E5728, 0x38040692, 0x5764DBCA, 0x96CD2A86, 0x002F),
   (0x04F5ECF2, 0xC6050837, 0xED3E12BC, 0xBC807527, 0x0032),
   (0xC633682E, 0xF7864A44, 0xE88D976B, 0xEBA09271, 0x0035),
   (0xFBE0211D, 0x7AB3EE6A, 0x31587EA3, 0x93445B87, 0x0039),
   (0xBAD82964, 0x5960EA05, 0xFDAE9E4C, 0xB8157268, 0x003C),
   (0x298E33BD, 0x6FB92487, 0x3D1A45DF, 0xE61ACF03, 0x003F),
   (0x79F8E056, 0xA5D3B6D4, 0x06306BAB, 0x8FD0C162, 0x0043),
   (0x9877186C, 0x8F48A489, 0x87BC8696, 0xB3C4F1BA, 0x0046),
   (0xFE94DE87, 0x331ACDAB, 0x29ABA83C, 0xE0B62E29, 0x0049),
   (0x7F1D0B14, 0x9FF0C08B, 0xBA0B4925, 0x8C71DCD9, 0x004D),
   (0x5EE44DD9, 0x07ECF0AE, 0x288E1B6F, 0xAF8E5410, 0x0050),
   (0xF69D6150, 0xC9E82CD9, 0x32B1A24A, 0xDB71E914, 0x0053),
   (0x3A225CD2, 0xBE311C08, 0x9FAF056E, 0x892731AC, 0x0057),
   (0x48AAF406, 0x6DBD630A, 0xC79AC6CA, 0xAB70FE17, 0x005A),
   (0xDAD5B108, 0x092CBBCC, 0xB981787D, 0xD64D3D9D, 0x005D),
   (0x08C58EA5, 0x25BBF560, 0x93F0EB4E, 0x85F04682, 0x0061),
   (0x0AF6F24E, 0xAF2AF2B8, 0x38ED2621, 0xA76C5823, 0x0064),
   (0x0DB4AEE1, 0x1AF5AF66, 0x07286FAA, 0xD1476E2C, 0x0067),
   (0xC890ED4D, 0x50D98D9F, 0x847945CA, 0x82CCA4DB, 0x006B),
   (0xBAB528A0, 0xE50FF107, 0x6597973C, 0xA37FCE12, 0x006E),
   (0xA96272C8, 0x1E53ED49, 0xFEFD7D0C, 0xCC5FC196, 0x0071),
   (0x13BB0F7A, 0x25E8E89C, 0xBEBCDC4F, 0xFF77B1FC, 0x0074),
   (0x8C54E9AC, 0x77B19161, 0xF73609B1, 0x9FAACF3D, 0x0078),
   (0xEF6A2417, 0xD59DF5B9, 0x75038C1D, 0xC795830D, 0x007B),
   (0x6B44AD1D, 0x4B057328, 0xD2446F25, 0xF97AE3D0, 0x007E),
   (0x430AEC32, 0x4EE367F9, 0x836AC577, 0x9BECCE62, 0x0082),
   (0x93CDA73F, 0x229C41F7, 0x244576D5, 0xC2E801FB, 0x0085),
   (0x78C1110F, 0x6B435275, 0xED56D48A, 0xF3A20279, 0x0088),
   (0x6B78AAA9, 0x830A1389, 0x345644D6, 0x9845418C, 0x008C),
   (0xC656D553, 0x23CC986B, 0x416BD60C, 0xBE5691EF, 0x008F),
   (0xB7EC8AA8, 0x2CBFBE86, 0x11C6CB8F, 0xEDEC366B, 0x0092),
   (0x32F3D6A9, 0x7BF7D714, 0xEB1C3F39, 0x94B3A202, 0x0096),
   (0x3FB0CC53, 0xDAF5CCD9, 0xA5E34F07, 0xB9E08A83, 0x0099),
   (0x8F9CFF68, 0xD1B3400F, 0x8F5C22C9, 0xE858AD24, 0x009C),
   (0xB9C21FA1, 0x23100809, 0xD99995BE, 0x91376C36, 0x00A0),
   (0x2832A78A, 0xABD40A0C, 0x8FFFFB2D, 0xB5854744, 0x00A3),
   (0x323F516C, 0x16C90C8F, 0xB3FFF9F9, 0xE2E69915, 0x00A6),
   (0x7F6792E3, 0xAE3DA7D9, 0x907FFC3B, 0x8DD01FAD, 0x00AA),
   (0xDF41779C, 0x99CD11CF, 0xF49FFB4A, 0xB1442798, 0x00AD),
   (0xD711D583, 0x40405643, 0x31C7FA1D, 0xDD95317F, 0x00B0),
   (0x666B2572, 0x482835EA, 0x7F1CFC52, 0x8A7D3EEF, 0x00B4),
   (0x0005EECF, 0xDA324365, 0x5EE43B66, 0xAD1C8EAB, 0x00B7),
   (0x40076A82, 0x90BED43E, 0x369D4A40, 0xD863B256, 0x00BA),
   (0xE804A291, 0x5A7744A6, 0xE2224E68, 0x873E4F75, 0x00BE),
   (0xA205CB36, 0x711515D0, 0x5AAAE202, 0xA90DE353, 0x00C1),
   (0xCA873E03, 0x0D5A5B44, 0x31559A83, 0xD3515C28, 0x00C4),
   (0xFE9486C2, 0xE858790A, 0x1ED58091, 0x8412D999, 0x00C8),
   (0xBE39A872, 0x626E974D, 0x668AE0B6, 0xA5178FFF, 0x00CB),
   (0x2DC8128F, 0xFB0A3D21, 0x402D98E3, 0xCE5D73FF, 0x00CE),
   (0xBC9D0B99, 0x7CE66634, 0x881C7F8E, 0x80FA687F, 0x00D2),
   (0xEBC44E80, 0x1C1FFFC1, 0x6A239F72, 0xA139029F, 0x00D5),
   (0x66B56220, 0xA327FFB2, 0x44AC874E, 0xC9874347, 0x00D8),
   (0x0062BAA8, 0x4BF1FF9F, 0x15D7A922, 0xFBE91419, 0x00DB),
   (0x603DB4A9, 0x6F773FC3, 0xADA6C9B5, 0x9D71AC8F, 0x00DF),
   (0x384D21D3, 0xCB550FB4, 0x99107C22, 0xC4CE17B3, 0x00E2),
   (0x46606A48, 0x7E2A53A1, 0x7F549B2B, 0xF6019DA0, 0x00E5),
   (0xCBFC426D, 0x2EDA7444, 0x4F94E0FB, 0x99C10284, 0x00E9),
   (0xFEFB5308, 0xFA911155, 0x637A1939, 0xC0314325, 0x00EC),
   (0x7EBA27CA, 0x793555AB, 0xBC589F88, 0xF03D93EE, 0x00EF),
   (0x2F3458DE, 0x4BC1558B, 0x35B763B5, 0x96267C75, 0x00F3),
   (0xFB016F16, 0x9EB1AAED, 0x83253CA2, 0xBBB01B92, 0x00F6),
   (0x79C1CADC, 0x465E15A9, 0x23EE8BCB, 0xEA9C2277, 0x00F9),
   (0xEC191EC9, 0x0BFACD89, 0x7675175F, 0x92A1958A, 0x00FD),
   (0x671F667B, 0xCEF980EC, 0x14125D36, 0xB749FAED, 0x0100),
   (0x80E7401A, 0x82B7E127, 0x5916F484, 0xE51C79A8, 0x0103),
   (0xB0908810, 0xD1B2ECB8, 0x37AE58D2, 0x8F31CC09, 0x0107),
   (0xDCB4AA15, 0x861FA7E6, 0x8599EF07, 0xB2FE3F0B, 0x010A),
   (0x93E1D49A, 0x67A791E0, 0x67006AC9, 0xDFBDCECE, 0x010D),
   (0x5C6D24E0, 0xE0C8BB2C, 0x006042BD, 0x8BD6A141, 0x0111),
   (0x73886E18, 0x58FAE9F7, 0x4078536D, 0xAECC4991, 0x0114),
   (0x506A899E, 0xAF39A475, 0x90966848, 0xDA7F5BF5, 0x0117),
   (0x52429603, 0x6D8406C9, 0x7A5E012D, 0x888F9979, 0x011B),
   (0xA6D33B83, 0xC8E5087B, 0xD8F58178, 0xAAB37FD7, 0x011E),
   (0x90880A64, 0xFB1E4A9A, 0xCF32E1D6, 0xD5605FCD, 0x0121),
   (0x9A55067F, 0x5CF2EEA0, 0xA17FCD26, 0x855C3BE0, 0x0125),
   (0xC0EA481E, 0xF42FAA48, 0xC9DFC06F, 0xA6B34AD8, 0x0128),
   (0xF124DA26, 0xF13B94DA, 0xFC57B08B, 0xD0601D8E, 0x012B),
   (0xD6B70858, 0x76C53D08, 0x5DB6CE57, 0x823C1279, 0x012F),
   (0x0C64CA6E, 0x54768C4B, 0xB52481ED, 0xA2CB1717, 0x0132),
   (0xCF7DFD09, 0xA9942F5D, 0xA26DA268, 0xCB7DDCDD, 0x0135),
   (0x435D7C4C, 0xD3F93B35, 0x0B090B02, 0xFE5D5415, 0x0138),
   (0x4A1A6DAF, 0xC47BC501, 0x26E5A6E1, 0x9EFA548D, 0x013C),
   (0x9CA1091B, 0x359AB641, 0x709F109A, 0xC6B8E9B0, 0x013F),
   (0x03C94B62, 0xC30163D2, 0x8CC6D4C0, 0xF867241C, 0x0142),
   (0x425DCF1D, 0x79E0DE63, 0xD7FC44F8, 0x9B407691, 0x0146),
   (0x12F542E4, 0x985915FC, 0x4DFB5636, 0xC2109436, 0x0149),
   (0x17B2939D, 0x3E6F5B7B, 0xE17A2BC4, 0xF294B943, 0x014C),
   (0xEECF9C42, 0xA705992C, 0x6CEC5B5A, 0x979CF3CA, 0x0150),
   (0x2A838353, 0x50C6FF78, 0x08277231, 0xBD8430BD, 0x0153),
   (0x35246428, 0xA4F8BF56, 0x4A314EBD, 0xECE53CEC, 0x0156),
   (0xE136BE99, 0x871B7795, 0xAE5ED136, 0x940F4613, 0x015A),
   (0x59846E3F, 0x28E2557B, 0x99F68584, 0xB9131798, 0x015D),
   (0x2FE589CF, 0x331AEADA, 0xC07426E5, 0xE757DD7E, 0x0160),
   (0x5DEF7621, 0x3FF0D2C8, 0x3848984F, 0x9096EA6F, 0x0164),
   (0x756B53A9, 0x0FED077A, 0x065ABE63, 0xB4BCA50B, 0x0167),
   (0x12C62894, 0xD3E84959, 0xC7F16DFB, 0xE1EBCE4D, 0x016A),
   (0xABBBD95C, 0x64712DD7, 0x9CF6E4BD, 0x8D3360F0, 0x016E),
   (0x96AACFB3, 0xBD8D794D, 0xC4349DEC, 0xB080392C, 0x0171),
   (0xFC5583A0, 0xECF0D7A0, 0xF541C567, 0xDCA04777, 0x0174),
   (0x9DB57244, 0xF41686C4, 0xF9491B60, 0x89E42CAA, 0x0178),
   (0xC522CED5, 0x311C2875, 0xB79B6239, 0xAC5D37D5, 0x017B),
   (0x366B828B, 0x7D633293, 0x25823AC7, 0xD77485CB, 0x017E),
   (0x02033197, 0xAE5DFF9C, 0xF77164BC, 0x86A8D39E, 0x0182),
   (0x0283FDFC, 0xD9F57F83, 0xB54DBDEB, 0xA8530886, 0x0185),
   (0xC324FD7B, 0xD072DF63, 0x62A12D66, 0xD267CAA8, 0x0188),
   (0x59F71E6D, 0x4247CB9E, 0x3DA4BC60, 0x8380DEA9, 0x018C),
   (0xF074E608, 0x52D9BE85, 0x8D0DEB78, 0xA4611653, 0x018F),
   (0x6C921F8B, 0x67902E27, 0x70516656, 0xCD795BE8, 0x0192),
   (0xA3DB53B6, 0x00BA1CD8, 0x4632DFF6, 0x806BD971, 0x0196),
   (0xCCD228A4, 0x80E8A40E, 0x97BF97F3, 0xA086CFCD, 0x0199),
   (0x8006B2CD, 0x6122CD12, 0xFDAF7DF0, 0xC8A883C0, 0x019C),
   (0x20085F81, 0x796B8057, 0x3D1B5D6C, 0xFAD2A4B1, 0x019F),
   (0x74053BB0, 0xCBE33036, 0xC6311A63, 0x9CC3A6EE, 0x01A3),
   (0x11068A9C, 0xBEDBFC44, 0x77BD60FC, 0xC3F490AA, 0x01A6),
   (0x15482D44, 0xEE92FB55, 0x15ACB93B, 0xF4F1B4D5, 0x01A9),
   (0x2D4D1C4A, 0x751BDD15, 0x2D8BF3C5, 0x99171105, 0x01AD),
   (0x78A0635D, 0xD262D45A, 0x78EEF0B6, 0xBF5CD546, 0x01B0),
   (0x16C87C34, 0x86FB8971, 0x172AACE4, 0xEF340A98, 0x01B3),
   (0xAE3D4DA0, 0xD45D35E6, 0x0E7AAC0E, 0x9580869F, 0x01B7),
   (0x59CCA109, 0x89748360, 0xD2195712, 0xBAE0A846, 0x01BA),
   (0x703FC94B, 0x2BD1A438, 0x869FACD7, 0xE998D258, 0x01BD),
   (0x4627DDCF, 0x7B6306A3, 0x5423CC06, 0x91FF8377, 0x01C1),
   (0x17B1D542, 0x1A3BC84C, 0x292CBF08, 0xB67F6455, 0x01C4),
   (0x1D9E4A93, 0x20CABA5F, 0x7377EECA, 0xE41F3D6A, 0x01C7),
   (0x7282EE9C, 0x547EB47B, 0x882AF53E, 0x8E938662, 0x01CB),
   (0x4F23AA43, 0xE99E619A, 0x2A35B28D, 0xB23867FB, 0x01CE),
   (0xE2EC94D4, 0x6405FA00, 0xF4C31F31, 0xDEC681F9, 0x01D1),
   (0x8DD3DD04, 0xDE83BC40, 0x38F9F37E, 0x8B3C113C, 0x01D5),
   (0xB148D445, 0x9624AB50, 0x4738705E, 0xAE0B158B, 0x01D8),
   (0xDD9B0957, 0x3BADD624, 0x19068C76, 0xD98DDAEE, 0x01DB),
   (0x0A80E5D6, 0xE54CA5D7, 0xCFA417C9, 0x87F8A8D4, 0x01DF),
   (0xCD211F4C, 0x5E9FCF4C, 0x038D1DBC, 0xA9F6D30A, 0x01E2),
   (0x0069671F, 0x7647C320, 0x8470652B, 0xD47487CC, 0x01E5),
   (0x0041E073, 0x29ECD9F4, 0xD2C63F3B, 0x84C8D4DF, 0x01E9),
   (0x00525890, 0xF4681071, 0xC777CF09, 0xA5FB0A17, 0x01EC),
   (0x4066EEB4, 0x7182148D, 0xB955C2CC, 0xCF79CC9D, 0x01EF),
   (0x48405530, 0xC6F14CD8, 0x93D599BF, 0x81AC1FE2, 0x01F3),
   (0x5A506A7C, 0xB8ADA00E, 0x38CB002F, 0xA21727DB, 0x01F6),
   (0xF0E4851C, 0xA6D90811, 0x06FDC03B, 0xCA9CF1D2, 0x01F9),
   (0x6D1DA663, 0x908F4A16, 0x88BD304A, 0xFD442E46, 0x01FC),
   (0x043287FE, 0x9A598E4E, 0x15763E2E, 0x9E4A9CEC, 0x0200),
   (0x853F29FD, 0x40EFF1E1, 0x1AD3CDBA, 0xC5DD4427, 0x0203),
   (0xE68EF47C, 0xD12BEE59, 0xE188C128, 0xF7549530, 0x0206),
   (0x301958CE, 0x82BB74F8, 0x8CF578B9, 0x9A94DD3E, 0x020A),
   (0x3C1FAF01, 0xE36A5236, 0x3032D6E7, 0xC13A148E, 0x020D),
   (0xCB279AC1, 0xDC44E6C3, 0xBC3F8CA1, 0xF18899B1, 0x0210),
   (0x5EF8C0B9, 0x29AB103A, 0x15A7B7E5, 0x96F5600F, 0x0214),
   (0xF6B6F0E7, 0x7415D448, 0xDB11A5DE, 0xBCB2B812, 0x0217),
   (0x3464AD21, 0x111B495B, 0x91D60F56, 0xEBDF6617, 0x021A),
   (0x00BEEC34, 0xCAB10DD9, 0xBB25C995, 0x936B9FCE, 0x021E),
   (0x40EEA742, 0x3D5D514F, 0x69EF3BFB, 0xB84687C2, 0x0221),
   (0x112A5112, 0x0CB4A5A3, 0x046B0AFA, 0xE65829B3, 0x0224),
   (0xEABA72AB, 0x47F0E785, 0xE2C2E6DC, 0x8FF71A0F, 0x0228),
   (0x65690F56, 0x59ED2167, 0xDB73A093, 0xB3F4E093, 0x022B),
   (0x3EC3532C, 0x306869C1, 0xD25088B8, 0xE0F218B8, 0x022E),
   (0xC73A13FB, 0x1E414218, 0x83725573, 0x8C974F73, 0x0232),
   (0xF90898FA, 0xE5D1929E, 0x644EEACF, 0xAFBD2350, 0x0235),
   (0xB74ABF39, 0xDF45F746, 0x7D62A583, 0xDBAC6C24, 0x0238),
   (0x328EB783, 0x6B8BBA8C, 0xCE5DA772, 0x894BC396, 0x023C),
   (0x3F326564, 0x066EA92F, 0x81F5114F, 0xAB9EB47C, 0x023F),
   (0x0EFEFEBD, 0xC80A537B, 0xA27255A2, 0xD686619B, 0x0242),
   (0xE95F5F36, 0xBD06742C, 0x45877585, 0x8613FD01, 0x0246),
   (0x23B73704, 0x2C481138, 0x96E952E7, 0xA798FC41, 0x0249),
   (0x2CA504C5, 0xF75A1586, 0xFCA3A7A0, 0xD17F3B51, 0x024C),
   (0xDBE722FB, 0x9A984D73, 0x3DE648C4, 0x82EF8513, 0x0250),
   (0xD2E0EBBA, 0xC13E60D0, 0x0D5FDAF5, 0xA3AB6658, 0x0253),
   (0x079926A8, 0x318DF905, 0x10B7D1B3, 0xCC963FEE, 0x0256),
   (0x497F7052, 0xFDF17746, 0x94E5C61F, 0xFFBBCFE9, 0x0259),
   (0xEDEFA633, 0xFEB6EA8B, 0xFD0F9BD3, 0x9FD561F1, 0x025D),
   (0xE96B8FC0, 0xFE64A52E, 0x7C5382C8, 0xC7CABA6E, 0x0260),
   (0xA3C673B0, 0x3DFDCE7A, 0x1B68637B, 0xF9BD690A, 0x0263),
   (0xA65C084E, 0x06BEA10C, 0x51213E2D, 0x9C1661A6, 0x0267),
   (0xCFF30A62, 0x486E494F, 0xE5698DB8, 0xC31BFA0F, 0x026A),
   (0xC3EFCCFA, 0x5A89DBA3, 0xDEC3F126, 0xF3E2F893, 0x026D),
   (0x5A75E01C, 0xF8962946, 0x6B3A76B7, 0x986DDB5C, 0x0271),
   (0xF1135823, 0xF6BBB397, 0x86091465, 0xBE895233, 0x0274),
   (0xED582E2C, 0x746AA07D, 0x678B597F, 0xEE2BA6C0, 0x0277),
   (0xB4571CDC, 0xA8C2A44E, 0x40B717EF, 0x94DB4838, 0x027B),
   (0x616CE413, 0x92F34D62, 0x50E4DDEB, 0xBA121A46, 0x027E),
   (0xF9C81D17, 0x77B020BA, 0xE51E1566, 0xE896A0D7, 0x0281),
   (0xDC1D122E, 0x0ACE1474, 0xEF32CD60, 0x915E2486, 0x0285),
   (0x132456BA, 0x0D819992, 0xAAFF80B8, 0xB5B5ADA8, 0x0288),
   (0x97ED6C69, 0x10E1FFF6, 0xD5BF60E6, 0xE3231912, 0x028B),
   (0x1EF463C1, 0xCA8D3FFA, 0xC5979C8F, 0x8DF5EFAB, 0x028F),
   (0xA6B17CB2, 0xBD308FF8, 0xB6FD83B3, 0xB1736B96, 0x0292),
   (0xD05DDBDE, 0xAC7CB3F6, 0x64BCE4A0, 0xDDD0467C, 0x0295),
   (0x423AA96B, 0x6BCDF07A, 0xBEF60EE4, 0x8AA22C0D, 0x0299),
   (0xD2C953C6, 0x86C16C98, 0x2EB3929D, 0xAD4AB711, 0x029C),
   (0x077BA8B7, 0xE871C7BF, 0x7A607744, 0xD89D64D5, 0x029F),
   (0x64AD4972, 0x11471CD7, 0x6C7C4A8B, 0x87625F05, 0x02A3),
   (0x3DD89BCF, 0xD598E40D, 0xC79B5D2D, 0xA93AF6C6, 0x02A6),
   (0x8D4EC2C3, 0x4AFF1D10, 0x79823479, 0xD389B478, 0x02A9),
   (0x585139BA, 0xCEDF722A, 0x4BF160CB, 0x843610CB, 0x02AD),
   (0xEE658828, 0xC2974EB4, 0x1EEDB8FE, 0xA54394FE, 0x02B0),
   (0x29FEEA32, 0x733D2262, 0xA6A9273E, 0xCE947A3D, 0x02B3),
   (0x5A3F525F, 0x0806357D, 0x8829B887, 0x811CCC66, 0x02B7),
   (0xB0CF26F7, 0xCA07C2DC, 0x2A3426A8, 0xA163FF80, 0x02BA),
   (0xDD02F0B5, 0xFC89B393, 0x34C13052, 0xC9BCFF60, 0x02BD),
   (0xD443ACE2, 0xBBAC2078, 0x41F17C67, 0xFC2C3F38, 0x02C0),
   (0x84AA4C0D, 0xD54B944B, 0x2936EDC0, 0x9D9BA783, 0x02C4),
   (0x65D4DF11, 0x0A9E795E, 0xF384A931, 0xC5029163, 0x02C7),
   (0xFF4A16D5, 0x4D4617B5, 0xF065D37D, 0xF64335BC, 0x02CA),
   (0xBF8E4E45, 0x504BCED1, 0x163FA42E, 0x99EA0196, 0x02CE),
   (0x2F71E1D6, 0xE45EC286, 0x9BCF8D39, 0xC06481FB, 0x02D1),
   (0xBB4E5A4C, 0x5D767327, 0x82C37088, 0xF07DA27A, 0x02D4),
   (0xD510F86F, 0x3A6A07F8, 0x91BA2655, 0x964E858C, 0x02D8),
   (0x0A55368B, 0x890489F7, 0xB628AFEA, 0xBBE226EF, 0x02DB),
   (0xCCEA842E, 0x2B45AC74, 0xA3B2DBE5, 0xEADAB0AB, 0x02DE),
   (0x0012929D, 0x3B0B8BC9, 0x464FC96F, 0x92C8AE6B, 0x02E2),
   (0x40173744, 0x09CE6EBB, 0x17E3BBCB, 0xB77ADA06, 0x02E5),
   (0x101D0515, 0xCC420A6A, 0x9DDCAABD, 0xE5599087, 0x02E8),
   (0x4A12232D, 0x9FA94682, 0xC2A9EAB6, 0x8F57FA54, 0x02EC),
   (0xDC96ABF9, 0x47939822, 0xF3546564, 0xB32DF8E9, 0x02EF),
   (0x93BC56F7, 0x59787E2B, 0x70297EBD, 0xDFF97724, 0x02F2),
   (0x3C55B65A, 0x57EB4EDB, 0xC619EF36, 0x8BFBEA76, 0x02F6),
   (0x0B6B23F1, 0xEDE62292, 0x77A06B03, 0xAEFAE514, 0x02F9),
   (0x8E45ECED, 0xE95FAB36, 0x958885C4, 0xDAB99E59, 0x02FC),
   (0x18EBB414, 0x11DBCB02, 0xFD75539B, 0x88B402F7, 0x0300),
   (0x9F26A119, 0xD652BDC2, 0xFCD2A881, 0xAAE103B5, 0x0303),
   (0x46F0495F, 0x4BE76D33, 0x7C0752A2, 0xD59944A3, 0x0306),
   (0x0C562DDB, 0x6F70A440, 0x2D8493A5, 0x857FCAE6, 0x030A),
   (0x0F6BB952, 0xCB4CCD50, 0xB8E5B88E, 0xA6DFBD9F, 0x030D),
   (0x1346A7A7, 0x7E2000A4, 0xA71F26B2, 0xD097AD07, 0x0310),
   (0x8C0C28C8, 0x8ED40066, 0xC873782F, 0x825ECC24, 0x0314),
   (0x2F0F32FA, 0x72890080, 0xFA90563B, 0xA2F67F2D, 0x0317),
   (0x3AD2FFB9, 0x4F2B40A0, 0x79346BCA, 0xCBB41EF9, 0x031A),
   (0x4987BFA8, 0xE2F610C8, 0xD78186BC, 0xFEA126B7, 0x031D),
   (0x2DF4D7C9, 0x0DD9CA7D, 0xE6B0F436, 0x9F24B832, 0x0321),
   (0x79720DBB, 0x91503D1C, 0xA05D3143, 0xC6EDE63F, 0x0324),
   (0x97CE912A, 0x75A44C63, 0x88747D94, 0xF8A95FCF, 0x0327),
   (0x3EE11ABA, 0xC986AFBE, 0xB548CE7C, 0x9B69DBE1, 0x032B),
   (0xCE996168, 0xFBE85BAD, 0x229B021B, 0xC24452DA, 0x032E),
   (0x423FB9C3, 0xFAE27299, 0xAB41C2A2, 0xF2D56790, 0x0331),
   (0xC967D41A, 0xDCCD879F, 0x6B0919A5, 0x97C560BA, 0x0335),
   (0xBBC1C920, 0x5400E987, 0x05CB600F, 0xBDB6B8E9, 0x0338),
   (0xAAB23B68, 0x290123E9, 0x473E3813, 0xED246723, 0x033B),
   (0x0AAF6521, 0xF9A0B672, 0x0C86E30B, 0x9436C076, 0x033F),
   (0x8D5B3E69, 0xF808E40E, 0x8FA89BCE, 0xB9447093, 0x0342),
   (0x30B20E04, 0xB60B1D12, 0x7392C2C2, 0xE7958CB8, 0x0345),
   (0x5E6F48C2, 0xB1C6F22B, 0x483BB9B9, 0x90BD77F3, 0x0349),
   (0x360B1AF3, 0x1E38AEB6, 0x1A4AA828, 0xB4ECD5F0, 0x034C),
   (0xC38DE1B0, 0x25C6DA63, 0x20DD5232, 0xE2280B6C, 0x034F),
   (0x5A38AD0E, 0x579C487E, 0x948A535F, 0x8D590723, 0x0353),
   (0xF0C6D851, 0x2D835A9D, 0x79ACE837, 0xB0AF48EC, 0x0356),
   (0x6CF88E65, 0xF8E43145, 0x98182244, 0xDCDB1B27, 0x0359),
   (0x641B58FF, 0x1B8E9ECB, 0xBF0F156B, 0x8A08F0F8, 0x035D),
   (0x3D222F3F, 0xE272467E, 0xEED2DAC5, 0xAC8B2D36, 0x0360),
   (0xCC6ABB0F, 0x5B0ED81D, 0xAA879177, 0xD7ADF884, 0x0363),
   (0x9FC2B4E9, 0x98E94712, 0xEA94BAEA, 0x86CCBB52, 0x0367),
   (0x47B36224, 0x3F2398D7, 0xA539E9A5, 0xA87FEA27, 0x036A),
   (0x19A03AAD, 0x8EEC7F0D, 0x8E88640E, 0xD29FE4B1, 0x036D),
   (0x300424AC, 0x1953CF68, 0xF9153E89, 0x83A3EEEE, 0x0371),
   (0x3C052DD7, 0x5FA8C342, 0xB75A8E2B, 0xA48CEAAA, 0x0374),
   (0xCB06794D, 0x3792F412, 0x653131B6, 0xCDB02555, 0x0377),
   (0xBEE40BD0, 0xE2BBD88B, 0x5F3EBF11, 0x808E1755, 0x037B),
   (0xAE9D0EC4, 0x5B6ACEAE, 0xB70E6ED6, 0xA0B19D2A, 0x037E),
   (0x5A445275, 0xF245825A, 0x64D20A8B, 0xC8DE0475, 0x0381),
   (0xF0D56712, 0xEED6E2F0, 0xBE068D2E, 0xFB158592, 0x0384),
   (0x9685606B, 0x55464DD6, 0xB6C4183D, 0x9CED737B, 0x0388),
   (0x3C26B886, 0xAA97E14C, 0xA4751E4C, 0xC428D05A, 0x038B),
   (0x4B3066A8, 0xD53DD99F, 0x4D9265DF, 0xF5330471, 0x038E),
   (0x8EFE4029, 0xE546A803, 0xD07B7FAB, 0x993FE2C6, 0x0392),
   (0x72BDD033, 0xDE985204, 0x849A5F96, 0xBF8FDB78, 0x0395),
   (0x8F6D4440, 0x963E6685, 0xA5C0F77C, 0xEF73D256, 0x0398),
   (0x79A44AA8, 0xDDE70013, 0x27989AAD, 0x95A86376, 0x039C),
   (0x580D5D52, 0x5560C018, 0xB17EC159, 0xBB127C53, 0x039F),
   (0x6E10B4A6, 0xAAB8F01E, 0x9DDE71AF, 0xE9D71B68, 0x03A2),
   (0x04CA70E8, 0xCAB39613, 0x62AB070D, 0x92267121, 0x03A6),
   (0xC5FD0D22, 0x3D607B97, 0xBB55C8D1, 0xB6B00D69, 0x03A9),
   (0xB77C506A, 0x8CB89A7D, 0x2A2B3B05, 0xE45C10C4, 0x03AC),
   (0x92ADB242, 0x77F3608E, 0x9A5B04E3, 0x8EB98A7A, 0x03B0),
   (0x37591ED3, 0x55F038B2, 0x40F1C61C, 0xB267ED19, 0x03B3),
   (0xC52F6688, 0x6B6C46DE, 0x912E37A3, 0xDF01E85F, 0x03B6),
   (0x3B3DA015, 0x2323AC4B, 0xBABCE2C6, 0x8B61313B, 0x03BA),
   (0x0A0D081A, 0xABEC975E, 0xA96C1B77, 0xAE397D8A, 0x03BD),
   (0x8C904A21, 0x96E7BD35, 0x53C72255, 0xD9C7DCED, 0x03C0),
   (0x77DA2E54, 0x7E50D641, 0x545C7575, 0x881CEA14, 0x03C4),
   (0xD5D0B9E9, 0xDDE50BD1, 0x697392D2, 0xAA242499, 0x03C7),
   (0x4B44E864, 0x955E4EC6, 0xC3D07787, 0xD4AD2DBF, 0x03CA),
   (0xEF0B113E, 0xBD5AF13B, 0xDA624AB4, 0x84EC3C97, 0x03CE),
   (0xEACDD58E, 0xECB1AD8A, 0xD0FADD61, 0xA6274BBD, 0x03D1),
   (0xA5814AF2, 0x67DE18ED, 0x453994BA, 0xCFB11EAD, 0x03D4),
   (0x8770CED7, 0x80EACF94, 0x4B43FCF4, 0x81CEB32C, 0x03D8),
   (0xA94D028D, 0xA1258379, 0x5E14FC31, 0xA2425FF7, 0x03DB),
   (0x13A04330, 0x096EE458, 0x359A3B3E, 0xCAD2F7F5, 0x03DE),
   (0x188853FC, 0x8BCA9D6E, 0x8300CA0D, 0xFD87B5F2, 0x03E1),
   (0xCF55347D, 0x775EA264, 0x91E07E48, 0x9E74D1B7, 0x03E5),
   (0x032A819D, 0x95364AFE, 0x76589DDA, 0xC6120625, 0x03E8),
   (0x83F52204, 0x3A83DDBD, 0xD3EEC551, 0xF79687AE, 0x03EB),
   (0x72793542, 0xC4926A96, 0x44753B52, 0x9ABE14CD, 0x03EF),
   (0x0F178293, 0x75B7053C, 0x95928A27, 0xC16D9A00, 0x03F2),
   (0x12DD6338, 0x5324C68B, 0xBAF72CB1, 0xF1C90080, 0x03F5),
   (0xEBCA5E03, 0xD3F6FC16, 0x74DA7BEE, 0x971DA050, 0x03F9),
   (0xA6BCF584, 0x88F4BB1C, 0x92111AEA, 0xBCE50864, 0x03FC),
   (0xD06C32E5, 0x2B31E9E3, 0xB69561A5, 0xEC1E4A7D, 0x03FF),
   (0x62439FCF, 0x3AFF322E, 0x921D5D07, 0x9392EE8E, 0x0403),
   (0xFAD487C2, 0x09BEFEB9, 0x36A4B449, 0xB877AA32, 0x0406),
   (0x7989A9B3, 0x4C2EBE68, 0xC44DE15B, 0xE69594BE, 0x0409),
   (0x4BF60A10, 0x0F9D3701, 0x3AB0ACD9, 0x901D7CF7, 0x040D),
   (0x9EF38C94, 0x538484C1, 0x095CD80F, 0xB424DC35, 0x0410),
   (0x06B06FB9, 0x2865A5F2, 0x4BB40E13, 0xE12E1342, 0x0413),
   (0x442E45D3, 0xF93F87B7, 0x6F5088CB, 0x8CBCCC09, 0x0417),
   (0x1539D748, 0xF78F69A5, 0xCB24AAFE, 0xAFEBFF0B, 0x041A),
   (0x5A884D1B, 0xB573440E, 0xBDEDD5BE, 0xDBE6FECE, 0x041D),
   (0xF8953030, 0x31680A88, 0x36B4A597, 0x89705F41, 0x0421),
   (0x36BA7C3D, 0xFDC20D2B, 0x8461CEFC, 0xABCC7711, 0x0424),
   (0x04691B4C, 0x3D329076, 0xE57A42BC, 0xD6BF94D5, 0x0427),
   (0xC2C1B10F, 0xA63F9A49, 0xAF6C69B5, 0x8637BD05, 0x042B),
   (0x33721D53, 0x0FCF80DC, 0x1B478423, 0xA7C5AC47, 0x042E),
   (0x404EA4A8, 0xD3C36113, 0xE219652B, 0xD1B71758, 0x0431),
   (0x083126E9, 0x645A1CAC, 0x8D4FDF3B, 0x83126E97, 0x0435),
   (0x0A3D70A3, 0x3D70A3D7, 0x70A3D70A, 0xA3D70A3D, 0x0438),
   (0xCCCCCCCC, 0xCCCCCCCC, 0xCCCCCCCC, 0xCCCCCCCC, 0x043B),
   (0x00000000, 0x00000000, 0x00000000, 0x80000000, 0x043F),
   (0x00000000, 0x00000000, 0x00000000, 0xA0000000, 0x0442),
   (0x00000000, 0x00000000, 0x00000000, 0xC8000000, 0x0445),
   (0x00000000, 0x00000000, 0x00000000, 0xFA000000, 0x0448),
   (0x00000000, 0x00000000, 0x00000000, 0x9C400000, 0x044C),
   (0x00000000, 0x00000000, 0x00000000, 0xC3500000, 0x044F),
   (0x00000000, 0x00000000, 0x00000000, 0xF4240000, 0x0452),
   (0x00000000, 0x00000000, 0x00000000, 0x98968000, 0x0456),
   (0x00000000, 0x00000000, 0x00000000, 0xBEBC2000, 0x0459),
   (0x00000000, 0x00000000, 0x00000000, 0xEE6B2800, 0x045C),
   (0x00000000, 0x00000000, 0x00000000, 0x9502F900, 0x0460),
   (0x00000000, 0x00000000, 0x00000000, 0xBA43B740, 0x0463),
   (0x00000000, 0x00000000, 0x00000000, 0xE8D4A510, 0x0466),
   (0x00000000, 0x00000000, 0x00000000, 0x9184E72A, 0x046A),
   (0x00000000, 0x00000000, 0x80000000, 0xB5E620F4, 0x046D),
   (0x00000000, 0x00000000, 0xA0000000, 0xE35FA931, 0x0470),
   (0x00000000, 0x00000000, 0x04000000, 0x8E1BC9BF, 0x0474),
   (0x00000000, 0x00000000, 0xC5000000, 0xB1A2BC2E, 0x0477),
   (0x00000000, 0x00000000, 0x76400000, 0xDE0B6B3A, 0x047A),
   (0x00000000, 0x00000000, 0x89E80000, 0x8AC72304, 0x047E),
   (0x00000000, 0x00000000, 0xAC620000, 0xAD78EBC5, 0x0481),
   (0x00000000, 0x00000000, 0x177A8000, 0xD8D726B7, 0x0484),
   (0x00000000, 0x00000000, 0x6EAC9000, 0x87867832, 0x0488),
   (0x00000000, 0x00000000, 0x0A57B400, 0xA968163F, 0x048B),
   (0x00000000, 0x00000000, 0xCCEDA100, 0xD3C21BCE, 0x048E),
   (0x00000000, 0x00000000, 0x401484A0, 0x84595161, 0x0492),
   (0x00000000, 0x00000000, 0x9019A5C8, 0xA56FA5B9, 0x0495),
   (0x00000000, 0x00000000, 0xF4200F3A, 0xCECB8F27, 0x0498),
   (0x00000000, 0x40000000, 0xF8940984, 0x813F3978, 0x049C),
   (0x00000000, 0x50000000, 0x36B90BE5, 0xA18F07D7, 0x049F),
   (0x00000000, 0xA4000000, 0x04674EDE, 0xC9F2C9CD, 0x04A2),
   (0x00000000, 0x4D000000, 0x45812296, 0xFC6F7C40, 0x04A5),
   (0x00000000, 0xF0200000, 0x2B70B59D, 0x9DC5ADA8, 0x04A9),
   (0x00000000, 0x6C280000, 0x364CE305, 0xC5371912, 0x04AC),
   (0x00000000, 0xC7320000, 0xC3E01BC6, 0xF684DF56, 0x04AF),
   (0x00000000, 0x3C7F4000, 0x3A6C115C, 0x9A130B96, 0x04B3),
   (0x00000000, 0x4B9F1000, 0xC90715B3, 0xC097CE7B, 0x04B6),
   (0x00000000, 0x1E86D400, 0xBB48DB20, 0xF0BDC21A, 0x04B9),
   (0x00000000, 0x13144480, 0xB50D88F4, 0x96769950, 0x04BD),
   (0x00000000, 0x17D955A0, 0xE250EB31, 0xBC143FA4, 0x04C0),
   (0x00000000, 0x5DCFAB08, 0x1AE525FD, 0xEB194F8E, 0x04C3),
   (0x00000000, 0x5AA1CAE5, 0xD0CF37BE, 0x92EFD1B8, 0x04C7),
   (0x40000000, 0xF14A3D9E, 0x050305AD, 0xB7ABC627, 0x04CA),
   (0xD0000000, 0x6D9CCD05, 0xC643C719, 0xE596B7B0, 0x04CD),
   (0xA2000000, 0xE4820023, 0x7BEA5C6F, 0x8F7E32CE, 0x04D1),
   (0x8A800000, 0xDDA2802C, 0x1AE4F38B, 0xB35DBF82, 0x04D4),
   (0xAD200000, 0xD50B2037, 0xA19E306E, 0xE0352F62, 0x04D7),
   (0xCC340000, 0x4526F422, 0xA502DE45, 0x8C213D9D, 0x04DB),
   (0x7F410000, 0x9670B12B, 0x0E4395D6, 0xAF298D05, 0x04DE),
   (0x5F114000, 0x3C0CDD76, 0x51D47B4C, 0xDAF3F046, 0x04E1),
   (0xFB6AC800, 0xA5880A69, 0xF324CD0F, 0x88D8762B, 0x04E5),
   (0x7A457A00, 0x8EEA0D04, 0xEFEE0053, 0xAB0E93B6, 0x04E8),
   (0x98D6D880, 0x72A49045, 0xABE98068, 0xD5D238A4, 0x04EB),
   (0x7F864750, 0x47A6DA2B, 0xEB71F041, 0x85A36366, 0x04EF),
   (0x5F67D924, 0x999090B6, 0xA64E6C51, 0xA70C3C40, 0x04F2),
   (0xF741CF6D, 0xFFF4B4E3, 0xCFE20765, 0xD0CF4B50, 0x04F5),
   (0x7A8921A4, 0xBFF8F10E, 0x81ED449F, 0x82818F12, 0x04F9),
   (0x192B6A0D, 0xAFF72D52, 0x226895C7, 0xA321F2D7, 0x04FC),
   (0x9F764490, 0x9BF4F8A6, 0xEB02BB39, 0xCBEA6F8C, 0x04FF),
   (0x4753D5B4, 0x02F236D0, 0x25C36A08, 0xFEE50B70, 0x0502),
   (0x2C946590, 0x01D76242, 0x179A2245, 0x9F4F2726, 0x0506),
   (0xB7B97EF5, 0x424D3AD2, 0x9D80AAD6, 0xC722F0EF, 0x0509),
   (0x65A7DEB2, 0xD2E08987, 0x84E0D58B, 0xF8EBAD2B, 0x050C),
   (0x9F88EB2F, 0x63CC55F4, 0x330C8577, 0x9B934C3B, 0x0510),
   (0xC76B25FB, 0x3CBF6B71, 0xFFCFA6D5, 0xC2781F49, 0x0513),
   (0x3945EF7A, 0x8BEF464E, 0x7FC3908A, 0xF316271C, 0x0516),
   (0xE3CBB5AC, 0x97758BF0, 0xCFDA3A56, 0x97EDD871, 0x051A),
   (0x1CBEA317, 0x3D52EEED, 0x43D0C8EC, 0xBDE94E8E, 0x051D),
   (0x63EE4BDD, 0x4CA7AAA8, 0xD4C4FB27, 0xED63A231, 0x0520),
   (0x3E74EF6A, 0x8FE8CAA9, 0x24FB1CF8, 0x945E455F, 0x0524),
   (0x8E122B44, 0xB3E2FD53, 0xEE39E436, 0xB975D6B6, 0x0527),
   (0x7196B616, 0x60DBBCA8, 0xA9C85D44, 0xE7D34C64, 0x052A),
   (0x46FE31CD, 0xBC8955E9, 0xEA1D3A4A, 0x90E40FBE, 0x052E),
   (0x98BDBE41, 0x6BABAB63, 0xA4A488DD, 0xB51D13AE, 0x0531),
   (0x7EED2DD1, 0xC696963C, 0x4DCDAB14, 0xE264589A, 0x0534),
   (0xCF543CA2, 0xFC1E1DE5, 0x70A08AEC, 0x8D7EB760, 0x0538),
   (0x43294BCB, 0x3B25A55F, 0x8CC8ADA8, 0xB0DE6538, 0x053B),
   (0x13F39EBE, 0x49EF0EB7, 0xAFFAD912, 0xDD15FE86, 0x053E),
   (0x6C784337, 0x6E356932, 0x2DFCC7AB, 0x8A2DBF14, 0x0542),
   (0x07965404, 0x49C2C37F, 0x397BF996, 0xACB92ED9, 0x0545),
   (0xC97BE906, 0xDC33745E, 0x87DAF7FB, 0xD7E77A8F, 0x0548),
   (0x3DED71A3, 0x69A028BB, 0xB4E8DAFD, 0x86F0AC99, 0x054C),
   (0x0D68CE0C, 0xC40832EA, 0x222311BC, 0xA8ACD7C0, 0x054F),
   (0x90C30190, 0xF50A3FA4, 0x2AABD62B, 0xD2D80DB0, 0x0552),
   (0xDA79E0FA, 0x792667C6, 0x1AAB65DB, 0x83C7088E, 0x0556),
   (0x91185938, 0x577001B8, 0xA1563F52, 0xA4B8CAB1, 0x0559),
   (0xB55E6F86, 0xED4C0226, 0x09ABCF26, 0xCDE6FD5E, 0x055C),
   (0x315B05B4, 0x544F8158, 0xC60B6178, 0x80B05E5A, 0x0560),
   (0x3DB1C721, 0x696361AE, 0x778E39D6, 0xA0DC75F1, 0x0563),
   (0xCD1E38E9, 0x03BC3A19, 0xD571C84C, 0xC913936D, 0x0566),
   (0x4065C723, 0x04AB48A0, 0x4ACE3A5F, 0xFB587849, 0x0569),
   (0x283F9C76, 0x62EB0D64, 0xCEC0E47B, 0x9D174B2D, 0x056D),
   (0x324F8394, 0x3BA5D0BD, 0x42711D9A, 0xC45D1DF9, 0x0570),
   (0x7EE36479, 0xCA8F44EC, 0x930D6500, 0xF5746577, 0x0573),
   (0xCF4E1ECB, 0x7E998B13, 0xBBE85F20, 0x9968BF6A, 0x0577),
   (0xC321A67E, 0x9E3FEDD8, 0x6AE276E8, 0xBFC2EF45, 0x057A),
   (0xF3EA101E, 0xC5CFE94E, 0xC59B14A2, 0xEFB3AB16, 0x057D),
   (0x58724A12, 0xBBA1F1D1, 0x3B80ECE5, 0x95D04AEE, 0x0581),
   (0xAE8EDC97, 0x2A8A6E45, 0xCA61281F, 0xBB445DA9, 0x0584),
   (0x1A3293BD, 0xF52D09D7, 0x3CF97226, 0xEA157514, 0x0587),
   (0x705F9C56, 0x593C2626, 0xA61BE758, 0x924D692C, 0x058B),
   (0x0C77836C, 0x6F8B2FB0, 0xCFA2E12E, 0xB6E0C377, 0x058E),
   (0x0F956447, 0x0B6DFB9C, 0xC38B997A, 0xE498F455, 0x0591),
   (0x89BD5EAC, 0x4724BD41, 0x9A373FEC, 0x8EDF98B5, 0x0595),
   (0xEC2CB657, 0x58EDEC91, 0x00C50FE7, 0xB2977EE3, 0x0598),
   (0x6737E3ED, 0x2F2967B6, 0xC0F653E1, 0xDF3D5E9B, 0x059B),
   (0x0082EE74, 0xBD79E0D2, 0x5899F46C, 0x8B865B21, 0x059F),
   (0x80A3AA11, 0xECD85906, 0xAEC07187, 0xAE67F1E9, 0x05A2),
   (0x20CC9495, 0xE80E6F48, 0x1A708DE9, 0xDA01EE64, 0x05A5),
   (0x147FDCDD, 0x3109058D, 0x908658B2, 0x884134FE, 0x05A9),
   (0x599FD415, 0xBD4B46F0, 0x34A7EEDE, 0xAA51823E, 0x05AC),
   (0x7007C91A, 0x6C9E18AC, 0xC1D1EA96, 0xD4E5E2CD, 0x05AF),
   (0xC604DDB0, 0x03E2CF6B, 0x9923329E, 0x850FADC0, 0x05B3),
   (0xB786151C, 0x84DB8346, 0xBF6BFF45, 0xA6539930, 0x05B6),
   (0x65679A63, 0xE6126418, 0xEF46FF16, 0xCFE87F7C, 0x05B9),
   (0x3F60C07E, 0x4FCB7E8F, 0x158C5F6E, 0x81F14FAE, 0x05BD),
   (0x0F38F09D, 0xE3BE5E33, 0x9AEF7749, 0xA26DA399, 0x05C0),
   (0xD3072CC5, 0x5CADF5BF, 0x01AB551C, 0xCB090C80, 0x05C3),
   (0xC7C8F7F6, 0x73D9732F, 0x02162A63, 0xFDCB4FA0, 0x05C6),
   (0xDCDD9AFA, 0x2867E7FD, 0x014DDA7E, 0x9E9F11C4, 0x05CA),
   (0x541501B8, 0xB281E1FD, 0x01A1511D, 0xC646D635, 0x05CD),
   (0xA91A4226, 0x1F225A7C, 0x4209A565, 0xF7D88BC2, 0x05D0),
   (0xE9B06958, 0x3375788D, 0x6946075F, 0x9AE75759, 0x05D4),
   (0x641C83AE, 0x0052D6B1, 0xC3978937, 0xC1A12D2F, 0x05D7),
   (0xBD23A49A, 0xC0678C5D, 0xB47D6B84, 0xF209787B, 0x05DA),
   (0x963646E0, 0xF840B7BA, 0x50CE6332, 0x9745EB4D, 0x05DE),
   (0x3BC3D898, 0xB650E5A9, 0xA501FBFF, 0xBD176620, 0x05E1),
   (0x8AB4CEBE, 0xA3E51F13, 0xCE427AFF, 0xEC5D3FA8, 0x05E4),
   (0x36B10137, 0xC66F336C, 0x80E98CDF, 0x93BA47C9, 0x05E8),
   (0x445D4184, 0xB80B0047, 0xE123F017, 0xB8A8D9BB, 0x05EB),
   (0x157491E5, 0xA60DC059, 0xD96CEC1D, 0xE6D3102A, 0x05EE),
   (0xAD68DB2F, 0x87C89837, 0xC7E41392, 0x9043EA1A, 0x05F2),
   (0x98C311FB, 0x29BABE45, 0x79DD1877, 0xB454E4A1, 0x05F5),
   (0xFEF3D67A, 0xF4296DD6, 0xD8545E94, 0xE16A1DC9, 0x05F8),
   (0x5F58660C, 0x1899E4A6, 0x2734BB1D, 0x8CE2529E, 0x05FC),
   (0xF72E7F8F, 0x5EC05DCF, 0xB101E9E4, 0xB01AE745, 0x05FF),
   (0xF4FA1F73, 0x76707543, 0x1D42645D, 0xDC21A117, 0x0602),
   (0x791C53A8, 0x6A06494A, 0x72497EBA, 0x899504AE, 0x0606),
   (0x17636892, 0x0487DB9D, 0x0EDBDE69, 0xABFA45DA, 0x0609),
   (0x5D3C42B6, 0x45A9D284, 0x9292D603, 0xD6F8D750, 0x060C),
   (0xBA45A9B2, 0x0B8A2392, 0x5B9BC5C2, 0x865B8692, 0x0610),
   (0x68D7141E, 0x8E6CAC77, 0xF282B732, 0xA7F26836, 0x0613),
   (0x430CD926, 0x3207D795, 0xAF2364FF, 0xD1EF0244, 0x0616),
   (0x49E807B8, 0x7F44E6BD, 0xED761F1F, 0x8335616A, 0x061A),
   (0x9C6209A6, 0x5F16206C, 0xA8D3A6E7, 0xA402B9C5, 0x061D),
   (0xC37A8C0F, 0x36DBA887, 0x130890A1, 0xCD036837, 0x0620),
   (0xDA2C9789, 0xC2494954, 0x6BE55A64, 0x80222122, 0x0624),
   (0x10B7BD6C, 0xF2DB9BAA, 0x06DEB0FD, 0xA02AA96B, 0x0627),
   (0x94E5ACC7, 0x6F928294, 0xC8965D3D, 0xC83553C5, 0x062A),
   (0xBA1F17F9, 0xCB772339, 0x3ABBF48C, 0xFA42A8B7, 0x062D),
   (0x14536EFB, 0xFF2A7604, 0x84B578D7, 0x9C69A972, 0x0631),
   (0x19684ABA, 0xFEF51385, 0x25E2D70D, 0xC38413CF, 0x0634),
   (0x5FC25D69, 0x7EB25866, 0xEF5B8CD1, 0xF46518C2, 0x0637),
   (0xFBD97A61, 0xEF2F773F, 0xD5993802, 0x98BF2F79, 0x063B),
   (0xFACFD8FA, 0xAAFB550F, 0x4AFF8603, 0xBEEEFB58, 0x063E),
   (0xF983CF38, 0x95BA2A53, 0x5DBF6784, 0xEEAABA2E, 0x0641),
   (0x7BF26183, 0xDD945A74, 0xFA97A0B2, 0x952AB45C, 0x0645),
   (0x9AEEF9E4, 0x94F97111, 0x393D88DF, 0xBA756174, 0x0648),
   (0x01AAB85D, 0x7A37CD56, 0x478CEB17, 0xE912B9D1, 0x064B),
   (0xC10AB33A, 0xAC62E055, 0xCCB812EE, 0x91ABB422, 0x064F),
   (0x314D6009, 0x577B986B, 0x7FE617AA, 0xB616A12B, 0x0652),
   (0xFDA0B80B, 0xED5A7E85, 0x5FDF9D94, 0xE39C4976, 0x0655),
   (0xBE847307, 0x14588F13, 0xFBEBC27D, 0x8E41ADE9, 0x0659),
   (0xAE258FC8, 0x596EB2D8, 0x7AE6B31C, 0xB1D21964, 0x065C),
   (0xD9AEF3BB, 0x6FCA5F8E, 0x99A05FE3, 0xDE469FBD, 0x065F),
   (0x480D5854, 0x25DE7BB9, 0x80043BEE, 0x8AEC23D6, 0x0663),
   (0x9A10AE6A, 0xAF561AA7, 0x20054AE9, 0xADA72CCC, 0x0666),
   (0x8094DA04, 0x1B2BA151, 0x28069DA4, 0xD910F7FF, 0x0669),
   (0xF05D0842, 0x90FB44D2, 0x79042286, 0x87AA9AFF, 0x066D),
   (0xAC744A53, 0x353A1607, 0x57452B28, 0xA99541BF, 0x0670),
   (0x97915CE8, 0x42889B89, 0x2D1675F2, 0xD3FA922F, 0x0673),
   (0xFEBADA11, 0x69956135, 0x7C2E09B7, 0x847C9B5D, 0x0677),
   (0x7E699095, 0x43FAB983, 0xDB398C25, 0xA59BC234, 0x067A),
   (0x5E03F4BB, 0x94F967E4, 0x1207EF2E, 0xCF02B2C2, 0x067D),
   (0xBAC278F5, 0x1D1BE0EE, 0x4B44F57D, 0x8161AFB9, 0x0681),
   (0x69731732, 0x6462D92A, 0x9E1632DC, 0xA1BA1BA7, 0x0684),
   (0x03CFDCFE, 0x7D7B8F75, 0x859BBF93, 0xCA28A291, 0x0687),
   (0x44C3D43E, 0x5CDA7352, 0xE702AF78, 0xFCB2CB35, 0x068A),
   (0x6AFA64A7, 0x3A088813, 0xB061ADAB, 0x9DEFBF01, 0x068E),
   (0x45B8FDD0, 0x088AAA18, 0x1C7A1916, 0xC56BAEC2, 0x0691),
   (0x57273D45, 0x8AAD549E, 0xA3989F5B, 0xF6C69A72, 0x0694),
   (0xF678864B, 0x36AC54E2, 0xA63F6399, 0x9A3C2087, 0x0698),
   (0xB416A7DD, 0x84576A1B, 0x8FCF3C7F, 0xC0CB28A9, 0x069B),
   (0xA11C51D5, 0x656D44A2, 0xF3C30B9F, 0xF0FDF2D3, 0x069E),
   (0xA4B1B325, 0x9F644AE5, 0x7859E743, 0x969EB7C4, 0x06A2),
   (0x0DDE1FEE, 0x873D5D9F, 0x96706114, 0xBC4665B5, 0x06A5),
   (0xD155A7EA, 0xA90CB506, 0xFC0C7959, 0xEB57FF22, 0x06A8),
   (0x42D588F2, 0x09A7F124, 0xDD87CBD8, 0x9316FF75, 0x06AC),
   (0x538AEB2F, 0x0C11ED6D, 0x54E9BECE, 0xB7DCBF53, 0x06AF),
   (0xA86DA5FA, 0x8F1668C8, 0x2A242E81, 0xE5D3EF28, 0x06B2),
   (0x694487BC, 0xF96E017D, 0x1A569D10, 0x8FA47579, 0x06B6),
   (0xC395A9AC, 0x37C981DC, 0x60EC4455, 0xB38D92D7, 0x06B9),
   (0xF47B1417, 0x85BBE253, 0x3927556A, 0xE070F78D, 0x06BC),
   (0x78CCEC8E, 0x93956D74, 0x43B89562, 0x8C469AB8, 0x06C0),
   (0x970027B2, 0x387AC8D1, 0x54A6BABB, 0xAF584166, 0x06C3),
   (0xFCC0319E, 0x06997B05, 0xE9D0696A, 0xDB2E51BF, 0x06C6),
   (0xBDF81F03, 0x441FECE3, 0xF22241E2, 0x88FCF317, 0x06CA),
   (0xAD7626C3, 0xD527E81C, 0xEEAAD25A, 0xAB3C2FDD, 0x06CD),
   (0xD8D3B074, 0x8A71E223, 0x6A5586F1, 0xD60B3BD5, 0x06D0),
   (0x67844E49, 0xF6872D56, 0x62757456, 0x85C70565, 0x06D4),
   (0x016561DB, 0xB428F8AC, 0xBB12D16C, 0xA738C6BE, 0x06D7),
   (0x01BEBA52, 0xE13336D7, 0x69D785C7, 0xD106F86E, 0x06DA),
   (0x61173473, 0xECC00246, 0x0226B39C, 0x82A45B45, 0x06DE),
   (0xF95D0190, 0x27F002D7, 0x42B06084, 0xA34D7216, 0x06E1),
   (0xF7B441F4, 0x31EC038D, 0xD35C78A5, 0xCC20CE9B, 0x06E4),
   (0x75A15271, 0x7E670471, 0xC83396CE, 0xFF290242, 0x06E7),
   (0xE984D386, 0x0F0062C6, 0xBD203E41, 0x9F79A169, 0x06EB),
   (0xA3E60868, 0x52C07B78, 0x2C684DD1, 0xC75809C4, 0x06EE),
   (0xCCDF8A82, 0xA7709A56, 0x37826145, 0xF92E0C35, 0x06F1),
   (0x400BB691, 0x88A66076, 0x42B17CCB, 0x9BBCC7A1, 0x06F5),
   (0xD00EA435, 0x6ACFF893, 0x935DDBFE, 0xC2ABF989, 0x06F8),
   (0xC4124D43, 0x0583F6B8, 0xF83552FE, 0xF356F7EB, 0x06FB),
   (0x7A8B704A, 0xC3727A33, 0x7B2153DE, 0x98165AF3, 0x06FF),
   (0x592E4C5C, 0x744F18C0, 0x59E9A8D6, 0xBE1BF1B0, 0x0702),
   (0x6F79DF73, 0x1162DEF0, 0x7064130C, 0xEDA2EE1C, 0x0705),
   (0x45AC2BA8, 0x8ADDCB56, 0xC63E8BE7, 0x9485D4D1, 0x0709),
   (0xD7173692, 0x6D953E2B, 0x37CE2EE1, 0xB9A74A06, 0x070C),
   (0xCCDD0437, 0xC8FA8DB6, 0xC5C1BA99, 0xE8111C87, 0x070F),
   (0x400A22A2, 0x1D9C9892, 0xDB9914A0, 0x910AB1D4, 0x0713),
   (0xD00CAB4B, 0x2503BEB6, 0x127F59C8, 0xB54D5E4A, 0x0716),
   (0x840FD61D, 0x2E44AE64, 0x971F303A, 0xE2A0B5DC, 0x0719),
   (0xD289E5D2, 0x5CEAECFE, 0xDE737E24, 0x8DA471A9, 0x071D),
   (0x872C5F47, 0x7425A83E, 0x56105DAD, 0xB10D8E14, 0x0720),
   (0x28F77719, 0xD12F124E, 0x6B947518, 0xDD50F199, 0x0723),
   (0xD99AAA6F, 0x82BD6B70, 0xE33CC92F, 0x8A5296FF, 0x0727),
   (0x1001550B, 0x636CC64D, 0xDC0BFB7B, 0xACE73CBF, 0x072A),
   (0x5401AA4E, 0x3C47F7E0, 0xD30EFA5A, 0xD8210BEF, 0x072D),
   (0x34810A71, 0x65ACFAEC, 0xE3E95C78, 0x8714A775, 0x0731),
   (0x41A14D0D, 0x7F1839A7, 0x5CE3B396, 0xA8D9D153, 0x0734),
   (0x1209A050, 0x1EDE4811, 0x341CA07C, 0xD31045A8, 0x0737),
   (0xAB460432, 0x934AED0A, 0x2091E44D, 0x83EA2B89, 0x073B),
   (0x5617853F, 0xF81DA84D, 0x68B65D60, 0xA4E4B66B, 0x073E),
   (0xAB9D668E, 0x36251260, 0x42E3F4B9, 0xCE1DE406, 0x0741),
   (0x6B426019, 0xC1D72B7C, 0xE9CE78F3, 0x80D2AE83, 0x0745),
   (0x8612F81F, 0xB24CF65B, 0xE4421730, 0xA1075A24, 0x0748),
   (0x6797B627, 0xDEE033F2, 0x1D529CFC, 0xC94930AE, 0x074B),
   (0x017DA3B1, 0x169840EF, 0xA4A7443C, 0xFB9B7CD9, 0x074E),
   (0x60EE864E, 0x8E1F2895, 0x06E88AA5, 0x9D412E08, 0x0752),
   (0xB92A27E2, 0xF1A6F2BA, 0x08A2AD4E, 0xC491798A, 0x0755),
   (0x6774B1DB, 0xAE10AF69, 0x8ACB58A2, 0xF5B5D7EC, 0x0758),
   (0xE0A8EF29, 0xACCA6DA1, 0xD6BF1765, 0x9991A6F3, 0x075C),
   (0x58D32AF3, 0x17FD090A, 0xCC6EDD3F, 0xBFF610B0, 0x075F),
   (0xEF07F5B0, 0xDDFC4B4C, 0xFF8A948E, 0xEFF394DC, 0x0762),
   (0x1564F98E, 0x4ABDAF10, 0x1FB69CD9, 0x95F83D0A, 0x0766),
   (0x1ABE37F1, 0x9D6D1AD4, 0xA7A4440F, 0xBB764C4C, 0x0769),
   (0x216DC5ED, 0x84C86189, 0xD18D5513, 0xEA53DF5F, 0x076C),
   (0xB4E49BB4, 0x32FD3CF5, 0xE2F8552C, 0x92746B9B, 0x0770),
   (0x221DC2A1, 0x3FBC8C33, 0xDBB66A77, 0xB7118682, 0x0773),
   (0xEAA5334A, 0x0FABAF3F, 0x92A40515, 0xE4D5E823, 0x0776),
   (0xF2A7400E, 0x29CB4D87, 0x3BA6832D, 0x8F05B116, 0x077A),
   (0xEF511012, 0x743E20E9, 0xCA9023F8, 0xB2C71D5B, 0x077D),
   (0x6B255416, 0x914DA924, 0xBD342CF6, 0xDF78E4B2, 0x0780),
   (0xC2F7548E, 0x1AD089B6, 0xB6409C1A, 0x8BAB8EEF, 0x0784),
   (0x73B529B1, 0xA184AC24, 0xA3D0C320, 0xAE9672AB, 0x0787),
   (0x90A2741E, 0xC9E5D72D, 0x8CC4F3E8, 0xDA3C0F56, 0x078A),
   (0x7A658892, 0x7E2FA67C, 0x17FB1871, 0x88658996, 0x078E),
   (0x98FEEAB7, 0xDDBB901B, 0x9DF9DE8D, 0xAA7EEBFB, 0x0791),
   (0x7F3EA565, 0x552A7422, 0x85785631, 0xD51EA6FA, 0x0794),
   (0x8F87275F, 0xD53A8895, 0x936B35DE, 0x8533285C, 0x0798),
   (0xF368F137, 0x8A892ABA, 0xB8460356, 0xA67FF273, 0x079B),
   (0xB0432D85, 0x2D2B7569, 0xA657842C, 0xD01FEF10, 0x079E),
   (0x0E29FC73, 0x9C3B2962, 0x67F6B29B, 0x8213F56A, 0x07A2),
   (0x91B47B8F, 0x8349F3BA, 0x01F45F42, 0xA298F2C5, 0x07A5),
   (0x36219A73, 0x241C70A9, 0x42717713, 0xCB3F2F76, 0x07A8),
   (0x83AA0110, 0xED238CD3, 0xD30DD4D7, 0xFE0EFB53, 0x07AB),
   (0x324A40AA, 0xF4363804, 0x63E8A506, 0x9EC95D14, 0x07AF),
   (0x3EDCD0D5, 0xB143C605, 0x7CE2CE48, 0xC67BB459, 0x07B2),
   (0x8E94050A, 0xDD94B786, 0xDC1B81DA, 0xF81AA16F, 0x07B5),
   (0x191C8326, 0xCA7CF2B4, 0xE9913128, 0x9B10A4E5, 0x07B9),
   (0x1F63A3F0, 0xFD1C2F61, 0x63F57D72, 0xC1D4CE1F, 0x07BC),
   (0x673C8CEC, 0xBC633B39, 0x3CF2DCCF, 0xF24A01A7, 0x07BF),
   (0xE085D813, 0xD5BE0503, 0x8617CA01, 0x976E4108, 0x07C3),
   (0xD8A74E18, 0x4B2D8644, 0xA79DBC82, 0xBD49D14A, 0x07C6),
   (0x0ED1219E, 0xDDF8E7D6, 0x51852BA2, 0xEC9C459D, 0x07C9),
   (0xC942B503, 0xCABB90E5, 0x52F33B45, 0x93E1AB82, 0x07CD),
   (0x3B936243, 0x3D6A751F, 0xE7B00A17, 0xB8DA1662, 0x07D0),
   (0x0A783AD4, 0x0CC51267, 0xA19C0C9D, 0xE7109BFB, 0x07D3),
   (0x668B24C5, 0x27FB2B80, 0x450187E2, 0x906A617D, 0x07D7),
   (0x802DEDF6, 0xB1F9F660, 0x9641E9DA, 0xB484F9DC, 0x07DA),
   (0xA0396973, 0x5E7873F8, 0xBBD26451, 0xE1A63853, 0x07DD),
   (0x6423E1E8, 0xDB0B487B, 0x55637EB2, 0x8D07E334, 0x07E1),
   (0x3D2CDA62, 0x91CE1A9A, 0x6ABC5E5F, 0xB049DC01, 0x07E4),
   (0xCC7810FB, 0x7641A140, 0xC56B75F7, 0xDC5C5301, 0x07E7),
   (0x7FCB0A9D, 0xA9E904C8, 0x1B6329BA, 0x89B9B3E1, 0x07EB),
   (0x9FBDCD44, 0x546345FA, 0x623BF429, 0xAC2820D9, 0x07EE),
   (0x47AD4095, 0xA97C1779, 0xBACAF133, 0xD732290F, 0x07F1),
   (0xCCCC485D, 0x49ED8EAB, 0xD4BED6C0, 0x867F59A9, 0x07F5),
   (0xBFFF5A74, 0x5C68F256, 0x49EE8C70, 0xA81F3014, 0x07F8),
   (0x6FFF3111, 0x73832EEC, 0x5C6A2F8C, 0xD226FC19, 0x07FB),
   (0xC5FF7EAB, 0xC831FD53, 0xD9C25DB7, 0x83585D8F, 0x07FF),
   (0xB77F5E55, 0xBA3E7CA8, 0xD032F525, 0xA42E74F3, 0x0802),
   (0xE55F35EB, 0x28CE1BD2, 0xC43FB26F, 0xCD3A1230, 0x0805),
   (0xCF5B81B3, 0x7980D163, 0x7AA7CF85, 0x80444B5E, 0x0809),
   (0xC332621F, 0xD7E105BC, 0x1951C366, 0xA0555E36, 0x080C),
   (0xF3FEFAA7, 0x8DD9472B, 0x9FA63440, 0xC86AB5C3, 0x080F),
   (0xF0FEB951, 0xB14F98F6, 0x878FC150, 0xFA856334, 0x0812),
   (0x569F33D3, 0x6ED1BF9A, 0xD4B9D8D2, 0x9C935E00, 0x0816),
   (0xEC4700C8, 0x0A862F80, 0x09E84F07, 0xC3B83581, 0x0819),
   (0x2758C0FA, 0xCD27BB61, 0x4C6262C8, 0xF4A642E1, 0x081C),
   (0xB897789C, 0x8038D51C, 0xCFBD7DBD, 0x98E7E9CC, 0x0820),
   (0xE6BD56C3, 0xE0470A63, 0x03ACDD2C, 0xBF21E440, 0x0823),
   (0xE06CAC74, 0x1858CCFC, 0x04981478, 0xEEEA5D50, 0x0826),
   (0x0C43EBC8, 0x0F37801E, 0x02DF0CCB, 0x95527A52, 0x082A),
   (0x8F54E6BA, 0xD3056025, 0x8396CFFD, 0xBAA718E6, 0x082D),
   (0xF32A2069, 0x47C6B82E, 0x247C83FD, 0xE950DF20, 0x0830),
   (0x57FA5441, 0x4CDC331D, 0x16CDD27E, 0x91D28B74, 0x0834),
   (0xADF8E952, 0xE0133FE4, 0x1C81471D, 0xB6472E51, 0x0837),
   (0xD97723A6, 0x58180FDD, 0x63A198E5, 0xE3D8F9E5, 0x083A),
   (0xA7EA7648, 0x570F09EA, 0x5E44FF8F, 0x8E679C2F, 0x083E),
   (0x51E513DA, 0x2CD2CC65, 0x35D63F73, 0xB201833B, 0x0841),
   (0xA65E58D1, 0xF8077F7E, 0x034BCF4F, 0xDE81E40A, 0x0844)]"

definition powers_of_10 :: "nat list" where
  "powers_of_10 = concat (map (\<lambda>(w0, w1, w2, w3, e). [w0, w1, w2, w3, e]) powers_of_10_rows)"

subsection \<open>IEEE 754 binary64 arithmetic\<close>

text \<open>
  A \<^verbatim>\<open>double\<close> is its 64-bit pattern; \<^verbatim>\<open>ieee_754_bit_representation__to_f64\<close> and
  \<^verbatim>\<open>__from_f64\<close> are the identity.  The C operators on \<^verbatim>\<open>double\<close> that the fast path
  uses (conversion from an integer, \<^verbatim>\<open>*\<close>, \<^verbatim>\<open>/\<close>, \<^verbatim>\<open>>=\<close>, unary minus) are those of IEEE 754
  in the default rounding mode: the exact result, rounded to the nearest representable
  value, ties to the even mantissa.
\<close>

function bitlen :: "nat \<Rightarrow> nat" where
  "bitlen n = (if n = 0 then 0 else Suc (bitlen (n div 2)))"
  by pat_completeness auto
termination
  by (relation "measure id") auto

declare bitlen.simps [simp del]

definition f64_sign :: "nat \<Rightarrow> bool" where
  "f64_sign b = (drop_bit 63 b \<noteq> 0)"

definition f64_exp_field :: "nat \<Rightarrow> nat" where
  "f64_exp_field b = drop_bit 52 b AND 0x7FF"

definition f64_man_field :: "nat \<Rightarrow> nat" where
  "f64_man_field b = b AND 0x000FFFFFFFFFFFFF"

definition f64_is_nan :: "nat \<Rightarrow> bool" where
  "f64_is_nan b = (f64_exp_field b = 0x7FF \<and> f64_man_field b \<noteq> 0)"

definition f64_is_inf :: "nat \<Rightarrow> bool" where
  "f64_is_inf b = (f64_exp_field b = 0x7FF \<and> f64_man_field b = 0)"

definition f64_is_zero :: "nat \<Rightarrow> bool" where
  "f64_is_zero b = (f64_exp_field b = 0 \<and> f64_man_field b = 0)"

text \<open>A finite double is \<open>\<plusminus> f64_sig * 2 ^ f64_ex\<close>.\<close>

definition f64_sig :: "nat \<Rightarrow> nat" where
  "f64_sig b = (if f64_exp_field b = 0 then f64_man_field b
                else f64_man_field b + 0x0010000000000000)"

definition f64_ex :: "nat \<Rightarrow> int" where
  "f64_ex b = (if f64_exp_field b = 0 then - 1074 else int (f64_exp_field b) - 1075)"

definition f64_sign_bits :: "bool \<Rightarrow> nat" where
  "f64_sign_bits neg = (if neg then 0x8000000000000000 else 0)"

definition f64_nan :: nat where
  "f64_nan = 0x7FF8000000000000"

definition f64_inf :: nat where
  "f64_inf = 0x7FF0000000000000"

text \<open>The magnitude bits of the double nearest to the rational \<open>a / b\<close> (with \<open>b > 0\<close>).\<close>

definition f64_round_pos :: "nat \<Rightarrow> nat \<Rightarrow> nat" where
  "f64_round_pos a b =
     (if a = 0 then 0
      else
        (let e0 = int (bitlen a) - int (bitlen b);
             e = (if (if e0 \<ge> 0 then b * 2 ^ nat e0 \<le> a else b \<le> a * 2 ^ nat (- e0))
                  then e0 else e0 - 1);
             e1 = max e (- 1022);
             sh = 52 - e1;
             num = (if sh \<ge> 0 then a * 2 ^ nat sh else a);
             den = (if sh \<ge> 0 then b else b * 2 ^ nat (- sh));
             q = num div den;
             r = num mod den;
             q1 = (if 2 * r > den \<or> (2 * r = den \<and> odd q) then q + 1 else q);
             (q2, e2) = (if q1 \<ge> 2 ^ 53 then (q1 div 2, e1 + 1) else (q1, e1))
         in if e2 > 1023 then f64_inf
            else if q2 < 2 ^ 52 then q2
            else push_bit 52 (nat (e2 + 1023)) + (q2 - 2 ^ 52)))"

definition f64_of_u64 :: "nat \<Rightarrow> nat" where
  "f64_of_u64 n = f64_round_pos n 1"

definition f64_neg :: "nat \<Rightarrow> nat" where
  "f64_neg b = b XOR 0x8000000000000000"

definition f64_mul :: "nat \<Rightarrow> nat \<Rightarrow> nat" where
  "f64_mul x y =
     (let s = f64_sign_bits (f64_sign x \<noteq> f64_sign y)
      in if f64_is_nan x \<or> f64_is_nan y then f64_nan
         else if f64_is_inf x \<or> f64_is_inf y
           then (if f64_is_zero x \<or> f64_is_zero y then f64_nan else s + f64_inf)
         else
           (let e = f64_ex x + f64_ex y
            in s + f64_round_pos (f64_sig x * f64_sig y * 2 ^ nat e) (2 ^ nat (- e))))"

definition f64_div :: "nat \<Rightarrow> nat \<Rightarrow> nat" where
  "f64_div x y =
     (let s = f64_sign_bits (f64_sign x \<noteq> f64_sign y)
      in if f64_is_nan x \<or> f64_is_nan y then f64_nan
         else if f64_is_inf x then (if f64_is_inf y then f64_nan else s + f64_inf)
         else if f64_is_inf y then s
         else if f64_is_zero y then (if f64_is_zero x then f64_nan else s + f64_inf)
         else
           (let e = f64_ex x - f64_ex y
            in s + f64_round_pos (f64_sig x * 2 ^ nat e) (f64_sig y * 2 ^ nat (- e))))"

definition f64_key :: "nat \<Rightarrow> int" where
  "f64_key b = (if f64_sign b then - int (b mod 2 ^ 63) else int b)"

definition f64_ge :: "nat \<Rightarrow> nat \<Rightarrow> bool" where
  "f64_ge x y = (\<not> f64_is_nan x \<and> \<not> f64_is_nan y \<and> f64_key x \<ge> f64_key y)"

text \<open>
  The table \<^verbatim>\<open>f64_powers_of_10\<close> of the literals \<^verbatim>\<open>1e0\<close> to \<^verbatim>\<open>1e22\<close>, each the double
  nearest to the power of ten it names.
\<close>

definition f64_powers_of_10 :: "nat \<Rightarrow> nat" where
  "f64_powers_of_10 k = f64_round_pos (10 ^ k) 1"

subsection \<open>The MPB operations\<close>

record mpb =
  mantissa :: nat
  exp2 :: int

text \<open>
  Modelled from the spec: \<^verbatim>\<open>wuffs_base__multiply_u64\<close> is declared outside this file; it
  computes the full 64 by 64 to 128 bit product, returned as its high and low halves.
\<close>

definition multiply_u64 :: "nat \<Rightarrow> nat \<Rightarrow> nat \<times> nat" where
  "multiply_u64 x y = ((u64 x * u64 y) div 2 ^ 64, (u64 x * u64 y) mod 2 ^ 64)"

text \<open>
  Modelled from the spec: \<^verbatim>\<open>wuffs_base__count_leading_zeroes_u64\<close> is declared outside this
  file; normalize shifts the mantissa by it so that the high bit is set.
\<close>

definition count_leading_zeroes_u64 :: "nat \<Rightarrow> nat" where
  "count_leading_zeroes_u64 x = 64 - bitlen (u64 x)"

definition normalize :: "mpb \<Rightarrow> mpb \<times> nat" where
  "normalize m =
     (if mantissa m = 0 then (m, 0)
      else
        (let shift = count_leading_zeroes_u64 (mantissa m)
         in (m\<lparr>mantissa := u64 (push_bit shift (mantissa m)), exp2 := exp2 m - int shift\<rparr>,
             shift)))"

text \<open>
  \<^verbatim>\<open>mul_pow_10\<close> takes a pointer \<open>p\<close> to a row of five \<^verbatim>\<open>uint32_t\<close>; here \<open>p i\<close> is \<^verbatim>\<open>p[i]\<close>.
  The exponent is an \<^verbatim>\<open>int32_t\<close> sum, whose overflow C leaves undefined; the model adds
  integers.
\<close>

definition mul_pow_10_hi :: "mpb \<Rightarrow> (nat \<Rightarrow> nat) \<Rightarrow> nat" where
  "mul_pow_10_hi m p = fst (multiply_u64 (mantissa m) (u32 (p 2) OR u64 (push_bit 32 (u32 (p 3)))))"

definition mul_pow_10_lo :: "mpb \<Rightarrow> (nat \<Rightarrow> nat) \<Rightarrow> nat" where
  "mul_pow_10_lo m p = snd (multiply_u64 (mantissa m) (u32 (p 2) OR u64 (push_bit 32 (u32 (p 3)))))"

definition mul_pow_10 :: "mpb \<Rightarrow> (nat \<Rightarrow> nat) \<Rightarrow> mpb" where
  "mul_pow_10 m p =
     (let p_exp2 = s32 (p 4)
      in m\<lparr>mantissa := u64 (mul_pow_10_hi m p + drop_bit 63 (mul_pow_10_lo m p)),
           exp2 := exp2 m + p_exp2 + 128 - 1214\<rparr>)"

definition powers_of_10_row :: "nat \<Rightarrow> nat \<Rightarrow> nat" where
  "powers_of_10_row i j = powers_of_10 ! (5 * i + j)"

definition as_f64 :: "mpb \<Rightarrow> bool \<Rightarrow> nat" where
  "as_f64 m neg =
     (let mantissa64 = mantissa m;
          e = exp2 m + 63;
          (mantissa64a, ea) =
            (if - 1022 > e
             then (drop_bit (nat (- 1022 - e)) mantissa64, e + (- 1022 - e))
             else (mantissa64, e));
          mantissa53 = drop_bit 11 mantissa64a;
          (mantissa53a, eb) =
            (if (mantissa64a AND 1024) \<noteq> 0
             then (if drop_bit 53 (mantissa53 + 1) \<noteq> 0
                   then (drop_bit 1 (mantissa53 + 1), ea + 1)
                   else (mantissa53 + 1, ea))
             else (mantissa53, ea));
          (mantissa53b, ec) =
            (if eb \<ge> 1024 then (0, 1024)
             else if drop_bit 52 mantissa53a = 0 then (mantissa53a, - 1023)
             else (mantissa53a, eb));
          exp2_bits = nat ((ec + 1023) AND 0x07FF)
      in (mantissa53b AND 0x000FFFFFFFFFFFFF) OR push_bit 52 exp2_bits OR f64_sign_bits neg)"

section \<open>Parsing\<close>

text \<open>
  A \<^verbatim>\<open>wuffs_base__slice_u8\<close> is a list of bytes (numbers below 256); the pointer pair
  \<^verbatim>\<open>p\<close>, \<^verbatim>\<open>q\<close> of the parsers is the part of the list not yet read.  A
  \<^verbatim>\<open>wuffs_base__status\<close> is \<open>None\<close> for the null \<^verbatim>\<open>repr\<close> and otherwise names the message.
\<close>

datatype status = bad_receiver | bad_argument | mpb_parse_number_f64_failed

definition ch :: "char \<Rightarrow> nat" where
  "ch c = of_char c"

definition bytes_of :: "string \<Rightarrow> nat list" where
  "bytes_of s = map ch s"

fun skip_underscores :: "nat list \<Rightarrow> nat list" where
  "skip_underscores [] = []"
| "skip_underscores (c # cs) = (if c = ch CHR ''_'' then skip_underscores cs else c # cs)"

subsection \<open>high\_prec\_dec\_\_parse\<close>

text \<open>
  The digit loop.  Its state is the HPD (digits and \<open>truncated\<close> are written as the loop
  goes) and the locals \<^verbatim>\<open>nd\<close>, \<^verbatim>\<open>dp\<close>, \<^verbatim>\<open>saw_digits\<close>, \<^verbatim>\<open>saw_non_zero_digits\<close> and
  \<^verbatim>\<open>saw_dot\<close>; it returns a status (an early return), the state and the unread bytes.
\<close>

type_synonym parse_locals = "hpd \<times> nat \<times> int \<times> bool \<times> bool \<times> bool"

fun parse_digits :: "nat list \<Rightarrow> parse_locals \<Rightarrow> status option \<times> parse_locals \<times> nat list" where
  "parse_digits [] st = (None, st, [])"
| "parse_digits (c # cs) (h, nd, dp, saw_digits, saw_non_zero_digits, saw_dot) =
     (if c = ch CHR ''_'' then
        parse_digits cs (h, nd, dp, saw_digits, saw_non_zero_digits, saw_dot)
      else if c = ch CHR ''.'' \<or> c = ch CHR '','' then
        (if saw_dot
         then (Some bad_argument, (h, nd, dp, saw_digits, saw_non_zero_digits, saw_dot), c # cs)
         else parse_digits cs (h, nd, int nd, saw_digits, saw_non_zero_digits, True))
      else if ch CHR ''0'' = c then
        (if \<not> saw_dot \<and> \<not> saw_non_zero_digits \<and> saw_digits
         then (Some bad_argument, (h, nd, dp, saw_digits, saw_non_zero_digits, saw_dot), c # cs)
         else if nd = 0
         then parse_digits cs (h, nd, dp - 1, True, saw_non_zero_digits, saw_dot)
         else if nd < DIGITS_PRECISION
         then parse_digits cs
                (h\<lparr>digits := (digits h)(nd := 0)\<rparr>, nd + 1, dp, True, saw_non_zero_digits, saw_dot)
         else parse_digits cs (h, nd, dp, True, saw_non_zero_digits, saw_dot))
      else if ch CHR ''0'' < c \<and> c \<le> ch CHR ''9'' then
        (if \<not> saw_dot \<and> \<not> saw_non_zero_digits \<and> saw_digits
         then (Some bad_argument, (h, nd, dp, saw_digits, saw_non_zero_digits, saw_dot), c # cs)
         else if nd < DIGITS_PRECISION
         then parse_digits cs
                (h\<lparr>digits := (digits h)(nd := c - ch CHR ''0'')\<rparr>, nd + 1, dp, True, True, saw_dot)
         else parse_digits cs (h\<lparr>truncated := True\<rparr>, nd, dp, True, True, saw_dot))
      else (None, (h, nd, dp, saw_digits, saw_non_zero_digits, saw_dot), c # cs))"

definition exp_large :: int where
  "exp_large = DECIMAL_POINT_RANGE + int DIGITS_PRECISION"

fun parse_exp_digits :: "nat list \<Rightarrow> int \<Rightarrow> bool \<Rightarrow> int \<times> bool \<times> nat list" where
  "parse_exp_digits [] e saw_exp_digits = (e, saw_exp_digits, [])"
| "parse_exp_digits (c # cs) e saw_exp_digits =
     (if c = ch CHR ''_'' then parse_exp_digits cs e saw_exp_digits
      else if ch CHR ''0'' \<le> c \<and> c \<le> ch CHR ''9'' then
        parse_exp_digits cs (if e < exp_large then 10 * e + int (c - ch CHR ''0'') else e) True
      else (e, saw_exp_digits, c # cs))"

text \<open>The optional sign, followed by more underscores when a sign was there.\<close>

definition parse_sign :: "nat list \<Rightarrow> bool \<times> nat list" where
  "parse_sign p =
     (case p of
        [] \<Rightarrow> (False, p)
      | c # cs \<Rightarrow>
          if c = ch CHR ''+'' then (False, skip_underscores cs)
          else if c = ch CHR ''-'' then (True, skip_underscores cs)
          else (False, p))"

text \<open>
  The exponent part: the decimal point \<open>dp\<close> moved by the exponent, and the unread bytes,
  or the status of an early return.
\<close>

definition parse_exponent :: "nat list \<Rightarrow> int \<Rightarrow> status + (int \<times> nat list)" where
  "parse_exponent p dp =
     (case p of
        [] \<Rightarrow> Inr (dp, p)
      | c # cs \<Rightarrow>
          if c = ch CHR ''E'' \<or> c = ch CHR ''e'' then
            (case skip_underscores cs of
               [] \<Rightarrow> Inl bad_argument
             | c1 # cs1 \<Rightarrow>
                 (let (exp_sign, p1) =
                        (if c1 = ch CHR ''+'' then (1, cs1)
                         else if c1 = ch CHR ''-'' then (- 1, cs1)
                         else (1, c1 # cs1));
                      (e, saw_exp_digits, p2) = parse_exp_digits p1 0 False
                  in if \<not> saw_exp_digits then Inl bad_argument
                     else Inr (dp + exp_sign * e, p2)))
          else Inr (dp, p))"

text \<open>
  \<^verbatim>\<open>high_prec_dec__parse\<close>.  The pointer \<open>h\<close> may be null (\<open>None\<close>).  The HPD is written
  in place, so the state it is left in is returned on failure too.
\<close>

definition high_prec_dec_parse :: "hpd option \<Rightarrow> nat list \<Rightarrow> status option \<times> hpd option" where
  "high_prec_dec_parse hp s =
     (case hp of
        None \<Rightarrow> (Some bad_receiver, None)
      | Some h0 \<Rightarrow>
          (let h = h0\<lparr>num_digits := 0, decimal_point := 0, negative := False, truncated := False\<rparr>;
               p = skip_underscores s
           in if p = [] then (Some bad_argument, Some h)
              else
                (let (neg, p1) = parse_sign p;
                     h1 = (if neg then h\<lparr>negative := True\<rparr> else h);
                     (st, (h2, nd, dp, saw_digits, saw_non_zero_digits, saw_dot), p2) =
                       parse_digits p1 (h1, 0, 0, False, False, False)
                 in if st \<noteq> None then (st, Some h2)
                    else if \<not> saw_digits then (Some bad_argument, Some h2)
                    else
                      (case parse_exponent p2 (if saw_dot then dp else int nd) of
                         Inl e \<Rightarrow> (Some e, Some h2)
                       | Inr (dp1, p3) \<Rightarrow>
                           if p3 \<noteq> [] then (Some bad_argument, Some h2)
                           else
                             (let dp2 =
                                    (if nd = 0 then 0
                                     else if dp1 < - DECIMAL_POINT_RANGE
                                       then - DECIMAL_POINT_RANGE - 1
                                     else if dp1 > DECIMAL_POINT_RANGE
                                       then DECIMAL_POINT_RANGE + 1
                                     else dp1)
                              in (None,
                                  Some (trim (h2\<lparr>num_digits := nd, decimal_point := dp2\<rparr>))))))))"

subsection \<open>The medium precision fast path\<close>

function mpb_mantissa_loop :: "hpd \<Rightarrow> nat \<Rightarrow> nat \<Rightarrow> nat \<Rightarrow> nat" where
  "mpb_mantissa_loop h i_end i man =
     (if i < i_end then mpb_mantissa_loop h i_end (i + 1) (u64 (10 * man + digits h i)) else man)"
  by pat_completeness auto
termination
  by (relation "measure (\<lambda>(h, i_end, i, man). i_end - i)") auto

declare mpb_mantissa_loop.simps [simp del]

text \<open>The cast \<^verbatim>\<open>(int64_t)\<close> of a \<^verbatim>\<open>uint64_t\<close>.\<close>

definition s64 :: "nat \<Rightarrow> int" where
  "s64 x = (if x mod 2 ^ 64 < 2 ^ 63 then int (x mod 2 ^ 64) else int (x mod 2 ^ 64) - 2 ^ 64)"

text \<open>
  The inner \<^verbatim>\<open>do ... while (0)\<close> that tries exact \<^verbatim>\<open>double\<close> arithmetic: \<open>Some\<close> is a
  returned value, \<open>None\<close> a \<^verbatim>\<open>break\<close>.
\<close>

definition mpb_exact :: "hpd \<Rightarrow> bool \<Rightarrow> nat \<Rightarrow> int \<Rightarrow> nat option" where
  "mpb_exact h skip_fast_path_for_tests man exp10 =
     (if skip_fast_path_for_tests \<or> drop_bit 52 man \<noteq> 0 then None
      else
        (let d = f64_of_u64 man;
             ret = (\<lambda>d. Some (if negative h then f64_neg d else d))
         in if exp10 = 0 then ret d
            else if exp10 > 0 then
              (if exp10 > 22 then
                 (if exp10 > 15 + 22 then None
                  else
                    (let d1 = f64_mul d (f64_powers_of_10 (nat (exp10 - 22)))
                     in if f64_ge d1 (f64_round_pos (10 ^ 15) 1) then None
                        else ret (f64_mul d1 (f64_powers_of_10 22))))
               else ret (f64_mul d (f64_powers_of_10 (nat exp10))))
            else
              (if exp10 < - 22 then None
               else ret (f64_div d (f64_powers_of_10 (nat (- exp10)))))))"

text \<open>
  \<^verbatim>\<open>medium_prec_bin__parse_number_f64\<close>.  The shifts by \<^verbatim>\<open>surplus_bits\<close> are written as
  multiplications modulo \<open>2 ^ 64\<close>; for 64 bits or more (values below the least
  subnormal) C leaves them undefined.  The final comparison is in signed 64-bit
  arithmetic, modelled by integers.
\<close>

definition mpb_parse_number_f64 :: "hpd \<Rightarrow> bool \<Rightarrow> status option \<times> nat" where
  "mpb_parse_number_f64 h skip_fast_path_for_tests =
     (let fail = (Some mpb_parse_number_f64_failed, 0);
          (i_end, error0) = (if num_digits h > 19 then (19, 1) else (num_digits h, 0));
          man = mpb_mantissa_loop h i_end 0 0;
          exp10 = decimal_point h - int i_end
      in if exp10 < - 326 \<or> 310 < exp10 then fail
         else
           (case mpb_exact h skip_fast_path_for_tests man exp10 of
              Some v \<Rightarrow> (None, v)
            | None \<Rightarrow>
                (let (m1, shift1) = normalize \<lparr>mantissa = man, exp2 = 0\<rparr>;
                     error1 = u64 (push_bit shift1 error0);
                     m2 = mul_pow_10 m1 (powers_of_10_row (nat (exp10 + 326)));
                     error2 = u64 (error1 + 2);
                     (m3, shift3) = normalize m2;
                     error3 = u64 (push_bit shift3 error2);
                     subnormal_exp2 = - 1023 - 63;
                     surplus_bits =
                       (if subnormal_exp2 \<ge> exp2 m3
                        then u32 (11 + (1 + u32 (nat (subnormal_exp2 - exp2 m3))))
                        else 11);
                     surplus_mask = u64 (u64 (push_bit surplus_bits 1) + 2 ^ 64 - 1);
                     surplus = mantissa m3 AND surplus_mask;
                     halfway = u64 (push_bit (surplus_bits - 1) 1);
                     i_surplus = s64 surplus;
                     i_halfway = s64 halfway;
                     i_error = s64 error3
                 in if i_surplus > i_halfway - i_error \<and> i_surplus < i_halfway + i_error
                    then fail
                    else (None, as_f64 m3 (negative h)))))"

subsection \<open>parse\_number\_f64\_special\<close>

definition is_char :: "nat \<Rightarrow> char \<Rightarrow> char \<Rightarrow> bool" where
  "is_char c upper lower = (c = ch upper \<or> c = ch lower)"

text \<open>
  The \<^verbatim>\<open>switch\<close> on the first letter: \<open>Some (nan, rest)\<close> when it ends in a \<^verbatim>\<open>break\<close>,
  \<open>None\<close> for \<^verbatim>\<open>goto fallback\<close>.
\<close>

definition parse_special_token :: "nat list \<Rightarrow> (bool \<times> nat list) option" where
  "parse_special_token p =
     (if is_char (hd p) CHR ''I'' CHR ''i'' then
        (if length p < 3 \<or> \<not> is_char (p ! 1) CHR ''N'' CHR ''n''
            \<or> \<not> is_char (p ! 2) CHR ''F'' CHR ''f''
         then None
         else
           (let p1 = drop 3 p
            in if p1 = [] \<or> hd p1 = ch CHR ''_'' then Some (False, p1)
               else if length p1 < 5 \<or> \<not> is_char (p1 ! 0) CHR ''I'' CHR ''i''
                       \<or> \<not> is_char (p1 ! 1) CHR ''N'' CHR ''n''
                       \<or> \<not> is_char (p1 ! 2) CHR ''I'' CHR ''i''
                       \<or> \<not> is_char (p1 ! 3) CHR ''T'' CHR ''t''
                       \<or> \<not> is_char (p1 ! 4) CHR ''Y'' CHR ''y''
               then None
               else
                 (let p2 = drop 5 p1
                  in if p2 = [] \<or> hd p2 = ch CHR ''_'' then Some (False, p2) else None)))
      else if is_char (hd p) CHR ''N'' CHR ''n'' then
        (if length p < 3 \<or> \<not> is_char (p ! 1) CHR ''A'' CHR ''a''
            \<or> \<not> is_char (p ! 2) CHR ''N'' CHR ''n''
         then None
         else
           (let p1 = drop 3 p
            in if p1 = [] \<or> hd p1 = ch CHR ''_'' then Some (True, p1) else None))
      else None)"

definition parse_number_f64_special :: "nat list \<Rightarrow> status option \<Rightarrow> status option \<times> nat" where
  "parse_number_f64_special s fallback_status_repr =
     (let fallback = (fallback_status_repr, 0);
          p = skip_underscores s
      in if p = [] then fallback
         else
           (let (neg, p1) = parse_sign p
            in if p1 = [] then fallback
               else
                 (case parse_special_token p1 of
                    None \<Rightarrow> fallback
                  | Some (nan, p2) \<Rightarrow>
                      if skip_underscores p2 \<noteq> [] then fallback
                      else (None,
                            (if nan then 0x7FFFFFFFFFFFFFFF else 0x7FF0000000000000)
                            OR (if neg then 0x8000000000000000 else 0)))))"

subsection \<open>parse\_number\_f64\<close>

definition powers :: "nat list" where
  "powers = [0, 3, 6, 9, 13, 16, 19, 23, 26, 29, 33, 36, 39, 43, 46, 49, 53, 56, 59]"

definition num_powers :: nat where
  "num_powers = 19"

definition f64_bias :: int where
  "f64_bias = - 1023"

text \<open>
  The labels \<^verbatim>\<open>zero\<close> and \<^verbatim>\<open>infinity\<close> that the slow path jumps to, and the state with
  which a loop is left otherwise.
\<close>

datatype 'a jump = Goto_zero hpd | Goto_infinity hpd | Next 'a

text \<open>
  The two scaling loops stop only if the shifts make progress, which depends on the
  digits; on an arbitrary HPD (an empty one, say) they run forever.  They are partial
  functions: \<open>None\<close> stands for a loop that does not end.
\<close>

partial_function (option) scale_right :: "hpd \<Rightarrow> int \<Rightarrow> (hpd \<times> int) jump option" where
  "scale_right h e =
     (if decimal_point h > 0 then
        (let n = nat (decimal_point h);
             shift = (if n < num_powers then powers ! n else SHIFT_MAX_INCL);
             h1 = small_rshift h shift
         in if decimal_point h1 < - DECIMAL_POINT_RANGE then Some (Goto_zero h1)
            else scale_right h1 (e + int shift))
      else Some (Next (h, e)))"

partial_function (option) scale_left :: "hpd \<Rightarrow> int \<Rightarrow> (hpd \<times> int) jump option" where
  "scale_left h e =
     (if decimal_point h \<le> 0 then
        (if decimal_point h = 0 \<and> digits h 0 \<ge> 5 then Some (Next (h, e))
         else
           (let shift =
                  (if decimal_point h = 0 then (if digits h 0 \<le> 2 then 2 else 1)
                   else
                     (let n = nat (- decimal_point h)
                      in if n < num_powers then powers ! n else SHIFT_MAX_INCL));
                h1 = small_lshift h shift
            in if decimal_point h1 > DECIMAL_POINT_RANGE then Some (Goto_infinity h1)
               else scale_left h1 (e - int shift)))
      else Some (Next (h, e)))"

function scale_subnormal :: "hpd \<Rightarrow> int \<Rightarrow> hpd \<times> int" where
  "scale_subnormal h e =
     (if f64_bias + 1 > e then
        (let n0 = nat ((f64_bias + 1) - e);
             n = (if n0 > SHIFT_MAX_INCL then SHIFT_MAX_INCL else n0)
         in scale_subnormal (small_rshift h n) (e + int n))
      else (h, e))"
  by pat_completeness auto
termination
  by (relation "measure (\<lambda>(h, e). nat (f64_bias + 1 - e))")
     (auto simp: f64_bias_def SHIFT_MAX_INCL_def)

declare scale_subnormal.simps [simp del]

definition parse_zero :: "hpd \<Rightarrow> status option \<times> nat" where
  "parse_zero h = (None, if negative h then 0x8000000000000000 else 0)"

definition parse_infinity :: "hpd \<Rightarrow> status option \<times> nat" where
  "parse_infinity h = (None, if negative h then 0xFFF0000000000000 else 0x7FF0000000000000)"

text \<open>The slow path from the overflow check after the three loops to the packed bits.\<close>

definition parse_finish :: "hpd \<Rightarrow> int \<Rightarrow> status option \<times> nat" where
  "parse_finish h e =
     (if e - f64_bias \<ge> 0x07FF then parse_infinity h
      else
        (let h1 = small_lshift h 53;
             man2 = rounded_integer h1
         in if drop_bit 53 man2 \<noteq> 0 \<and> (e + 1) - f64_bias \<ge> 0x07FF then parse_infinity h1
            else
              (let (man2a, e1) =
                     (if drop_bit 53 man2 \<noteq> 0 then (drop_bit 1 man2, e + 1) else (man2, e));
                   e2 = (if drop_bit 52 man2a = 0 then f64_bias else e1);
                   exp2_bits = nat ((e2 - f64_bias) AND 0x07FF)
               in (None,
                   (man2a AND 0x000FFFFFFFFFFFFF) OR push_bit 52 exp2_bits
                   OR (if negative h1 then 0x8000000000000000 else 0)))))"

text \<open>
  \<^verbatim>\<open>parse_number_f64\<close>.  The HPD \<open>h0\<close> is the uninitialised stack object the function
  starts from.  The result is \<open>None\<close> if a scaling loop does not end.
\<close>

definition parse_number_f64 :: "hpd \<Rightarrow> nat list \<Rightarrow> (status option \<times> nat) option" where
  "parse_number_f64 h0 s =
     (case high_prec_dec_parse (Some h0) s of
        (Some st, _) \<Rightarrow> Some (parse_number_f64_special s (Some st))
      | (None, None) \<Rightarrow> Some (parse_number_f64_special s None)
      | (None, Some h) \<Rightarrow>
          if num_digits h = 0 \<or> decimal_point h < - 326 then Some (parse_zero h)
          else if decimal_point h > 310 then Some (parse_infinity h)
          else
            (case mpb_parse_number_f64 h False of
               (None, v) \<Rightarrow> Some (None, v)
             | (Some _, _) \<Rightarrow>
                 (case scale_right h 0 of
                    None \<Rightarrow> None
                  | Some (Goto_zero h1) \<Rightarrow> Some (parse_zero h1)
                  | Some (Goto_infinity h1) \<Rightarrow> Some (parse_infinity h1)
                  | Some (Next (h1, e1)) \<Rightarrow>
                      (case scale_left h1 e1 of
                         None \<Rightarrow> None
                       | Some (Goto_zero h2) \<Rightarrow> Some (parse_zero h2)
                       | Some (Goto_infinity h2) \<Rightarrow> Some (parse_infinity h2)
                       | Some (Next (h2, e2)) \<Rightarrow>
                           (let (h3, e3) = scale_subnormal h2 (e2 - 1)
                            in Some (parse_finish h3 e3))))))"

section \<open>Rendering\<close>

text \<open>
  The option bits \<^verbatim>\<open>WUFFS_BASE__RENDER_NUMBER_XXX__...\<close> and \<^verbatim>\<open>..._FXX__...\<close> are defined
  outside this file, so the renderers take their values as a parameter.
\<close>

record render_flags =
  ALIGN_RIGHT :: nat
  LEADING_PLUS_SIGN :: nat
  DECIMAL_SEPARATOR_IS_A_COMMA :: nat
  EXPONENT_ABSENT :: nat
  EXPONENT_PRESENT :: nat
  JUST_ENOUGH_PRECISION :: nat

text \<open>
  Modelled from the spec: \<^verbatim>\<open>store_u24le__no_bounds_check\<close> and
  \<^verbatim>\<open>store_u32le__no_bounds_check\<close> are declared outside this file; they write the 3 or 4
  low bytes of a word, least significant first, at the start of the destination.
\<close>

definition store_u24le :: "nat list \<Rightarrow> nat \<Rightarrow> nat list" where
  "store_u24le dst x = [x mod 256, x div 2 ^ 8 mod 256, x div 2 ^ 16 mod 256] @ drop 3 dst"

definition store_u32le :: "nat list \<Rightarrow> nat \<Rightarrow> nat list" where
  "store_u32le dst x =
     [x mod 256, x div 2 ^ 8 mod 256, x div 2 ^ 16 mod 256, x div 2 ^ 24 mod 256] @ drop 4 dst"

text \<open>A renderer returns the destination after its writes and the number of bytes written.\<close>

definition render_inf :: "render_flags \<Rightarrow> nat list \<Rightarrow> bool \<Rightarrow> nat \<Rightarrow> nat list \<times> nat" where
  "render_inf fl dst neg options =
     (if neg then
        (if length dst < 4 then (dst, 0) else (store_u32le dst 0x666E492D, 4))
      else if (options AND LEADING_PLUS_SIGN fl) \<noteq> 0 then
        (if length dst < 4 then (dst, 0) else (store_u32le dst 0x666E492B, 4))
      else if length dst < 3 then (dst, 0)
      else (store_u24le dst 0x666E49, 3))"

definition render_nan :: "nat list \<Rightarrow> nat list \<times> nat" where
  "render_nan dst = (if length dst < 3 then (dst, 0) else (store_u24le dst 0x4E614E, 3))"

text \<open>
  The bytes that a renderer writes through \<^verbatim>\<open>*ptr++\<close> are collected in a list, which is
  then put at the start of the destination or, with \<^verbatim>\<open>ALIGN_RIGHT\<close>, at its end.
\<close>

definition place :: "render_flags \<Rightarrow> nat list \<Rightarrow> nat \<Rightarrow> nat \<Rightarrow> nat list \<Rightarrow> nat list \<times> nat" where
  "place fl dst options n out =
     (if n > length dst then (dst, 0)
      else
        (let ptr = (if (options AND ALIGN_RIGHT fl) \<noteq> 0 then length dst - n else 0)
         in (take ptr dst @ out @ drop (ptr + length out) dst, n)))"

definition sign_bytes :: "render_flags \<Rightarrow> hpd \<Rightarrow> nat \<Rightarrow> nat list" where
  "sign_bytes fl h options =
     (if negative h then [ch CHR ''-'']
      else if (options AND LEADING_PLUS_SIGN fl) \<noteq> 0 then [ch CHR ''+'']
      else [])"

definition separator :: "render_flags \<Rightarrow> nat \<Rightarrow> nat" where
  "separator fl options =
     (if (options AND DECIMAL_SEPARATOR_IS_A_COMMA fl) \<noteq> 0 then ch CHR '','' else ch CHR ''.'')"

definition digit_byte :: "nat \<Rightarrow> nat" where
  "digit_byte d = (ch CHR ''0'' OR d) mod 256"

text \<open>The cast \<^verbatim>\<open>(uint32_t)\<close> of an \<^verbatim>\<open>int32_t\<close>.\<close>

definition u32_of_int :: "int \<Rightarrow> nat" where
  "u32_of_int i = nat (i mod 2 ^ 32)"

definition render_exponent_absent ::
    "render_flags \<Rightarrow> nat list \<Rightarrow> hpd \<Rightarrow> nat \<Rightarrow> nat \<Rightarrow> nat list \<times> nat" where
  "render_exponent_absent fl dst h precision options =
     (let n = (if negative h \<or> (options AND LEADING_PLUS_SIGN fl) \<noteq> 0 then 1 else 0)
              + (if decimal_point h \<le> 0 then 1 else nat (decimal_point h))
              + (if precision > 0 then precision + 1 else 0);
          integral =
            (if decimal_point h \<le> 0 then [ch CHR ''0'']
             else
               (let m = min (num_digits h) (u32_of_int (decimal_point h))
                in map (\<lambda>i. digit_byte (digits h i)) [0..<m]
                   @ map (\<lambda>i. ch CHR ''0'') [m..<u32_of_int (decimal_point h)]));
          fraction =
            (if precision > 0
             then separator fl options #
                  map (\<lambda>i. let j = u32 (u32_of_int (decimal_point h) + i)
                            in digit_byte (if j < num_digits h then digits h j else 0))
                      [0..<precision]
             else [])
      in place fl dst options n (sign_bytes fl h options @ integral @ fraction))"

text \<open>The two or three decimal digits of the exponent; \<open>/\<close> and \<open>%\<close> act on a non-negative \<open>e\<close>.\<close>

definition exponent_bytes :: "int \<Rightarrow> nat list" where
  "exponent_bytes e =
     (if e < 10 then [ch CHR ''0'', digit_byte (nat e)]
      else if e < 100 then [digit_byte (nat (e div 10)), digit_byte (nat (e mod 10))]
      else
        (let e100 = e div 100;
             e1 = e - e100 * 100
         in [digit_byte (nat e100), digit_byte (nat (e1 div 10)), digit_byte (nat (e1 mod 10))]))"

definition render_exponent_present ::
    "render_flags \<Rightarrow> nat list \<Rightarrow> hpd \<Rightarrow> nat \<Rightarrow> nat \<Rightarrow> nat list \<times> nat" where
  "render_exponent_present fl dst h precision options =
     (let e0 = (if num_digits h > 0 then decimal_point h - 1 else 0);
          negative_exp = (e0 < 0);
          e = (if negative_exp then - e0 else e0);
          n = (if negative h \<or> (options AND LEADING_PLUS_SIGN fl) \<noteq> 0 then 4 else 3)
              + (if precision > 0 then precision + 1 else 0)
              + (if e < 100 then 2 else 3);
          integral = (if num_digits h > 0 then [digit_byte (digits h 0)] else [ch CHR ''0'']);
          fraction =
            (if precision > 0
             then
               (let j = min (num_digits h) (u32 (precision + 1))
                in separator fl options #
                   map (\<lambda>i. digit_byte (digits h i)) [1..<j]
                   @ map (\<lambda>i. ch CHR ''0'') [max 1 j..<precision + 1])
             else []);
          exponent = ch CHR ''e'' # (if negative_exp then ch CHR ''-'' else ch CHR ''+'')
                     # exponent_bytes e
      in place fl dst options n (sign_bytes fl h options @ integral @ fraction @ exponent))"

text \<open>
  The \<^verbatim>\<open>switch\<close> of \<^verbatim>\<open>render_number_f64\<close> has one case for each of the two exponent
  flags alone; every other value of the two bits leaves the \<^verbatim>\<open>switch\<close> and takes the
  general format below it.
\<close>

definition render_absent_format ::
    "render_flags \<Rightarrow> hpd \<times> hpd \<Rightarrow> nat list \<Rightarrow> hpd \<Rightarrow> int \<Rightarrow> nat \<Rightarrow> nat \<Rightarrow> nat \<Rightarrow> nat list \<times> nat" where
  "render_absent_format fl stack dst h e2 man precision options =
     (if (options AND JUST_ENOUGH_PRECISION fl) \<noteq> 0 then
        (let h1 = round_just_enough_with stack h e2 man;
             p = int (num_digits h1) - decimal_point h1
         in render_exponent_absent fl dst h1 (u32_of_int (max 0 p)) options)
      else
        render_exponent_absent fl dst (round_nearest h (s32 precision + decimal_point h))
          precision options)"

definition render_present_format ::
    "render_flags \<Rightarrow> hpd \<times> hpd \<Rightarrow> nat list \<Rightarrow> hpd \<Rightarrow> int \<Rightarrow> nat \<Rightarrow> nat \<Rightarrow> nat \<Rightarrow> nat list \<times> nat" where
  "render_present_format fl stack dst h e2 man precision options =
     (if (options AND JUST_ENOUGH_PRECISION fl) \<noteq> 0 then
        (let h1 = round_just_enough_with stack h e2 man
         in render_exponent_present fl dst h1
              (if num_digits h1 > 0 then num_digits h1 - 1 else 0) options)
      else
        render_exponent_present fl dst (round_nearest h (s32 precision + 1)) precision options)"

definition render_general_format ::
    "render_flags \<Rightarrow> hpd \<times> hpd \<Rightarrow> nat list \<Rightarrow> hpd \<Rightarrow> int \<Rightarrow> nat \<Rightarrow> nat \<Rightarrow> nat \<Rightarrow> nat list \<times> nat" where
  "render_general_format fl stack dst h e2 man precision0 options =
     (let (h1, precision, e_threshold) =
            (if (options AND JUST_ENOUGH_PRECISION fl) \<noteq> 0 then
               (let h1 = round_just_enough_with stack h e2 man
                in (h1, num_digits h1, 6))
             else
               (let precision = (if precision0 = 0 then 1 else precision0);
                    h1 = round_nearest h (s32 precision);
                    nd = int (num_digits h1)
                in (h1, precision,
                    if s32 precision > nd \<and> nd \<ge> decimal_point h1 then nd else s32 precision)));
          e = decimal_point h1 - 1
      in if e < - 4 \<or> e_threshold \<le> e then
           (let p = min precision (num_digits h1)
            in render_exponent_present fl dst h1 (if p > 0 then p - 1 else 0) options)
         else
           (let p = (if s32 precision > decimal_point h1 then int (num_digits h1)
                     else s32 precision)
            in render_exponent_absent fl dst h1 (u32_of_int (max 0 (p - decimal_point h1)))
                 options))"

text \<open>
  \<^verbatim>\<open>render_number_f64\<close>.  The argument \<open>x\<close> is the bit pattern of the \<^verbatim>\<open>double\<close>;
  \<open>h0\<close>, \<open>lower0\<close> and \<open>upper0\<close> are the uninitialised stack objects behind \<^verbatim>\<open>h\<close> and behind
  \<^verbatim>\<open>lower\<close> and \<^verbatim>\<open>upper\<close> of \<^verbatim>\<open>round_just_enough\<close>.
\<close>

definition render_number_f64 ::
    "render_flags \<Rightarrow> hpd \<times> hpd \<times> hpd \<Rightarrow> nat list \<Rightarrow> nat \<Rightarrow> nat \<Rightarrow> nat \<Rightarrow> nat list \<times> nat" where
  "render_number_f64 fl stack dst x precision0 options =
     (let (h0, lower_upper) = stack;
          bits = u64 x;
          neg = (drop_bit 63 bits \<noteq> 0);
          exp2_field = int (drop_bit 52 bits) AND 0x7FF;
          man_field = bits AND 0x000FFFFFFFFFFFFF
      in if exp2_field = 0x7FF then
           (if man_field \<noteq> 0 then render_nan dst else render_inf fl dst neg options)
         else
           (let (e2, man) =
                  (if exp2_field = 0 then (- 1022, man_field)
                   else (exp2_field - 1023, man_field OR 0x0010000000000000));
                precision = (if precision0 > 4095 then 4095 else precision0);
                h1 = assign h0 man neg;
                h = (if num_digits h1 > 0 then lshift h1 (e2 - 52) else h1);
                format = options AND (EXPONENT_ABSENT fl OR EXPONENT_PRESENT fl)
            in if format = EXPONENT_ABSENT fl
                 then render_absent_format fl lower_upper dst h e2 man precision options
               else if format = EXPONENT_PRESENT fl
                 then render_present_format fl lower_upper dst h e2 man precision options
               else render_general_format fl lower_upper dst h e2 man precision options))"

section \<open>Concrete inputs\<close>

text \<open>
  The HPD whose fields are all zero, used where a closed statement needs some contents
  for an uninitialised stack object, and the values that Wuffs' public header gives the
  option bits (the header is not part of this file; the renderers take them as a
  parameter).
\<close>

definition hpd_zero :: hpd where
  "hpd_zero = hpd_of False False [] 0"

definition example_flags :: render_flags where
  "example_flags =
     \<lparr>ALIGN_RIGHT = 0x1, LEADING_PLUS_SIGN = 0x2, DECIMAL_SEPARATOR_IS_A_COMMA = 0x100,
      EXPONENT_ABSENT = 0x200, EXPONENT_PRESENT = 0x400, JUST_ENOUGH_PRECISION = 0x800\<rparr>"

text \<open>
  The renderers look at the option word only through its masks with the flag values, so
  two option words that agree on these masks render alike.
\<close>

definition same_layout_options :: "render_flags \<Rightarrow> nat \<Rightarrow> nat \<Rightarrow> bool" where
  "same_layout_options fl o1 o0 \<longleftrightarrow>
     o1 AND ALIGN_RIGHT fl = o0 AND ALIGN_RIGHT fl
     \<and> o1 AND LEADING_PLUS_SIGN fl = o0 AND LEADING_PLUS_SIGN fl
     \<and> o1 AND DECIMAL_SEPARATOR_IS_A_COMMA fl = o0 AND DECIMAL_SEPARATOR_IS_A_COMMA fl
     \<and> o1 AND JUST_ENOUGH_PRECISION fl = o0 AND JUST_ENOUGH_PRECISION fl"

section \<open>The HPD invariant\<close>

text \<open>
  The digits in use are decimal digits and fit the array of \<^verbatim>\<open>DIGITS_PRECISION\<close> cells, and
  the last of them is not zero.
\<close>

definition hpd_digits_ok :: "hpd \<Rightarrow> bool" where
  "hpd_digits_ok h \<longleftrightarrow>
     num_digits h \<le> DIGITS_PRECISION \<and> list_all (\<lambda>d. d \<le> 9) (hpd_digit_list h)"

definition hpd_trimmed :: "hpd \<Rightarrow> bool" where
  "hpd_trimmed h \<longleftrightarrow> num_digits h = 0 \<or> digits h (num_digits h - 1) \<noteq> 0"

definition hpd_invariant :: "hpd \<Rightarrow> bool" where
  "hpd_invariant h \<longleftrightarrow> hpd_trimmed h \<and> hpd_digits_ok h"

text \<open>What the digit loop of the parser keeps true of its state.\<close>

definition parse_locals_ok :: "parse_locals \<Rightarrow> bool" where
  "parse_locals_ok st \<longleftrightarrow>
     (case st of (h, nd, dp, saw_digits, saw_non_zero_digits, saw_dot) \<Rightarrow>
        num_digits h = 0 \<and> nd \<le> DIGITS_PRECISION \<and> (\<forall>i<nd. digits h i \<le> 9))"

section \<open>Proofs\<close>

subsection \<open>rounded\_integer\<close>

lemma rounded_integer_loop_horner:
  assumes "\<forall>j<dp. digit_at h j \<le> 9" and "i \<le> dp" and "dp \<le> 18" and "n < 10 ^ i"
  shows "rounded_integer_loop h dp i n =
           n * 10 ^ (dp - i) + (\<Sum>j = i..<dp. digit_at h j * 10 ^ (dp - 1 - j))
         \<and> rounded_integer_loop h dp i n < 10 ^ dp"
  using assms
proof (induction h dp i n rule: rounded_integer_loop.induct)
  case (1 h dp i n)
  show ?case
  proof (cases "i < dp")
    case False
    with "1.prems" show ?thesis
      by (simp add: rounded_integer_loop.simps)
  next
    case True
    define d where "d = digit_at h i"
    have d9: "d \<le> 9" using "1.prems"(1) True by (simp add: d_def)
    have step: "10 * n + d < 10 ^ (i + 1)"
      using "1.prems"(4) d9 by simp
    have "(10::nat) ^ (i + 1) \<le> 10 ^ 18"
      using True "1.prems"(3) by (intro power_increasing) auto
    also have "(10::nat) ^ 18 < 2 ^ 64" by simp
    finally have small: "10 * n + d < 2 ^ 64" using step by linarith
    have u: "u64 (10 * n + d) = 10 * n + d"
      using small by (simp add: u64_def)
    have unfold: "rounded_integer_loop h dp i n = rounded_integer_loop h dp (i + 1) (10 * n + d)"
      using True u by (subst rounded_integer_loop.simps) (simp add: d_def digit_at_def)
    have IH: "rounded_integer_loop h dp (i + 1) (10 * n + d) =
                (10 * n + d) * 10 ^ (dp - (i + 1))
                + (\<Sum>j = i + 1..<dp. digit_at h j * 10 ^ (dp - 1 - j))
              \<and> rounded_integer_loop h dp (i + 1) (10 * n + d) < 10 ^ dp"
      using "1.IH" [OF True] "1.prems"(1,3) True step u
      by (simp add: d_def digit_at_def)
    have pw: "(10::nat) ^ (dp - i) = 10 * 10 ^ (dp - (i + 1))"
      using True by (metis Suc_diff_Suc Suc_eq_plus1 diff_Suc_eq_diff_pred power_Suc
          Suc_diff_1 zero_less_diff diff_diff_left)
    have sm: "(\<Sum>j = i..<dp. digit_at h j * 10 ^ (dp - 1 - j)) =
                d * 10 ^ (dp - 1 - i) + (\<Sum>j = i + 1..<dp. digit_at h j * 10 ^ (dp - 1 - j))"
      using True by (simp add: sum.atLeast_Suc_lessThan d_def)
    have e: "dp - 1 - i = dp - (i + 1)" by simp
    show ?thesis
      using IH unfold pw sm e by (simp add: algebra_simps)
  qed
qed

lemma rounded_integer_loop_value:
  assumes "\<forall>j<dp. digit_at h j \<le> 9" and "dp \<le> 18"
  shows "rounded_integer_loop h dp 0 0 = prefix_value h dp"
    and "rounded_integer_loop h dp 0 0 < 10 ^ dp"
  using rounded_integer_loop_horner [of dp h 0 0] assms
  by (simp_all add: prefix_value_def atLeast0LessThan)

lemma rounded_integer_round_up_iff:
  "rounded_integer_round_up h dp \<longleftrightarrow>
     dp < num_digits h \<and>
     (if digits h dp = 5 \<and> dp + 1 = num_digits h
      then truncated h \<or> (dp > 0 \<and> odd (digits h (dp - 1)))
      else digits h dp \<ge> 5)"
  by (simp add: rounded_integer_round_up_def and_one_eq odd_iff_mod_2_eq_one ac_simps)

subsection \<open>Claim C4\<close>

text \<open>
  Claim C4, as the code has it.  \<^verbatim>\<open>rounded_integer\<close> returns 0 when \<open>num_digits\<close> is 0 or
  \<open>decimal_point\<close> is negative, and \<^verbatim>\<open>UINT64_MAX\<close> when there are digits and
  \<open>decimal_point\<close> exceeds 18.  Otherwise (\<open>0 \<le> decimal_point \<le> 18\<close>, digits in 0..9) it
  returns the first \<open>decimal_point\<close> digits accumulated base-10, plus one exactly when the
  round-half-to-even rule says so: the digit at position \<open>decimal_point\<close> exists and is
  above 5, or it is 5 and either more digits follow, or \<open>truncated\<close> is set, or the
  preceding digit is odd.  A \<open>decimal_point\<close> of 0 is part of the last case, not of the
  first.
\<close>

theorem rounded_integer_spec:
  "(num_digits h = 0 \<or> decimal_point h < 0 \<longrightarrow> rounded_integer h = 0) \<and>
   (num_digits h > 0 \<and> decimal_point h > 18 \<longrightarrow> rounded_integer h = UINT64_MAX) \<and>
   (num_digits h > 0 \<and> 0 \<le> decimal_point h \<and> decimal_point h \<le> 18 \<and>
      (\<forall>i<num_digits h. digits h i \<le> 9) \<longrightarrow>
      rounded_integer h = prefix_value h (nat (decimal_point h))
                          + (if half_even_up h (nat (decimal_point h)) then 1 else 0))"
proof (intro conjI impI)
  assume "num_digits h = 0 \<or> decimal_point h < 0"
  then show "rounded_integer h = 0" by (auto simp: rounded_integer_def)
next
  assume "num_digits h > 0 \<and> decimal_point h > 18"
  then show "rounded_integer h = UINT64_MAX" by (auto simp: rounded_integer_def)
next
  assume a: "num_digits h > 0 \<and> 0 \<le> decimal_point h \<and> decimal_point h \<le> 18 \<and>
      (\<forall>i<num_digits h. digits h i \<le> 9)"
  define dp where "dp = nat (decimal_point h)"
  have dp18: "dp \<le> 18" using a unfolding dp_def by linarith
  have dg: "\<forall>j<dp. digit_at h j \<le> 9" using a by (simp add: digit_at_def)
  have v: "rounded_integer_loop h dp 0 0 = prefix_value h dp"
    and b: "rounded_integer_loop h dp 0 0 < 10 ^ dp"
    using rounded_integer_loop_value [OF dg dp18] by auto
  have "(10::nat) ^ dp \<le> 10 ^ 18" using dp18 by (intro power_increasing) auto
  then have "prefix_value h dp + 1 < 2 ^ 64" using b v by simp
  then have u: "u64 (prefix_value h dp + 1) = prefix_value h dp + 1"
    by (simp add: u64_def)
  have r: "rounded_integer_round_up h dp = half_even_up h dp"
    using a by (auto simp: rounded_integer_round_up_iff half_even_up_def)
  show "rounded_integer h = prefix_value h (nat (decimal_point h))
                          + (if half_even_up h (nat (decimal_point h)) then 1 else 0)"
    using a v u r by (simp add: rounded_integer_def dp_def [symmetric] Let_def)
qed

theorem rounded_integer_spec_witness:
  "rounded_integer (hpd_of False False [] 3) = 0 \<and>
   rounded_integer (hpd_of False False [7] (- 1)) = 0 \<and>
   rounded_integer (hpd_of False False [7] 19) = UINT64_MAX \<and>
   rounded_integer (hpd_of False False [1, 2, 5] 2) = 12 \<and>
   rounded_integer (hpd_of False False [1, 3, 5] 2) = 14 \<and>
   rounded_integer (hpd_of False True [1, 2, 5] 2) = 13"
proof -
  have ev: "prefix_value (hpd_of neg tr [a, b, c] 2) 2 = a * 10 + b" for neg tr a b c
    by (simp add: prefix_value_def hpd_of_def digits_of_list_def digit_at_def lessThan_Suc
        numeral_2_eq_2)
  have "rounded_integer (hpd_of False False [] 3) = 0"
    using rounded_integer_spec [of "hpd_of False False [] 3"] by (simp add: hpd_of_def)
  moreover have "rounded_integer (hpd_of False False [7] (- 1)) = 0"
    using rounded_integer_spec [of "hpd_of False False [7] (- 1)"] by (simp add: hpd_of_def)
  moreover have "rounded_integer (hpd_of False False [7] 19) = UINT64_MAX"
    using rounded_integer_spec [of "hpd_of False False [7] 19"] by (simp add: hpd_of_def)
  moreover have "rounded_integer (hpd_of False False [1, 2, 5] 2) = 12"
    using rounded_integer_spec [of "hpd_of False False [1, 2, 5] 2"] ev [of False False 1 2 5]
    by (simp add: hpd_of_def digits_of_list_def half_even_up_def less_Suc_eq numeral_3_eq_3)
  moreover have "rounded_integer (hpd_of False False [1, 3, 5] 2) = 14"
    using rounded_integer_spec [of "hpd_of False False [1, 3, 5] 2"] ev [of False False 1 3 5]
    by (simp add: hpd_of_def digits_of_list_def half_even_up_def less_Suc_eq numeral_3_eq_3)
  moreover have "rounded_integer (hpd_of False True [1, 2, 5] 2) = 13"
    using rounded_integer_spec [of "hpd_of False True [1, 2, 5] 2"] ev [of False True 1 2 5]
    by (simp add: hpd_of_def digits_of_list_def half_even_up_def less_Suc_eq numeral_3_eq_3)
  ultimately show ?thesis by blast
qed

text \<open>
  The claim as written fails at \<open>decimal_point = 0\<close>: the HPD \<open>.6\<close> has
  \<open>decimal_point = 0\<close> and rounds to 1, not 0.
\<close>

theorem rounded_integer_zero_point_counterexample:
  "decimal_point (hpd_of False False [6] 0) \<le> 0 \<and>
   rounded_integer (hpd_of False False [6] 0) = 1"
  by (simp add: rounded_integer_def hpd_of_def digits_of_list_def rounded_integer_loop.simps
      rounded_integer_round_up_def u64_def)

subsection \<open>The left-shift tables\<close>

lemma concat_pow5_rows: "concat pow5_rows = powers_of_5"
  by (simp add: pow5_rows_def powers_of_5_def)

lemma pow5_rows_values: "map digits_value pow5_rows = map (\<lambda>s. 5 ^ s) [1..<61]"
  by (simp add: upt_conv_Cons pow5_rows_def digits_value_def)

lemma pow5_rows_offsets:
  "map (\<lambda>s. 0x7FF AND hpd_left_shift ! s) [1..<62] = offsets_from 0 (map length pow5_rows)"
  by (simp add: upt_conv_Cons pow5_rows_def hpd_left_shift_def)

lemma pow5_rows_wf: "list_all (\<lambda>r. r \<noteq> [] \<and> hd r \<noteq> 0 \<and> list_all (\<lambda>d. d < 10) r) pow5_rows"
  by (simp add: pow5_rows_def)

lemma length_pow5_rows: "length pow5_rows = 60"
  by (simp add: pow5_rows_def)

lemma max_new_digits_pow2:
  "\<forall>s \<in> set [1..<61]. 10 ^ (max_new_digits s - 1) \<le> (2::nat) ^ s \<and> (2::nat) ^ s < 10 ^ max_new_digits s \<and> max_new_digits s \<ge> 1 \<and> max_new_digits s \<le> 19"
  by (simp add: upt_conv_Cons max_new_digits_def hpd_left_shift_def drop_bit_eq_div)

lemma length_offsets_from: "length (offsets_from a ls) = Suc (length ls)"
  by (induction ls arbitrary: a) auto

lemma offsets_from_slice:
  assumes "j < length xs"
  shows "offsets_from a (map length xs) ! Suc j = offsets_from a (map length xs) ! j + length (xs ! j)
       \<and> a \<le> offsets_from a (map length xs) ! j
       \<and> take (length (xs ! j)) (drop (offsets_from a (map length xs) ! j - a) (concat xs)) = xs ! j"
  using assms
proof (induction xs arbitrary: a j)
  case Nil
  then show ?case by simp
next
  case (Cons x xs)
  show ?case
  proof (cases j)
    case 0
    then show ?thesis by (cases xs) auto
  next
    case (Suc k)
    then have k: "k < length xs" using Cons.prems by simp
    from Cons.IH [OF k, of "a + length x"] Suc
    show ?thesis by (auto simp: algebra_simps)
  qed
qed

lemma pow5_offset_nth:
  assumes "1 \<le> s" and "s \<le> 61"
  shows "0x7FF AND hpd_left_shift ! s = offsets_from 0 (map length pow5_rows) ! (s - 1)"
proof -
  have "map (\<lambda>s. 0x7FF AND hpd_left_shift ! s) [1..<62] ! (s - 1) = 0x7FF AND hpd_left_shift ! s"
    using assms by (subst nth_map) (auto simp: nth_upt)
  then have "offsets_from 0 (map length pow5_rows) ! (s - 1) = 0x7FF AND hpd_left_shift ! s"
    unfolding pow5_rows_offsets .
  then show ?thesis by (rule sym)
qed

lemma pow5_slice_row:
  assumes "1 \<le> s" and "s \<le> 60"
  shows "pow5_slice s = pow5_rows ! (s - 1)"
    and "(0x7FF AND hpd_left_shift ! (s + 1)) = (0x7FF AND hpd_left_shift ! s) + length (pow5_rows ! (s - 1))"
proof -
  have j: "s - 1 < length pow5_rows" using assms by (simp add: length_pow5_rows)
  have a: "0x7FF AND hpd_left_shift ! s = offsets_from 0 (map length pow5_rows) ! (s - 1)"
    using assms by (intro pow5_offset_nth) auto
  have b: "0x7FF AND hpd_left_shift ! (s + 1) = offsets_from 0 (map length pow5_rows) ! Suc (s - 1)"
    using assms pow5_offset_nth [of "s + 1"] by simp
  from offsets_from_slice [OF j, of 0] a b
  show "pow5_slice s = pow5_rows ! (s - 1)"
    by (simp add: pow5_slice_def Let_def concat_pow5_rows)
  from offsets_from_slice [OF j, of 0] a b
  show "(0x7FF AND hpd_left_shift ! (s + 1)) = (0x7FF AND hpd_left_shift ! s) + length (pow5_rows ! (s - 1))"
    by simp
qed

lemma digits_value_snoc: "digits_value (ds @ [d]) = 10 * digits_value ds + d"
  by (simp add: digits_value_def)

lemma digits_value_pos: "ds \<noteq> [] \<Longrightarrow> hd ds \<noteq> 0 \<Longrightarrow> digits_value ds > 0"
proof (induction ds rule: rev_induct)
  case Nil
  then show ?case by simp
next
  case (snoc d ds)
  then show ?case by (cases ds) (auto simp: digits_value_snoc digits_value_def)
qed

lemma decimal_digits_value:
  "ds \<noteq> [] \<Longrightarrow> hd ds \<noteq> 0 \<Longrightarrow> list_all (\<lambda>d. d < 10) ds \<Longrightarrow> decimal_digits (digits_value ds) = ds"
proof (induction ds rule: rev_induct)
  case Nil
  then show ?case by simp
next
  case (snoc d ds)
  have d: "d < 10" using snoc.prems by simp
  show ?case
  proof (cases "ds = []")
    case True
    then show ?thesis using d by (simp add: digits_value_def decimal_digits.simps)
  next
    case False
    then have hd: "hd ds \<noteq> 0" using snoc.prems by simp
    have pos: "digits_value ds > 0" using digits_value_pos [OF False hd] .
    have IH: "decimal_digits (digits_value ds) = ds"
      using snoc.IH [OF False hd] snoc.prems by simp
    have "decimal_digits (10 * digits_value ds + d) =
            decimal_digits ((10 * digits_value ds + d) div 10) @ [(10 * digits_value ds + d) mod 10]"
      using pos by (subst decimal_digits.simps) simp
    then show ?thesis using d IH by (simp add: digits_value_snoc)
  qed
qed

lemma pow5_slice_digits:
  assumes "1 \<le> s" and "s \<le> 60"
  shows "pow5_slice s = decimal_digits (5 ^ s)"
proof -
  have j: "s - 1 < length pow5_rows" using assms by (simp add: length_pow5_rows)
  have wf: "pow5_rows ! (s - 1) \<noteq> [] \<and> hd (pow5_rows ! (s - 1)) \<noteq> 0
            \<and> list_all (\<lambda>d. d < 10) (pow5_rows ! (s - 1))"
    using pow5_rows_wf j by (simp add: list_all_length)
  have "map digits_value pow5_rows ! (s - 1) = map (\<lambda>s. 5 ^ s) [1..<61] ! (s - 1)"
    unfolding pow5_rows_values ..
  moreover have "map (\<lambda>s. (5::nat) ^ s) [1..<61] ! (s - 1) = 5 ^ s"
    using assms by (subst nth_map) (auto simp: nth_upt)
  ultimately have v: "digits_value (pow5_rows ! (s - 1)) = 5 ^ s"
    using j by simp
  show ?thesis
    using decimal_digits_value [of "pow5_rows ! (s - 1)"] wf v pow5_slice_row(1) [OF assms]
    by simp
qed

subsection \<open>lshift\_num\_new\_digits\<close>

lemma and_63_small: "s < 64 \<Longrightarrow> s AND 63 = (s::nat)"
proof -
  assume s: "s < 64"
  have "(63::nat) = mask 6" by (simp add: mask_eq_exp_minus_1)
  then have "s AND 63 = take_bit 6 s" by (simp add: take_bit_eq_mask)
  also have "\<dots> = s" using s by (simp add: take_bit_nat_eq_self)
  finally show ?thesis .
qed

lemma and_2047_bound: "(0x7FF AND (x::nat)) < 2048"
proof -
  have "(0x7FF::nat) = mask 11" by (simp add: mask_eq_exp_minus_1)
  then have "0x7FF AND x = take_bit 11 x" by (simp add: take_bit_eq_mask ac_simps)
  then show ?thesis by (simp add: take_bit_eq_mod)
qed

lemma u32_sub_simple: "b \<le> a \<Longrightarrow> a < 2 ^ 32 \<Longrightarrow> u32_sub a b = a - b"
proof -
  assume le: "b \<le> a" and a: "a < 2 ^ 32"
  have m: "b mod 2 ^ 32 = b" using le a by simp
  have "a + 2 ^ 32 - b = (a - b) + 2 ^ 32" using le by simp
  then have "(a + 2 ^ 32 - b) mod 2 ^ 32 = (a - b) mod 2 ^ 32"
    by (metis mod_add_self2)
  also have "\<dots> = a - b" using a by simp
  finally show ?thesis using m by (simp add: u32_sub_def)
qed

lemma length_hpd_digit_list [simp]: "length (hpd_digit_list h) = num_digits h"
  by (simp add: hpd_digit_list_def)

lemma nth_hpd_digit_list [simp]: "i < num_digits h \<Longrightarrow> hpd_digit_list h ! i = digits h i"
  by (simp add: hpd_digit_list_def)

lemma lshift_num_new_digits_loop_lex:
  assumes "length p = n" and "\<forall>j<n. powers_of_5 ! (pow5_a + j) = p ! j"
  shows "lshift_num_new_digits_loop h pow5_a n nnd i =
           (if drop i (hpd_digit_list h) < drop i p then u32_sub nnd 1 else nnd)"
  using assms
proof (induction h pow5_a n nnd i rule: lshift_num_new_digits_loop.induct)
  case (1 h pow5_a n nnd i)
  show ?case
  proof (cases "i < n")
    case False
    then have "drop i p = []" using "1.prems" by simp
    then show ?thesis using False
      by (subst lshift_num_new_digits_loop.simps) simp
  next
    case True
    then have dp: "drop i p = p ! i # drop (Suc i) p"
      using "1.prems" by (simp add: Cons_nth_drop_Suc)
    show ?thesis
    proof (cases "i \<ge> num_digits h")
      case True
      then have "drop i (hpd_digit_list h) = []" by simp
      then show ?thesis using True \<open>i < n\<close> dp
        by (subst lshift_num_new_digits_loop.simps) simp
    next
      case False
      then have dh: "drop i (hpd_digit_list h) = digits h i # drop (Suc i) (hpd_digit_list h)"
        by (simp add: Cons_nth_drop_Suc [symmetric])
      have pi: "powers_of_5 ! (pow5_a + i) = p ! i" using "1.prems" \<open>i < n\<close> by simp
      show ?thesis
      proof (cases "digits h i = p ! i")
        case True
        have "lshift_num_new_digits_loop h pow5_a n nnd i =
                lshift_num_new_digits_loop h pow5_a n nnd (i + 1)"
          using \<open>i < n\<close> False True pi by (subst lshift_num_new_digits_loop.simps) simp
        also have "\<dots> = (if drop (i + 1) (hpd_digit_list h) < drop (i + 1) p
                           then u32_sub nnd 1 else nnd)"
          using "1.IH" [OF \<open>i < n\<close> _ _ "1.prems"] False True pi by simp
        finally show ?thesis using dh dp True by simp
      next
        case neq: False
        show ?thesis
          using \<open>i < n\<close> False neq pi dh dp
          by (subst lshift_num_new_digits_loop.simps) auto
      qed
    qed
  qed
qed

lemma lshift_num_new_digits_lex:
  assumes "1 \<le> s" and "s \<le> 60"
  shows "lshift_num_new_digits h s =
           (if hpd_digit_list h < pow5_slice s then max_new_digits s - 1 else max_new_digits s)"
proof -
  define a where "a = 0x7FF AND hpd_left_shift ! s"
  define b where "b = 0x7FF AND hpd_left_shift ! (s + 1)"
  define p where "p = pow5_slice s"
  have s63: "s AND 63 = s" using assms by (intro and_63_small) simp
  have row: "p = pow5_rows ! (s - 1)" and ba: "b = a + length (pow5_rows ! (s - 1))"
    using pow5_slice_row [OF assms] by (simp_all add: p_def a_def b_def)
  have pdef: "p = take (b - a) (drop a powers_of_5)"
    by (simp add: p_def pow5_slice_def a_def b_def Let_def)
  have len: "length p = b - a" using row ba by simp
  have nth: "\<forall>j<b - a. powers_of_5 ! (a + j) = p ! j"
  proof (intro allI impI)
    fix j assume j: "j < b - a"
    have "length (take (b - a) (drop a powers_of_5)) = b - a" using len pdef by simp
    then have le: "b - a \<le> length powers_of_5 - a" by simp
    then show "powers_of_5 ! (a + j) = p ! j" using j by (simp add: pdef)
  qed
  have b32: "b < 2 ^ 32" using and_2047_bound [of "hpd_left_shift ! (s + 1)"] by (simp add: b_def)
  have sub: "u32_sub b a = b - a" using ba b32 by (intro u32_sub_simple) auto
  have "s \<in> set [1..<61]" using assms by simp
  then have N: "max_new_digits s \<ge> 1" "max_new_digits s \<le> 19"
    using max_new_digits_pow2 by blast+
  have sub1: "u32_sub (max_new_digits s) 1 = max_new_digits s - 1"
    using N by (intro u32_sub_simple) auto
  have sub': "u32_sub (0x7FF AND hpd_left_shift ! Suc s) (0x7FF AND hpd_left_shift ! s) = b - a"
    using sub by (simp add: a_def b_def)
  have "lshift_num_new_digits h s =
          lshift_num_new_digits_loop h a (b - a) (max_new_digits s) 0"
    by (simp add: lshift_num_new_digits_def Let_def s63 sub' max_new_digits_def)
       (simp add: a_def)
  also have "\<dots> = (if drop 0 (hpd_digit_list h) < drop 0 p
                     then u32_sub (max_new_digits s) 1 else max_new_digits s)"
    by (rule lshift_num_new_digits_loop_lex [OF len nth])
  finally show ?thesis using sub1 by (simp add: p_def)
qed

subsection \<open>trim\<close>

lemma num_digits_trim_le: "num_digits (trim h) \<le> num_digits h"
proof (induction h rule: trim.induct)
  case (1 h)
  show ?case
  proof (cases "num_digits h > 0 \<and> digits h (num_digits h - 1) = 0")
    case True
    then have "trim h = trim (h\<lparr>num_digits := num_digits h - 1\<rparr>)"
      by (subst trim.simps) simp
    then show ?thesis using "1.IH" [OF True] by simp
  next
    case False
    then show ?thesis by (subst trim.simps) auto
  qed
qed

subsection \<open>Claim C5\<close>

text \<open>
  Claim C5, as the code has it.  For a shift \<open>s\<close> with \<open>1 \<le> s \<le> 60\<close>, the number \<open>k\<close> of
  new digits that \<^verbatim>\<open>lshift_num_new_digits\<close> returns is \<open>N(s) - 1\<close> when the digits of \<open>h\<close>
  are lexicographically less than the decimal digits of \<open>5 ^ s\<close> (a proper prefix counting
  as less) and \<open>N(s)\<close> otherwise, \<open>N(s)\<close> being the count in the high bits of the table
  entry.  On a non-empty HPD \<^verbatim>\<open>small_lshift\<close> sets \<open>num_digits\<close> to
  \<open>min (num_digits + k) 800\<close> and then trims trailing zeroes, so the final \<open>num_digits\<close>
  is at most that number and can be smaller; an empty HPD is left unchanged.
\<close>

theorem small_lshift_num_digits:
  assumes "1 \<le> s" and "s \<le> 60" and "num_digits h \<le> DIGITS_PRECISION"
  shows "lshift_num_new_digits h s =
           (if hpd_digit_list h < decimal_digits (5 ^ s)
            then max_new_digits s - 1 else max_new_digits s)
       \<and> (num_digits h > 0 \<longrightarrow>
            small_lshift h s = trim (small_lshift_untrimmed h s)
          \<and> num_digits (small_lshift_untrimmed h s) =
              min (num_digits h + lshift_num_new_digits h s) DIGITS_PRECISION
          \<and> num_digits (small_lshift h s) \<le>
              min (num_digits h + lshift_num_new_digits h s) DIGITS_PRECISION)
       \<and> (num_digits h = 0 \<longrightarrow> small_lshift h s = h)"
proof -
  have k: "lshift_num_new_digits h s =
           (if hpd_digit_list h < decimal_digits (5 ^ s)
            then max_new_digits s - 1 else max_new_digits s)"
    using lshift_num_new_digits_lex [OF assms(1,2)] pow5_slice_digits [OF assms(1,2)] by simp
  have "s \<in> set [1..<61]" using assms by simp
  then have N: "max_new_digits s \<le> 19" using max_new_digits_pow2 by blast
  then have k19: "lshift_num_new_digits h s \<le> 19" using k by auto
  have u: "u32 (num_digits h + lshift_num_new_digits h s) = num_digits h + lshift_num_new_digits h s"
    using k19 assms(3) by (simp add: u32_def DIGITS_PRECISION_def)
  have nd: "num_digits (small_lshift_untrimmed h s) =
              min (num_digits h + lshift_num_new_digits h s) DIGITS_PRECISION"
    by (simp add: small_lshift_untrimmed_def Let_def u split: prod.splits)
  have le: "num_digits h > 0 \<Longrightarrow> num_digits (small_lshift h s) \<le>
              min (num_digits h + lshift_num_new_digits h s) DIGITS_PRECISION"
    using num_digits_trim_le [of "small_lshift_untrimmed h s"] nd
    by (simp add: small_lshift_def)
  show ?thesis using k nd le by (simp add: small_lshift_def)
qed

theorem small_lshift_num_digits_witness:
  "lshift_num_new_digits (hpd_of False False [2, 5] 2) 2 = 1
   \<and> num_digits (small_lshift_untrimmed (hpd_of False False [2, 5] 2) 2) = 3
   \<and> num_digits (small_lshift (hpd_of False False [2, 5] 2) 2) \<le> 3
   \<and> lshift_num_new_digits (hpd_of False False [2, 4, 9] 3) 2 = 0
   \<and> small_lshift (hpd_of False False [] 0) 2 = hpd_of False False [] 0"
proof -
  have dd: "decimal_digits (5 ^ 2) = [2, 5]"
    by (simp add: decimal_digits.simps)
  have N: "max_new_digits 2 = 1"
    by (simp add: max_new_digits_def hpd_left_shift_def drop_bit_eq_div)
  have l1: "\<not> hpd_digit_list (hpd_of False False [2, 5] 2) < [2, 5]"
    by (simp add: hpd_digit_list_def hpd_of_def digits_of_list_def upt_conv_Cons)
  have l2: "hpd_digit_list (hpd_of False False [2, 4, 9] 3) < [2, 5]"
    by (simp add: hpd_digit_list_def hpd_of_def digits_of_list_def upt_conv_Cons)
  have a: "(1::nat) \<le> 2" and b: "(2::nat) \<le> 60" by simp_all
  have c1: "num_digits (hpd_of False False [2, 5] 2) \<le> DIGITS_PRECISION"
    and c2: "num_digits (hpd_of False False [2, 4, 9] 3) \<le> DIGITS_PRECISION"
    and c3: "num_digits (hpd_of False False [] 0) \<le> DIGITS_PRECISION"
    by (simp_all add: hpd_of_def DIGITS_PRECISION_def)
  have p1: "0 < num_digits (hpd_of False False [2, 5] 2)"
    and e1: "num_digits (hpd_of False False [2, 5] 2) = 2"
    and p3: "num_digits (hpd_of False False [] 0) = 0"
    by (simp_all add: hpd_of_def)
  note T1 = small_lshift_num_digits [OF a b c1]
  note T2 = small_lshift_num_digits [OF a b c2]
  note T3 = small_lshift_num_digits [OF a b c3]
  have k1: "lshift_num_new_digits (hpd_of False False [2, 5] 2) 2 = 1"
    using T1 l1 dd N by simp
  have "num_digits (small_lshift_untrimmed (hpd_of False False [2, 5] 2) 2) =
          min (num_digits (hpd_of False False [2, 5] 2)
               + lshift_num_new_digits (hpd_of False False [2, 5] 2) 2) DIGITS_PRECISION"
    using T1 p1 by blast
  then have u1: "num_digits (small_lshift_untrimmed (hpd_of False False [2, 5] 2) 2) = 3"
    unfolding k1 e1 by (simp add: DIGITS_PRECISION_def)
  have "num_digits (small_lshift (hpd_of False False [2, 5] 2) 2) \<le>
          min (num_digits (hpd_of False False [2, 5] 2)
               + lshift_num_new_digits (hpd_of False False [2, 5] 2) 2) DIGITS_PRECISION"
    using T1 p1 by blast
  then have le1: "num_digits (small_lshift (hpd_of False False [2, 5] 2) 2) \<le> 3"
    unfolding k1 e1 by (simp add: DIGITS_PRECISION_def)
  have k2: "lshift_num_new_digits (hpd_of False False [2, 4, 9] 3) 2 = 0"
    using T2 l2 dd N by simp
  have z: "small_lshift (hpd_of False False [] 0) 2 = hpd_of False False [] 0"
    using T3 p3 by blast
  show ?thesis using k1 u1 le1 k2 z by blast
qed

text \<open>
  The claim as written fails because of the final \<^verbatim>\<open>trim\<close>: shifting \<open>25\<close> left by 2 gives
  \<open>100\<close>, which is trimmed to the single digit \<open>1\<close>.  The number of digits goes from 2 to
  1, while the table promises \<open>N(2) = 1\<close> or \<open>N(2) - 1 = 0\<close> new digits, far from the
  800-digit clamp.
\<close>

theorem small_lshift_trim_counterexample:
  "num_digits (hpd_of False False [2, 5] 2) = 2
   \<and> max_new_digits 2 = 1
   \<and> num_digits (small_lshift (hpd_of False False [2, 5] 2) 2) = 1"
  by (simp add: small_lshift_def small_lshift_untrimmed_def hpd_of_def digits_of_list_def
     lshift_num_new_digits_def hpd_left_shift_def lshift_num_new_digits_loop.simps powers_of_5_def
     u32_sub_def drop_bit_eq_div small_lshift_pick_up.simps small_lshift_put_down.simps
     small_lshift_put_def max_new_digits_def
     u64_def u32_def s32_def DIGITS_PRECISION_def trim.simps Let_def)

subsection \<open>Claim C8\<close>

lemma u64_less: "u64 x < 2 ^ 64"
  by (simp add: u64_def)

lemma multiply_u64_hi_le: "fst (multiply_u64 x y) \<le> 2 ^ 64 - 2"
proof -
  have x: "u64 x \<le> 2 ^ 64 - 1" and y: "u64 y \<le> 2 ^ 64 - 1"
    using u64_less [of x] u64_less [of y] by simp_all
  have "u64 x * u64 y \<le> (2 ^ 64 - 1) * (2 ^ 64 - 1)"
    by (rule mult_le_mono [OF x y])
  then have "(u64 x * u64 y) div 2 ^ 64 \<le> ((2 ^ 64 - 1) * (2 ^ 64 - 1)) div 2 ^ 64"
    by (rule div_le_mono)
  also have "((2 ^ 64 - 1) * (2 ^ 64 - 1)) div 2 ^ 64 = (2 ^ 64 - 2 :: nat)"
    by simp
  finally show ?thesis by (simp add: multiply_u64_def)
qed

lemma multiply_u64_lo_top: "drop_bit 63 (snd (multiply_u64 x y)) \<le> 1"
proof -
  have "snd (multiply_u64 x y) < 2 ^ 64" by (simp add: multiply_u64_def)
  then have "snd (multiply_u64 x y) div 2 ^ 63 < 2"
    by (simp add: less_mult_imp_div_less)
  then show ?thesis by (simp add: drop_bit_eq_div)
qed

text \<open>
  Claim C8.  In \<^verbatim>\<open>mul_pow_10\<close>, for every MPB \<open>m\<close> (normalized or not) and every row \<open>p\<close>,
  the high half \<open>hi\<close> of the 128-bit product of \<open>m.mantissa\<close> and the row's 64-bit mantissa
  is at most \<open>2 ^ 64 - 2\<close>, so the rounded mantissa \<open>hi + (lo >> 63)\<close> does not wrap around
  64 bits, and the new exponent is \<open>m.exp2 + p_exp2 + 128 - 1214\<close>.
\<close>

theorem mul_pow_10_no_wrap:
  "mul_pow_10_hi m p \<le> 2 ^ 64 - 2
   \<and> mul_pow_10_hi m p + drop_bit 63 (mul_pow_10_lo m p) < 2 ^ 64
   \<and> mantissa (mul_pow_10 m p) = mul_pow_10_hi m p + drop_bit 63 (mul_pow_10_lo m p)
   \<and> exp2 (mul_pow_10 m p) = exp2 m + s32 (p 4) + 128 - 1214"
proof -
  have hi: "mul_pow_10_hi m p \<le> 2 ^ 64 - 2"
    unfolding mul_pow_10_hi_def by (rule multiply_u64_hi_le)
  have lo: "drop_bit 63 (mul_pow_10_lo m p) \<le> 1"
    unfolding mul_pow_10_lo_def by (rule multiply_u64_lo_top)
  have sum: "mul_pow_10_hi m p + drop_bit 63 (mul_pow_10_lo m p) < 2 ^ 64"
    using hi lo by simp
  then have "u64 (mul_pow_10_hi m p + drop_bit 63 (mul_pow_10_lo m p)) =
               mul_pow_10_hi m p + drop_bit 63 (mul_pow_10_lo m p)"
    by (simp add: u64_def)
  then show ?thesis using hi sum by (simp add: mul_pow_10_def Let_def)
qed

subsection \<open>Reading the powers-of-ten table\<close>

lemma concat_quintuples_nth:
  fixes xs :: "('a \<times> 'a \<times> 'a \<times> 'a \<times> 'a) list"
  defines "F \<equiv> (\<lambda>(w0, w1, w2, w3, e). [w0, w1, w2, w3, e])"
  assumes "i < length xs" and "j < 5"
  shows "concat (map F xs) ! (5 * i + j) = F (xs ! i) ! j"
  using assms(2,3)
proof (induction xs arbitrary: i)
  case Nil
  then show ?case by simp
next
  case (Cons x xs)
  have l: "length (F x) = 5" by (cases x) (simp add: F_def)
  show ?case
  proof (cases i)
    case 0
    then show ?thesis using Cons.prems l by (simp add: nth_append)
  next
    case (Suc k)
    have "concat (map F (x # xs)) ! (5 * i + j) = (F x @ concat (map F xs)) ! (length (F x) + (5 * k + j))"
      using Suc l by (simp add: add.assoc)
    also have "\<dots> = concat (map F xs) ! (5 * k + j)"
      by (rule nth_append_length_plus)
    also have "\<dots> = F (xs ! k) ! j"
      using Cons.IH [of k] Cons.prems Suc by simp
    finally show ?thesis using Suc by simp
  qed
qed

lemma length_powers_of_10_rows: "length powers_of_10_rows = 637"
  by (simp add: powers_of_10_rows_def)

lemma powers_of_10_row_eq:
  assumes "i < 637" and "j < 5"
  shows "powers_of_10_row i j =
           (case powers_of_10_rows ! i of (w0, w1, w2, w3, e) \<Rightarrow> [w0, w1, w2, w3, e] ! j)"
  unfolding powers_of_10_row_def powers_of_10_def
  using concat_quintuples_nth [of i powers_of_10_rows j] assms
  by (simp add: length_powers_of_10_rows split: prod.splits)

lemma row_307: "powers_of_10_rows ! 307 = (0xD06C32E5, 0x2B31E9E3, 0xB69561A5, 0xEC1E4A7D, 0x03FF)"
  by (simp add: powers_of_10_rows_def)

subsection \<open>Evaluation by rewriting\<close>

text \<open>
  The equations used to run the model on concrete inputs.  The recursive equations are
  applied under weak congruence rules and without case splitting, so that a call is
  unfolded only once its arguments are known.
\<close>


lemmas hpd_eval =
  DECIMAL_POINT_RANGE_def DIGITS_PRECISION_def SHIFT_MAX_INCL_def u64_def u32_def u32_sub_def s32_def s64_def
  UINT64_MAX_def trim.simps rounded_integer_def rounded_integer_loop.simps rounded_integer_round_up_def
  lshift_num_new_digits_def lshift_num_new_digits_loop.simps hpd_left_shift_def powers_of_5_def
  small_lshift_put_def small_lshift_pick_up.simps small_lshift_put_down.simps small_lshift_untrimmed_def
  small_lshift_def small_rshift_zeroes.simps small_rshift_pick_up.simps small_rshift_shift.simps
  small_rshift_put_down.simps small_rshift_def Let_def drop_bit_eq_div push_bit_eq_mult
  assign_def assign_loop.simps lshift_def lshift_left.simps lshift_right.simps round_down_def
  round_up_def round_up_loop.simps round_nearest_def round_just_enough_loop.simps round_just_enough_with_def digit_or_zero_def

lemmas render_eval =
  store_u24le_def store_u32le_def render_inf_def render_nan_def place_def sign_bytes_def separator_def
  digit_byte_def u32_of_int_def render_exponent_absent_def exponent_bytes_def render_exponent_present_def
  render_absent_format_def render_present_format_def render_general_format_def render_number_f64_def
  ch_def


lemmas parse_eval =
  ch_def bytes_of_def parse_sign_def parse_exponent_def exp_large_def high_prec_dec_parse_def

lemmas f64_eval =
  bitlen.simps f64_sign_def f64_exp_field_def f64_man_field_def f64_is_nan_def f64_is_inf_def
  f64_is_zero_def f64_sig_def f64_ex_def f64_sign_bits_def f64_nan_def f64_inf_def f64_round_pos_def
  f64_of_u64_def f64_neg_def f64_mul_def f64_div_def f64_key_def f64_ge_def f64_powers_of_10_def

lemmas mpb_eval =
  multiply_u64_def count_leading_zeroes_u64_def normalize_def mul_pow_10_hi_def mul_pow_10_lo_def
  mul_pow_10_def as_f64_def mpb_mantissa_loop.simps mpb_exact_def mpb_parse_number_f64_def

lemmas top_eval =
  powers_def num_powers_def f64_bias_def scale_right.simps scale_left.simps scale_subnormal.simps
  parse_zero_def parse_infinity_def parse_finish_def parse_number_f64_def
  is_char_def parse_special_token_def parse_number_f64_special_def


lemma let_weak_cong': "a = b \<Longrightarrow> Let a t = Let b t"
  by simp

lemmas eval_cong = if_weak_cong let_weak_cong' option.case_cong_weak prod.case_cong_weak
  sum.case_cong_weak list.case_cong_weak jump.case_cong_weak

subsection \<open>The special tokens\<close>

lemma parse_special_token_hd:
  assumes "parse_special_token p = Some (nan, p2)" and "p \<noteq> []"
  shows "hd p \<in> {ch CHR ''I'', ch CHR ''i'', ch CHR ''N'', ch CHR ''n''}"
proof (rule ccontr)
  assume "hd p \<notin> {ch CHR ''I'', ch CHR ''i'', ch CHR ''N'', ch CHR ''n''}"
  then have "\<not> is_char (hd p) CHR ''I'' CHR ''i''" and "\<not> is_char (hd p) CHR ''N'' CHR ''n''"
    by (auto simp: is_char_def)
  then have "parse_special_token p = None"
    by (simp add: parse_special_token_def)
  then show False using assms by simp
qed

lemma parse_digits_letter:
  assumes "c \<in> {ch CHR ''I'', ch CHR ''i'', ch CHR ''N'', ch CHR ''n''}"
  shows "parse_digits (c # cs) st = (None, st, c # cs)"
proof -
  obtain h nd dp sd snz sdot where st: "st = (h, nd, dp, sd, snz, sdot)"
    by (cases st) auto
  have "c = ch CHR ''I'' \<or> c = ch CHR ''i'' \<or> c = ch CHR ''N'' \<or> c = ch CHR ''n''"
    using assms by simp
  then show ?thesis unfolding st
    by (elim disjE) (simp_all add: ch_def split del: if_split)
qed

lemma special_accept_cases:
  assumes "parse_number_f64_special s (Some bad_argument) = (None, v)"
  obtains neg p1 nan p2 where
    "skip_underscores s \<noteq> []" and "parse_sign (skip_underscores s) = (neg, p1)"
    and "p1 \<noteq> []" and "parse_special_token p1 = Some (nan, p2)"
    and "v = (if nan then 0x7FFFFFFFFFFFFFFF else 0x7FF0000000000000)
             OR (if neg then 0x8000000000000000 else 0)"
proof -
  define p where "p = skip_underscores s"
  obtain neg p1 where ps: "parse_sign p = (neg, p1)" by (cases "parse_sign p") auto
  have pne: "p \<noteq> []"
  proof
    assume "p = []"
    then have "parse_number_f64_special s (Some bad_argument) = (Some bad_argument, 0)"
      by (simp add: parse_number_f64_special_def p_def [symmetric])
    then show False using assms by simp
  qed
  have p1ne: "p1 \<noteq> []"
  proof
    assume "p1 = []"
    then have "parse_number_f64_special s (Some bad_argument) = (Some bad_argument, 0)"
      using pne ps by (simp add: parse_number_f64_special_def p_def [symmetric])
    then show False using assms by simp
  qed
  have "parse_special_token p1 \<noteq> None"
  proof
    assume "parse_special_token p1 = None"
    then have "parse_number_f64_special s (Some bad_argument) = (Some bad_argument, 0)"
      using pne ps p1ne by (simp add: parse_number_f64_special_def p_def [symmetric])
    then show False using assms by simp
  qed
  then obtain nan p2 where tok: "parse_special_token p1 = Some (nan, p2)" by auto
  have "skip_underscores p2 = []"
  proof (rule ccontr)
    assume "skip_underscores p2 \<noteq> []"
    then have "parse_number_f64_special s (Some bad_argument) = (Some bad_argument, 0)"
      using pne ps p1ne tok by (simp add: parse_number_f64_special_def p_def [symmetric])
    then show False using assms by simp
  qed
  then have "parse_number_f64_special s (Some bad_argument) =
               (None, (if nan then 0x7FFFFFFFFFFFFFFF else 0x7FF0000000000000)
                      OR (if neg then 0x8000000000000000 else 0))"
    using pne ps p1ne tok by (simp add: parse_number_f64_special_def p_def [symmetric])
  then have "v = (if nan then 0x7FFFFFFFFFFFFFFF else 0x7FF0000000000000)
                 OR (if neg then 0x8000000000000000 else 0)"
    using assms by simp
  then show thesis using that pne ps p1ne tok unfolding p_def by blast
qed

lemma special_accepts_imp_hpd_rejects:
  assumes "parse_number_f64_special s (Some bad_argument) = (None, v)"
  shows "fst (high_prec_dec_parse (Some h0) s) = Some bad_argument"
proof -
  from assms obtain neg p1 nan p2 where
    pne: "skip_underscores s \<noteq> []" and ps: "parse_sign (skip_underscores s) = (neg, p1)"
    and p1ne: "p1 \<noteq> []" and tok: "parse_special_token p1 = Some (nan, p2)"
    by (rule special_accept_cases)
  obtain c cs where p1: "p1 = c # cs" using p1ne by (cases p1) auto
  have c: "c \<in> {ch CHR ''I'', ch CHR ''i'', ch CHR ''N'', ch CHR ''n''}"
    using parse_special_token_hd [OF tok p1ne] p1 by simp
  have pd: "parse_digits p1 st = (None, st, p1)" for st
    unfolding p1 by (rule parse_digits_letter [OF c])
  show ?thesis
    using pne ps
    by (simp add: high_prec_dec_parse_def Let_def pd del: parse_digits.simps)
qed

lemma special_value:
  assumes "parse_number_f64_special s (Some bad_argument) = (None, v)"
  shows "v = (if f64_is_nan v then 0x7FFFFFFFFFFFFFFF else 0x7FF0000000000000)
             + (if fst (parse_sign (skip_underscores s)) then 0x8000000000000000 else 0)"
proof -
  from assms obtain neg p1 nan p2 where
    ps: "parse_sign (skip_underscores s) = (neg, p1)"
    and v: "v = (if nan then 0x7FFFFFFFFFFFFFFF else 0x7FF0000000000000)
               OR (if neg then 0x8000000000000000 else 0)"
    by (rule special_accept_cases)
  have n1: "f64_is_nan 0x7FFFFFFFFFFFFFFF" and n2: "f64_is_nan 0xFFFFFFFFFFFFFFFF"
    and n3: "\<not> f64_is_nan 0x7FF0000000000000" and n4: "\<not> f64_is_nan 0xFFF0000000000000"
    by (simp_all add: f64_is_nan_def f64_exp_field_def f64_man_field_def drop_bit_eq_div)
  show ?thesis
  proof (cases nan; cases neg)
    assume "nan" "neg"
    then have "v = 0xFFFFFFFFFFFFFFFF" using v by simp
    then show ?thesis using n2 ps \<open>neg\<close> by simp
  next
    assume "nan" "\<not> neg"
    then have "v = 0x7FFFFFFFFFFFFFFF" using v by simp
    then show ?thesis using n1 ps \<open>\<not> neg\<close> by simp
  next
    assume "\<not> nan" "neg"
    then have "v = 0xFFF0000000000000" using v by simp
    then show ?thesis using n4 ps \<open>neg\<close> by simp
  next
    assume "\<not> nan" "\<not> neg"
    then have "v = 0x7FF0000000000000" using v by simp
    then show ?thesis using n3 ps \<open>\<not> neg\<close> by simp
  qed
qed

lemma render_number_f64_nan:
  assumes "f64_is_nan (u64 x)"
  shows "render_number_f64 fl stack dst x precision options = render_nan dst"
proof -
  have e: "drop_bit 52 (u64 x) AND 0x7FF = 0x7FF" and m: "u64 x AND 0x000FFFFFFFFFFFFF \<noteq> 0"
    using assms by (simp_all add: f64_is_nan_def f64_exp_field_def f64_man_field_def)
  have "int (drop_bit 52 (u64 x)) AND 0x7FF = int (drop_bit 52 (u64 x) AND 0x7FF)"
    by (simp add: of_nat_and_eq)
  then have e': "int (drop_bit 52 (u64 x)) AND 0x7FF = 0x7FF"
    using e by simp
  show ?thesis
    using e' m
    by (cases stack) (simp add: render_number_f64_def Let_def split del: if_split cong: eval_cong)
qed

lemma render_nan_bytes:
  "render_nan dst = (if length dst < 3 then (dst, 0) else (bytes_of ''NaN'' @ drop 3 dst, 3))"
  by (simp add: render_nan_def store_u24le_def bytes_of_def ch_def)

subsection \<open>Claim C6\<close>

text \<open>
  Claim C6, as the code has it.  An input that the special-token parser accepts as NaN
  makes \<^verbatim>\<open>parse_number_f64\<close> return the bit pattern \<open>0x7FFFFFFFFFFFFFFF\<close> with the sign
  bit set exactly when the input has a minus sign: two patterns, not one.
  \<^verbatim>\<open>render_number_f64\<close> treats every NaN argument alike, whatever its sign bit and
  payload: it writes the three bytes \<open>NaN\<close> at the start of the destination and returns
  3, or writes nothing and returns 0 when the destination is shorter than 3 bytes.
\<close>

theorem nan_parse_and_render:
  "(parse_number_f64_special s (Some bad_argument) = (None, v) \<and> f64_is_nan v \<longrightarrow>
      parse_number_f64 h0 s = Some (None, v)
      \<and> v = 0x7FFFFFFFFFFFFFFF
            + (if fst (parse_sign (skip_underscores s)) then 0x8000000000000000 else 0))
   \<and> (f64_is_nan (u64 x) \<longrightarrow>
        render_number_f64 fl stack dst x precision options = render_nan dst)
   \<and> render_nan dst =
       (if length dst < 3 then (dst, 0) else (bytes_of ''NaN'' @ drop 3 dst, 3))"
proof (intro conjI impI)
  assume a: "parse_number_f64_special s (Some bad_argument) = (None, v) \<and> f64_is_nan v"
  have "fst (high_prec_dec_parse (Some h0) s) = Some bad_argument"
    using a by (intro special_accepts_imp_hpd_rejects) simp
  then show "parse_number_f64 h0 s = Some (None, v)"
    using a by (cases "high_prec_dec_parse (Some h0) s") (simp add: parse_number_f64_def)
  show "v = 0x7FFFFFFFFFFFFFFF
            + (if fst (parse_sign (skip_underscores s)) then 0x8000000000000000 else 0)"
    using special_value [of s v] a by simp
next
  assume "f64_is_nan (u64 x)"
  then show "render_number_f64 fl stack dst x precision options = render_nan dst"
    by (rule render_number_f64_nan)
next
  show "render_nan dst =
       (if length dst < 3 then (dst, 0) else (bytes_of ''NaN'' @ drop 3 dst, 3))"
    by (rule render_nan_bytes)
qed

lemmas special_eval =
  ch_def bytes_of_def parse_sign_def is_char_def parse_special_token_def
  parse_number_f64_special_def Let_def

theorem nan_parse_and_render_witness:
  "parse_number_f64 hpd_zero (bytes_of ''_-_NaN_'') = Some (None, 0xFFFFFFFFFFFFFFFF)
   \<and> render_number_f64 example_flags (hpd_zero, hpd_zero, hpd_zero) [0, 0, 0, 0, 0]
         0xFFF8000000000001 7 0
       = (bytes_of ''NaN'' @ [0, 0], 3)"
proof -
  have s: "parse_number_f64_special (bytes_of ''_-_NaN_'') (Some bad_argument)
             = (None, 0xFFFFFFFFFFFFFFFF)"
    by (simp add: special_eval)
  have n: "f64_is_nan 0xFFFFFFFFFFFFFFFF" and n': "f64_is_nan (u64 0xFFF8000000000001)"
    by (simp_all add: f64_is_nan_def f64_exp_field_def f64_man_field_def drop_bit_eq_div u64_def)
  note T = nan_parse_and_render [of "bytes_of ''_-_NaN_''" "0xFFFFFFFFFFFFFFFF" hpd_zero
      "0xFFF8000000000001" example_flags "(hpd_zero, hpd_zero, hpd_zero)" "[0, 0, 0, 0, 0]" 7 0]
  have a: "parse_number_f64 hpd_zero (bytes_of ''_-_NaN_'') = Some (None, 0xFFFFFFFFFFFFFFFF)"
    using T s n by blast
  have "render_number_f64 example_flags (hpd_zero, hpd_zero, hpd_zero) [0, 0, 0, 0, 0]
          0xFFF8000000000001 7 0 = render_nan [0, 0, 0, 0, 0]"
    using T n' by blast
  moreover have "render_nan [0, 0, 0, 0, 0] = (bytes_of ''NaN'' @ [0, 0], 3)"
    using T by simp
  ultimately show ?thesis using a by simp
qed

text \<open>
  The claim as written fails on the parsing side: \<open>nan\<close> and \<open>-nan\<close> are both accepted
  as NaN and give different bit patterns.
\<close>

theorem nan_sign_counterexample:
  "parse_number_f64 hpd_zero (bytes_of ''nan'') = Some (None, 0x7FFFFFFFFFFFFFFF)
   \<and> parse_number_f64 hpd_zero (bytes_of ''-nan'') = Some (None, 0xFFFFFFFFFFFFFFFF)"
  by (simp add: parse_number_f64_def high_prec_dec_parse_def special_eval
        split del: if_split cong: eval_cong)

subsection \<open>Claim C3\<close>

lemma place_agree:
  assumes "same_layout_options fl o1 o0"
  shows "place fl dst o1 n out = place fl dst o0 n out"
  using assms unfolding same_layout_options_def place_def by simp

lemma sign_bytes_agree:
  assumes "same_layout_options fl o1 o0"
  shows "sign_bytes fl h o1 = sign_bytes fl h o0"
  using assms unfolding same_layout_options_def sign_bytes_def by simp

lemma separator_agree:
  assumes "same_layout_options fl o1 o0"
  shows "separator fl o1 = separator fl o0"
  using assms unfolding same_layout_options_def separator_def by simp

lemma render_exponent_absent_agree:
  assumes "same_layout_options fl o1 o0"
  shows "render_exponent_absent fl dst h p o1 = render_exponent_absent fl dst h p o0"
proof -
  have l: "o1 AND LEADING_PLUS_SIGN fl = o0 AND LEADING_PLUS_SIGN fl"
    using assms by (simp add: same_layout_options_def)
  show ?thesis
    unfolding render_exponent_absent_def
    by (simp only: place_agree [OF assms] sign_bytes_agree [OF assms] separator_agree [OF assms] l)
qed

lemma render_exponent_present_agree:
  assumes "same_layout_options fl o1 o0"
  shows "render_exponent_present fl dst h p o1 = render_exponent_present fl dst h p o0"
proof -
  have l: "o1 AND LEADING_PLUS_SIGN fl = o0 AND LEADING_PLUS_SIGN fl"
    using assms by (simp add: same_layout_options_def)
  show ?thesis
    unfolding render_exponent_present_def
    by (simp only: place_agree [OF assms] sign_bytes_agree [OF assms] separator_agree [OF assms] l)
qed

lemma render_general_format_agree:
  assumes "same_layout_options fl o1 o0"
  shows "render_general_format fl st dst h e2 man p o1 = render_general_format fl st dst h e2 man p o0"
proof -
  have j: "o1 AND JUST_ENOUGH_PRECISION fl = o0 AND JUST_ENOUGH_PRECISION fl"
    using assms by (simp add: same_layout_options_def)
  show ?thesis
    unfolding render_general_format_def
    by (simp only: render_exponent_absent_agree [OF assms] render_exponent_present_agree [OF assms] j)
qed

lemma render_inf_agree:
  assumes "same_layout_options fl o1 o0"
  shows "render_inf fl dst neg o1 = render_inf fl dst neg o0"
  using assms unfolding same_layout_options_def render_inf_def by simp

text \<open>
  Claim C3, as the code has it.  The \<^verbatim>\<open>switch\<close> of \<^verbatim>\<open>render_number_f64\<close> tests the two
  exponent bits for \<^verbatim>\<open>EXPONENT_ABSENT\<close> alone and for \<^verbatim>\<open>EXPONENT_PRESENT\<close> alone.  With both
  flags set (two different non-zero flags, neither containing the other) it takes neither
  case: for every \<open>x\<close> and every precision the output is that of the general format, the
  same as with neither flag set and the other option bits unchanged.
\<close>

theorem render_both_exponent_flags:
  assumes "o1 AND (EXPONENT_ABSENT fl OR EXPONENT_PRESENT fl)
             = EXPONENT_ABSENT fl OR EXPONENT_PRESENT fl"
    and "o0 AND (EXPONENT_ABSENT fl OR EXPONENT_PRESENT fl) = 0"
    and "EXPONENT_ABSENT fl \<noteq> 0" and "EXPONENT_PRESENT fl \<noteq> 0"
    and "EXPONENT_ABSENT fl OR EXPONENT_PRESENT fl \<noteq> EXPONENT_ABSENT fl"
    and "EXPONENT_ABSENT fl OR EXPONENT_PRESENT fl \<noteq> EXPONENT_PRESENT fl"
    and "same_layout_options fl o1 o0"
  shows "render_number_f64 fl stack dst x precision o1
           = render_number_f64 fl stack dst x precision o0"
proof -
  obtain h0 lu where stack: "stack = (h0, lu)" by (cases stack) auto
  have n0: "0 \<noteq> EXPONENT_ABSENT fl" "0 \<noteq> EXPONENT_PRESENT fl"
    using assms(3,4) by auto
  show ?thesis
    unfolding render_number_f64_def stack
    by (simp only: assms(1,2,5,6) n0 render_general_format_agree [OF assms(7)]
          render_inf_agree [OF assms(7)] if_False prod.case Let_def)
qed

theorem render_both_exponent_flags_witness:
  "render_number_f64 example_flags (hpd_zero, hpd_zero, hpd_zero) [0, 0, 0, 0, 0, 0, 0, 0] 0 2 0x600
     = render_number_f64 example_flags (hpd_zero, hpd_zero, hpd_zero) [0, 0, 0, 0, 0, 0, 0, 0] 0 2 0"
proof -
  have a: "0x600 AND (EXPONENT_ABSENT example_flags OR EXPONENT_PRESENT example_flags)
             = EXPONENT_ABSENT example_flags OR EXPONENT_PRESENT example_flags"
    and b: "0 AND (EXPONENT_ABSENT example_flags OR EXPONENT_PRESENT example_flags) = 0"
    and c: "EXPONENT_ABSENT example_flags \<noteq> 0" "EXPONENT_PRESENT example_flags \<noteq> 0"
    and d: "EXPONENT_ABSENT example_flags OR EXPONENT_PRESENT example_flags
              \<noteq> EXPONENT_ABSENT example_flags"
      "EXPONENT_ABSENT example_flags OR EXPONENT_PRESENT example_flags
              \<noteq> EXPONENT_PRESENT example_flags"
    and e: "same_layout_options example_flags 0x600 0"
    by (simp_all add: example_flags_def same_layout_options_def)
  show ?thesis
    by (rule render_both_exponent_flags [OF a b c d e])
qed

text \<open>
  The claim as written fails: for \<open>+0.0\<close> and precision 2, the \<^verbatim>\<open>EXPONENT_ABSENT\<close> flag
  alone gives \<open>0.00\<close>, both flags give \<open>0\<close>.
\<close>

theorem render_both_exponent_flags_counterexample:
  "render_number_f64 example_flags (hpd_zero, hpd_zero, hpd_zero) [0, 0, 0, 0, 0, 0, 0, 0] 0 2 0x600
     = (bytes_of ''0'' @ [0, 0, 0, 0, 0, 0, 0], 1)
   \<and> render_number_f64 example_flags (hpd_zero, hpd_zero, hpd_zero) [0, 0, 0, 0, 0, 0, 0, 0] 0 2 0x200
     = (bytes_of ''0.00'' @ [0, 0, 0, 0], 4)"
  by (simp add: render_eval hpd_eval example_flags_def hpd_zero_def hpd_of_def bytes_of_def
        upt_conv_Cons split del: if_split cong: eval_cong)

subsection \<open>Claim C2\<close>

lemma row_307_words:
  "powers_of_10_row 307 2 = 0xB69561A5" "powers_of_10_row 307 3 = 0xEC1E4A7D"
  "powers_of_10_row 307 4 = 0x03FF"
  by (simp_all add: powers_of_10_row_eq row_307)

text \<open>
  Claim C2 fails on the slow path.  The input \<open>0.25000000000000002776\<close> lies above the
  midpoint of the neighbouring doubles \<open>4503599627370496 / 2^54\<close> (which is \<open>0.25\<close>, bits
  \<open>0x3FD0000000000000\<close>) and \<open>4503599627370497 / 2^54\<close> (bits \<open>0x3FD0000000000001\<close>), so
  the nearest double is the second.  The code returns the first: with leading digit 2 the
  scaling loop shifts left by two bits (\<^verbatim>\<open>h.digits[0] <= 2\<close>), which takes the value to
  \<open>1.00000000000000011104\<close>, outside the range \<open>[1/2, 1)\<close> the following steps rely on;
  the 54-bit integer \<open>9007199254740993\<close> is then halved by \<^verbatim>\<open>man2 >>= 1\<close> and its low bit is
  lost.
\<close>

theorem parse_number_f64_misrounds:
  "parse_number_f64 hpd_zero (bytes_of ''0.25000000000000002776'')
     = Some (None, 0x3FD0000000000000)
   \<and> f64_round_pos 25000000000000002776 (10 ^ 20) = 0x3FD0000000000001
   \<and> (4503599627370496 + 4503599627370497) * (10::nat) ^ 20
       < 2 * (25000000000000002776 * 2 ^ 54)"
  by (simp add: hpd_eval parse_eval mpb_eval row_307_words f64_eval top_eval hpd_zero_def
        hpd_of_def bytes_of_def ch_def split del: if_split cong: eval_cong)

subsection \<open>Claim C1\<close>

lemma row_308: "powers_of_10_rows ! 308 = (0x62439FCF, 0x3AFF322E, 0x921D5D07, 0x9392EE8E, 0x0403)"
  by (simp add: powers_of_10_rows_def)

lemma row_308_words:
  "powers_of_10_row 308 2 = 0x921D5D07" "powers_of_10_row 308 3 = 0x9392EE8E"
  "powers_of_10_row 308 4 = 0x0403"
  by (simp_all add: powers_of_10_row_eq row_308)

text \<open>
  The steps of rendering the double with bits \<open>0x3F72FBD22A518E89\<close>, whose mantissa is
  \<open>5343429652483721\<close> and whose exponent is \<open>-8\<close>: the exact decimal expansions of the
  value and of the two half-way points to its neighbours, and the digits that
  \<^verbatim>\<open>round_just_enough\<close> keeps.
\<close>

lemma render_step_assign: "num_digits (assign hpd_zero 5343429652483721 False) = 16"
  by (simp add: hpd_eval hpd_zero_def hpd_of_def digits_of_list_def del: One_nat_def
        split del: if_split cong: eval_cong)

lemma render_step_value:
  "lshift (assign hpd_zero 5343429652483721 False) (- 60) =
     \<lparr>num_digits = 58, decimal_point = - 2, negative = False, truncated = False,
        digits = (digits (assign hpd_zero 5343429652483721 False))
         (0 := 4, 1 := 6, 2 := 3, 3 := 4, 4 := 6, 5 := 8, 6 := 6, 7 := 4, 8 := 3, 9 := 0,
          10 := 1, 11 := 9, 12 := 7, 13 := 0, 14 := 5, 15 := 1, 16 := 4, 17 := 3, 18 := 3, 19 := 5,
          20 := 4, 21 := 3, 22 := 8, 23 := 0, 24 := 8, 25 := 9, 26 := 4, 27 := 0, 28 := 3, 29 := 8,
          30 := 5, 31 := 1, 32 := 3, 33 := 3, 34 := 6, 35 := 1, 36 := 0, 37 := 1, 38 := 0, 39 := 7,
          40 := 0, 41 := 0, 42 := 4, 43 := 6, 44 := 4, 45 := 2, 46 := 4, 47 := 8, 48 := 6, 49 := 5,
          50 := 7, 51 := 2, 52 := 2, 53 := 6, 54 := 5, 55 := 6, 56 := 2, 57 := 5)\<rparr>"
  by (simp add: hpd_eval hpd_zero_def hpd_of_def digits_of_list_def del: One_nat_def
        split del: if_split cong: eval_cong)

lemma render_step_lower:
  "lshift (assign hpd_zero 10686859304967441 False) (- 61) =
     \<lparr>num_digits = 59, decimal_point = - 2, negative = False, truncated = False,
        digits = (digits (assign hpd_zero 10686859304967441 False))
         (0 := 4, 1 := 6, 2 := 3, 3 := 4, 4 := 6, 5 := 8, 6 := 6, 7 := 4, 8 := 3, 9 := 0,
          10 := 1, 11 := 9, 12 := 7, 13 := 0, 14 := 5, 15 := 0, 16 := 9, 17 := 9, 18 := 9, 19 := 8,
          20 := 6, 21 := 2, 22 := 9, 23 := 3, 24 := 9, 25 := 9, 26 := 4, 27 := 6, 28 := 1, 29 := 8,
          30 := 3, 31 := 3, 32 := 6, 33 := 0, 34 := 0, 35 := 0, 36 := 7, 37 := 1, 38 := 2, 39 := 5,
          40 := 8, 41 := 8, 42 := 4, 43 := 2, 44 := 9, 45 := 4, 46 := 5, 47 := 0, 48 := 9, 49 := 8,
          50 := 8, 51 := 7, 52 := 6, 53 := 9, 54 := 5, 55 := 3, 56 := 1, 57 := 2, 58 := 5)\<rparr>"
  by (simp add: hpd_eval hpd_zero_def hpd_of_def digits_of_list_def del: One_nat_def
        split del: if_split cong: eval_cong)

lemma render_step_upper:
  "lshift (assign hpd_zero 10686859304967443 False) (- 61) =
     \<lparr>num_digits = 59, decimal_point = - 2, negative = False, truncated = False,
        digits = (digits (assign hpd_zero 10686859304967443 False))
         (0 := 4, 1 := 6, 2 := 3, 3 := 4, 4 := 6, 5 := 8, 6 := 6, 7 := 4, 8 := 3, 9 := 0,
          10 := 1, 11 := 9, 12 := 7, 13 := 0, 14 := 5, 15 := 1, 16 := 8, 17 := 6, 18 := 7, 19 := 2,
          20 := 2, 21 := 4, 22 := 6, 23 := 7, 24 := 7, 25 := 9, 26 := 3, 27 := 4, 28 := 5, 29 := 8,
          30 := 6, 31 := 9, 32 := 0, 33 := 7, 34 := 2, 35 := 1, 36 := 3, 37 := 0, 38 := 8, 39 := 8,
          40 := 1, 41 := 2, 42 := 4, 43 := 9, 44 := 9, 45 := 0, 46 := 4, 47 := 6, 48 := 3, 49 := 2,
          50 := 5, 51 := 6, 52 := 8, 53 := 3, 54 := 5, 55 := 9, 56 := 3, 57 := 7, 58 := 5)\<rparr>"
  by (simp add: hpd_eval hpd_zero_def hpd_of_def digits_of_list_def del: One_nat_def
        split del: if_split cong: eval_cong)

lemma render_step_round:
  "round_just_enough_with (hpd_zero, hpd_zero)
     (lshift (assign hpd_zero 5343429652483721 False) (- 60)) (- 8) 5343429652483721 =
     \<lparr>num_digits = 16, decimal_point = - 2, negative = False, truncated = False,
        digits = (digits (assign hpd_zero 5343429652483721 False))
         (0 := 4, 1 := 6, 2 := 3, 3 := 4, 4 := 6, 5 := 8, 6 := 6, 7 := 4, 8 := 3, 9 := 0,
          10 := 1, 11 := 9, 12 := 7, 13 := 0, 14 := 5, 15 := 1, 16 := 4, 17 := 3, 18 := 3, 19 := 5,
          20 := 4, 21 := 3, 22 := 8, 23 := 0, 24 := 8, 25 := 9, 26 := 4, 27 := 0, 28 := 3, 29 := 8,
          30 := 5, 31 := 1, 32 := 3, 33 := 3, 34 := 6, 35 := 1, 36 := 0, 37 := 1, 38 := 0, 39 := 7,
          40 := 0, 41 := 0, 42 := 4, 43 := 6, 44 := 4, 45 := 2, 46 := 4, 47 := 8, 48 := 6, 49 := 5,
          50 := 7, 51 := 2, 52 := 2, 53 := 6, 54 := 5, 55 := 6, 56 := 2, 57 := 5)\<rparr>"
  by (simp add: round_just_enough_with_def render_step_value render_step_lower render_step_upper
        u64_def round_just_enough_loop.simps digit_or_zero_def round_nearest_def round_up_def
        round_down_def round_up_loop.simps trim.simps Let_def
        del: One_nat_def split del: if_split cong: eval_cong)

lemma render_step_bytes:
  "render_number_f64 example_flags (hpd_zero, hpd_zero, hpd_zero) (replicate 20 0)
     4571993451806166665 0 0x800 = (bytes_of ''0.004634686430197051'', 20)"
  by (simp add: render_number_f64_def render_general_format_def render_exponent_absent_def
        render_step_assign render_step_round example_flags_def place_def sign_bytes_def
        separator_def digit_byte_def u32_of_int_def u32_def u64_def s32_def ch_def bytes_of_def
        drop_bit_eq_div Let_def upt_conv_Cons
        split del: if_split cong: eval_cong)

text \<open>
  Claim C1 fails.  Under \<^verbatim>\<open>JUST_ENOUGH_PRECISION\<close> the double with bits
  \<open>4571993451806166665\<close> is rendered as \<open>0.004634686430197051\<close>, a decimal whose nearest
  double it is; parsing these bytes gives the double one below.  The parser takes the slow
  path, where a value in \<open>[0.25, 0.3)\<close> is shifted left by two bits instead of one
  (\<^verbatim>\<open>h.digits[0] <= 2\<close>) and the low bit of the 54-bit integer that follows is dropped.
\<close>

theorem render_then_parse_changes_bits:
  "render_number_f64 example_flags (hpd_zero, hpd_zero, hpd_zero) (replicate 20 0)
     4571993451806166665 0 0x800 = (bytes_of ''0.004634686430197051'', 20)
   \<and> parse_number_f64 hpd_zero (bytes_of ''0.004634686430197051'')
       = Some (None, 4571993451806166664)
   \<and> f64_round_pos 4634686430197051 (10 ^ 18) = 4571993451806166665"
proof -
  have "parse_number_f64 hpd_zero (bytes_of ''0.004634686430197051'')
          = Some (None, 4571993451806166664)
        \<and> f64_round_pos 4634686430197051 (10 ^ 18) = 4571993451806166665"
    by (simp add: hpd_eval parse_eval mpb_eval row_308_words f64_eval top_eval hpd_zero_def
          hpd_of_def bytes_of_def ch_def split del: if_split cong: eval_cong)
  with render_step_bytes show ?thesis
    by blast
qed

subsection \<open>Claim C7\<close>

lemma skip_underscores_append:
  assumes "set us \<subseteq> {ch CHR ''_''}"
  shows "skip_underscores (us @ xs) = skip_underscores xs"
  using assms by (induction us) auto

lemma skip_underscores_stop:
  assumes "c \<noteq> ch CHR ''_''"
  shows "skip_underscores (c # xs) = c # xs"
  using assms by simp

lemma parse_digits_underscores:
  assumes "set us \<subseteq> {ch CHR ''_''}"
  shows "parse_digits (us @ xs) st = parse_digits xs st"
  using assms
proof (induction us)
  case Nil
  then show ?case by simp
next
  case (Cons u us)
  obtain h nd dp sd snz sdot where st: "st = (h, nd, dp, sd, snz, sdot)"
    by (cases st) auto
  from Cons.prems have u: "u = ch CHR ''_''" and us: "set us \<subseteq> {ch CHR ''_''}"
    by auto
  have "parse_digits ((u # us) @ xs) st = parse_digits (us @ xs) st"
    unfolding st u by simp
  then show ?case using Cons.IH [OF us] by simp
qed

lemma parse_digits_zero_digit:
  assumes us: "set us \<subseteq> {ch CHR ''_''}" and d: "ch CHR ''0'' \<le> d" "d \<le> ch CHR ''9''"
  shows "fst (parse_digits (ch CHR ''0'' # us @ d # rest) (h, 0, 0, False, False, False))
           = Some bad_argument"
proof -
  have z: "ch CHR ''0'' \<noteq> ch CHR ''_''" "ch CHR ''0'' \<noteq> ch CHR ''.''"
    "ch CHR ''0'' \<noteq> ch CHR '',''"
    by (simp_all add: ch_def)
  have dn: "d \<noteq> ch CHR ''_''" "d \<noteq> ch CHR ''.''" "d \<noteq> ch CHR '',''"
    using d by (auto simp: ch_def)
  have first: "parse_digits (ch CHR ''0'' # us @ d # rest) (h, 0, 0, False, False, False)
                 = parse_digits (us @ d # rest) (h, 0, - 1, True, False, False)"
    using z by simp
  have second: "fst (parse_digits (d # rest) (h, 0, - 1, True, False, False)) = Some bad_argument"
  proof (cases "d = ch CHR ''0''")
    case True
    then show ?thesis using z by simp
  next
    case False
    then have "ch CHR ''0'' < d" using d by simp
    then show ?thesis using dn d False by simp
  qed
  show ?thesis
    unfolding first parse_digits_underscores [OF us] by (rule second)
qed

lemma parse_sign_zero:
  "parse_sign (ch CHR ''0'' # xs) = (False, ch CHR ''0'' # xs)"
  by (simp add: parse_sign_def ch_def)

lemma parse_special_token_zero: "parse_special_token (ch CHR ''0'' # xs) = None"
  by (simp add: parse_special_token_def is_char_def ch_def)

text \<open>
  The bytes before the first digit: underscores, an optional sign and, after a sign, more
  underscores.  Both parsers read them alike.
\<close>

lemma number_prefix:
  assumes "set us1 \<subseteq> {ch CHR ''_''}" and "set us2 \<subseteq> {ch CHR ''_''}"
    and "sign \<in> {[], [ch CHR ''+''], [ch CHR ''-'']}"
  shows "skip_underscores (us1 @ sign @ us2 @ ch CHR ''0'' # xs) \<noteq> []
         \<and> snd (parse_sign (skip_underscores (us1 @ sign @ us2 @ ch CHR ''0'' # xs)))
             = ch CHR ''0'' # xs"
proof -
  have z: "ch CHR ''0'' \<noteq> ch CHR ''_''" "ch CHR ''+'' \<noteq> ch CHR ''_''"
    "ch CHR ''-'' \<noteq> ch CHR ''_''" "ch CHR ''-'' \<noteq> ch CHR ''+''"
    by (simp_all add: ch_def)
  have tail: "skip_underscores (us2 @ ch CHR ''0'' # xs) = ch CHR ''0'' # xs"
    using z by (simp add: skip_underscores_append [OF assms(2)])
  consider "sign = []" | "sign = [ch CHR ''+'']" | "sign = [ch CHR ''-'']"
    using assms(3) by auto
  then show ?thesis
  proof cases
    case 1
    then have "skip_underscores (us1 @ sign @ us2 @ ch CHR ''0'' # xs) = ch CHR ''0'' # xs"
      using tail by (simp add: skip_underscores_append [OF assms(1)])
    then show ?thesis by (simp add: parse_sign_zero)
  next
    case 2
    then have "skip_underscores (us1 @ sign @ us2 @ ch CHR ''0'' # xs)
                 = ch CHR ''+'' # us2 @ ch CHR ''0'' # xs"
      using z by (simp add: skip_underscores_append [OF assms(1)])
    then show ?thesis using tail by (simp add: parse_sign_def)
  next
    case 3
    then have "skip_underscores (us1 @ sign @ us2 @ ch CHR ''0'' # xs)
                 = ch CHR ''-'' # us2 @ ch CHR ''0'' # xs"
      using z by (simp add: skip_underscores_append [OF assms(1)])
    then show ?thesis using tail z by (simp add: parse_sign_def)
  qed
qed

lemma leading_zero_hpd_parse:
  assumes "set us1 \<subseteq> {ch CHR ''_''}" and "set us2 \<subseteq> {ch CHR ''_''}"
    and "set us3 \<subseteq> {ch CHR ''_''}"
    and "sign \<in> {[], [ch CHR ''+''], [ch CHR ''-'']}"
    and "ch CHR ''0'' \<le> d" and "d \<le> ch CHR ''9''"
  shows "fst (high_prec_dec_parse (Some h0) (us1 @ sign @ us2 @ ch CHR ''0'' # us3 @ d # rest))
           = Some bad_argument"
proof -
  define s where "s = us1 @ sign @ us2 @ ch CHR ''0'' # us3 @ d # rest"
  define p1 where "p1 = ch CHR ''0'' # us3 @ d # rest"
  obtain neg q where ps: "parse_sign (skip_underscores s) = (neg, q)"
    by (cases "parse_sign (skip_underscores s)") auto
  have ne: "skip_underscores s \<noteq> []" and q: "q = p1"
    using number_prefix [OF assms(1,2,4), of "us3 @ d # rest"] ps
    unfolding s_def p1_def by simp_all
  have pd: "fst (parse_digits p1 (h, 0, 0, False, False, False)) = Some bad_argument" for h
    unfolding p1_def by (rule parse_digits_zero_digit [OF assms(3,5,6)])
  define h1 where "h1 = (if neg
      then h0\<lparr>num_digits := 0, decimal_point := 0, negative := False, truncated := False,
              negative := True\<rparr>
      else h0\<lparr>num_digits := 0, decimal_point := 0, negative := False, truncated := False\<rparr>)"
  obtain st loc p2 where r: "parse_digits p1 (h1, 0, 0, False, False, False) = (st, loc, p2)"
    by (cases "parse_digits p1 (h1, 0, 0, False, False, False)") auto
  have st: "st = Some bad_argument" using pd [of h1] r by simp
  obtain h2 nd dp sd snz sdot where loc: "loc = (h2, nd, dp, sd, snz, sdot)"
    by (cases loc) auto
  have "high_prec_dec_parse (Some h0) s = (Some bad_argument, Some h2)"
    using ne ps q r st loc
    by (simp add: high_prec_dec_parse_def Let_def h1_def del: parse_digits.simps
          split del: if_split cong: if_weak_cong)
  then show ?thesis unfolding s_def by simp
qed

lemma leading_zero_special:
  assumes "set us1 \<subseteq> {ch CHR ''_''}" and "set us2 \<subseteq> {ch CHR ''_''}"
    and "sign \<in> {[], [ch CHR ''+''], [ch CHR ''-'']}"
  shows "parse_number_f64_special (us1 @ sign @ us2 @ ch CHR ''0'' # xs) st = (st, 0)"
proof -
  define s where "s = us1 @ sign @ us2 @ ch CHR ''0'' # xs"
  obtain neg q where ps: "parse_sign (skip_underscores s) = (neg, q)"
    by (cases "parse_sign (skip_underscores s)") auto
  have ne: "skip_underscores s \<noteq> []" and q: "q = ch CHR ''0'' # xs"
    using number_prefix [OF assms, of xs] ps unfolding s_def by simp_all
  show ?thesis
    using ne ps q unfolding s_def [symmetric]
    by (simp add: parse_number_f64_special_def Let_def parse_special_token_zero)
qed

lemma row_325: "powers_of_10_rows ! 325 = (0xCCCCCCCC, 0xCCCCCCCC, 0xCCCCCCCC, 0xCCCCCCCC, 0x043B)"
  by (simp add: powers_of_10_rows_def)

lemma row_325_words:
  "powers_of_10_row 325 2 = 0xCCCCCCCC" "powers_of_10_row 325 3 = 0xCCCCCCCC"
  "powers_of_10_row 325 4 = 0x043B"
  by (simp_all add: powers_of_10_row_eq row_325)

lemma parse_single_zero:
  "parse_number_f64 h0 (bytes_of ''0'') = Some (None, 0)"
  by (simp add: hpd_eval parse_eval top_eval del: One_nat_def split del: if_split cong: eval_cong)

lemma parse_zero_point_five:
  "parse_number_f64 h0 (bytes_of ''0.5'') = Some (None, 0x3FE0000000000000)"
  by (simp add: hpd_eval parse_eval mpb_eval row_325_words f64_eval top_eval
        del: One_nat_def split del: if_split cong: eval_cong)

lemma parse_seven_comma_five:
  "parse_number_f64 h0 (bytes_of ''7,5'') = Some (None, 0x401E000000000000)"
  by (simp add: hpd_eval parse_eval mpb_eval row_325_words f64_eval top_eval
        del: One_nat_def split del: if_split cong: eval_cong)

text \<open>
  Claim C7.  An input made of underscores, an optional sign, underscores, the digit 0,
  underscores (which the parser ignores everywhere), a second digit and any further bytes
  is rejected with \<^verbatim>\<open>bad_argument\<close> and the value \<open>+0.0\<close> (all bits zero).  A single 0
  before the separator is accepted: \<open>0\<close> gives \<open>+0.0\<close>, \<open>0.5\<close> gives the bits of 0.5, and \<open>7,5\<close> the bits of
  7.5.
\<close>

theorem leading_zeroes_rejected:
  assumes "set us1 \<subseteq> {ch CHR ''_''}" and "set us2 \<subseteq> {ch CHR ''_''}"
    and "set us3 \<subseteq> {ch CHR ''_''}"
    and "sign \<in> {[], [ch CHR ''+''], [ch CHR ''-'']}"
    and "ch CHR ''0'' \<le> d" and "d \<le> ch CHR ''9''"
  shows "parse_number_f64 h0 (us1 @ sign @ us2 @ ch CHR ''0'' # us3 @ d # rest)
           = Some (Some bad_argument, 0)
         \<and> parse_number_f64 h0 (bytes_of ''0'') = Some (None, 0)
         \<and> parse_number_f64 h0 (bytes_of ''0.5'') = Some (None, 0x3FE0000000000000)
         \<and> parse_number_f64 h0 (bytes_of ''7,5'') = Some (None, 0x401E000000000000)"
proof -
  define s where "s = us1 @ sign @ us2 @ ch CHR ''0'' # us3 @ d # rest"
  obtain st hp where r: "high_prec_dec_parse (Some h0) s = (st, hp)"
    by (cases "high_prec_dec_parse (Some h0) s") auto
  have st: "st = Some bad_argument"
    using leading_zero_hpd_parse [OF assms, of h0 rest] r unfolding s_def by simp
  have sp: "parse_number_f64_special s (Some bad_argument) = (Some bad_argument, 0)"
    unfolding s_def by (rule leading_zero_special [OF assms(1,2,4)])
  have "parse_number_f64 h0 s = Some (Some bad_argument, 0)"
    using r st sp by (simp add: parse_number_f64_def)
  then show ?thesis
    unfolding s_def using parse_single_zero parse_zero_point_five parse_seven_comma_five by simp
qed

theorem leading_zeroes_rejected_witness:
  "parse_number_f64 hpd_zero (bytes_of ''007'') = Some (Some bad_argument, 0)
   \<and> parse_number_f64 hpd_zero (bytes_of ''00.5'') = Some (Some bad_argument, 0)
   \<and> parse_number_f64 hpd_zero (bytes_of ''-_0644'') = Some (Some bad_argument, 0)
   \<and> parse_number_f64 hpd_zero (bytes_of ''0'') = Some (None, 0)
   \<and> parse_number_f64 hpd_zero (bytes_of ''0.5'') = Some (None, 0x3FE0000000000000)
   \<and> parse_number_f64 hpd_zero (bytes_of ''7,5'') = Some (None, 0x401E000000000000)"
proof -
  have a: "set [] \<subseteq> {ch CHR ''_''}" and b: "set [ch CHR ''_''] \<subseteq> {ch CHR ''_''}"
    and s0: "[] \<in> {[], [ch CHR ''+''], [ch CHR ''-'']}"
    and s1: "[ch CHR ''-''] \<in> {[], [ch CHR ''+''], [ch CHR ''-'']}"
    and d0: "ch CHR ''0'' \<le> ch CHR ''0''" "ch CHR ''0'' \<le> ch CHR ''9''"
    and d6: "ch CHR ''0'' \<le> ch CHR ''6''" "ch CHR ''6'' \<le> ch CHR ''9''"
    by (simp_all add: ch_def)
  note t1 = leading_zeroes_rejected [OF a a a s0 d0, of hpd_zero "[ch CHR ''7'']"]
  note t2 = leading_zeroes_rejected [OF a a a s0 d0, of hpd_zero "[ch CHR ''.'', ch CHR ''5'']"]
  note t3 = leading_zeroes_rejected [OF a b a s1 d6, of hpd_zero "[ch CHR ''4'', ch CHR ''4'']"]
  from t1 t2 t3 show ?thesis
    by (simp add: bytes_of_def)
qed

subsection \<open>The invariant: trim and rounding\<close>

lemma hpd_digits_ok_iff:
  "hpd_digits_ok h \<longleftrightarrow>
     num_digits h \<le> DIGITS_PRECISION \<and> (\<forall>i<num_digits h. digits h i \<le> 9)"
  by (simp add: hpd_digits_ok_def list_all_length)

lemma trim_invariant:
  assumes "hpd_digits_ok h"
  shows "hpd_invariant (trim h)"
  using assms
proof (induction h rule: trim.induct)
  case (1 h)
  show ?case
  proof (cases "num_digits h > 0 \<and> digits h (num_digits h - 1) = 0")
    case True
    then have t: "trim h = trim (h\<lparr>num_digits := num_digits h - 1\<rparr>)"
      by (subst trim.simps) simp
    have "hpd_digits_ok (h\<lparr>num_digits := num_digits h - 1\<rparr>)"
      using "1.prems" by (auto simp: hpd_digits_ok_iff)
    then show ?thesis using "1.IH" [OF True] t by simp
  next
    case False
    then have "trim h = h" by (subst trim.simps) auto
    then show ?thesis using False "1.prems" by (auto simp: hpd_invariant_def hpd_trimmed_def)
  qed
qed

lemma round_down_invariant:
  assumes "hpd_invariant h"
  shows "hpd_invariant (round_down h n)"
proof (cases "n < 0 \<or> int (num_digits h) \<le> n")
  case True
  then show ?thesis using assms by (simp add: round_down_def)
next
  case False
  then have "hpd_digits_ok (h\<lparr>num_digits := nat n\<rparr>)"
    using assms by (auto simp: hpd_invariant_def hpd_digits_ok_iff)
  then show ?thesis using False by (simp add: round_down_def trim_invariant)
qed

lemma round_up_loop_invariant:
  assumes "hpd_digits_ok h" and "n < int (num_digits h)"
  shows "hpd_invariant (round_up_loop h n)"
  using assms
proof (induction h n rule: round_up_loop.induct)
  case (1 h n)
  have ok: "num_digits h \<le> DIGITS_PRECISION" "\<And>i. i < num_digits h \<Longrightarrow> digits h i \<le> 9"
    using "1.prems"(1) by (simp_all add: hpd_digits_ok_iff)
  show ?case
  proof (cases "n \<ge> 0")
    case False
    then have "round_up_loop h n = h\<lparr>digits := (digits h)(0 := 1), num_digits := 1,
        decimal_point := decimal_point h + 1\<rparr>"
      by (subst round_up_loop.simps) simp
    then show ?thesis
      by (simp add: hpd_invariant_def hpd_trimmed_def hpd_digits_ok_iff DIGITS_PRECISION_def)
  next
    case True
    show ?thesis
    proof (cases "digits h (nat n) < 9")
      case lt: True
      have r: "round_up_loop h n = h\<lparr>digits := (digits h)(nat n := (digits h (nat n) + 1) mod 256),
          num_digits := nat (n + 1)\<rparr>"
        using True lt by (subst round_up_loop.simps) simp
      have m: "(digits h (nat n) + 1) mod 256 = digits h (nat n) + 1"
        using lt by simp
      have n1: "nat (n + 1) = Suc (nat n)" using True by simp
      have le: "Suc (nat n) \<le> num_digits h" using "1.prems"(2) True by simp
      show ?thesis
        unfolding r m n1 using lt ok le
        by (auto simp: hpd_invariant_def hpd_trimmed_def hpd_digits_ok_iff)
    next
      case ge: False
      have r: "round_up_loop h n = round_up_loop h (n - 1)"
        using True ge by (subst round_up_loop.simps) simp
      show ?thesis
        unfolding r using "1.IH" [OF True ge "1.prems"(1)] "1.prems"(2) by simp
    qed
  qed
qed

lemma round_up_invariant:
  assumes "hpd_invariant h"
  shows "hpd_invariant (round_up h n)"
proof (cases "n < 0 \<or> int (num_digits h) \<le> n")
  case True
  then show ?thesis using assms by (simp add: round_up_def)
next
  case False
  then have "hpd_invariant (round_up_loop h (n - 1))"
    using assms by (intro round_up_loop_invariant) (simp_all add: hpd_invariant_def)
  then show ?thesis using False by (simp add: round_up_def)
qed

lemma round_nearest_invariant:
  assumes "hpd_invariant h"
  shows "hpd_invariant (round_nearest h n)"
  using assms round_up_invariant [OF assms, of n] round_down_invariant [OF assms, of n]
  by (simp add: round_nearest_def Let_def)

lemma round_just_enough_loop_invariant:
  assumes "hpd_invariant h"
  shows "hpd_invariant (round_just_enough_loop h lower upper inclusive upper_delta ui)"
proof (induction "nat (int (num_digits h) - (ui - decimal_point upper + decimal_point h))"
    arbitrary: ui upper_delta rule: less_induct)
  case less
  define hi where "hi = ui - decimal_point upper + decimal_point h"
  show ?case
  proof (cases "hi \<ge> int (num_digits h)")
    case True
    then have "round_just_enough_loop h lower upper inclusive upper_delta ui = h"
      by (subst round_just_enough_loop.simps) (simp add: Let_def hi_def)
    then show ?thesis using assms by simp
  next
    case False
    have "\<exists>crd cru ud1. round_just_enough_loop h lower upper inclusive upper_delta ui =
         (if crd then (if cru then round_nearest h (hi + 1) else round_down h (hi + 1))
          else if cru then round_up h (hi + 1)
          else round_just_enough_loop h lower upper inclusive ud1 (ui + 1))"
      apply (subst round_just_enough_loop.simps)
      apply (simp only: Let_def)
      apply (fold hi_def)
      apply (simp only: False if_False)
      apply (intro exI)
      apply (rule refl)
      done
    then obtain crd cru ud1 where eq:
      "round_just_enough_loop h lower upper inclusive upper_delta ui =
         (if crd then (if cru then round_nearest h (hi + 1) else round_down h (hi + 1))
          else if cru then round_up h (hi + 1)
          else round_just_enough_loop h lower upper inclusive ud1 (ui + 1))"
      by blast
    have "nat (int (num_digits h) - (ui + 1 - decimal_point upper + decimal_point h))
            < nat (int (num_digits h) - (ui - decimal_point upper + decimal_point h))"
      using False by (simp add: hi_def)
    then have "hpd_invariant (round_just_enough_loop h lower upper inclusive ud1 (ui + 1))"
      by (rule less)
    then show ?thesis
      unfolding eq
      using round_nearest_invariant [OF assms] round_down_invariant [OF assms]
        round_up_invariant [OF assms]
      by simp
  qed
qed

lemma round_just_enough_with_invariant:
  assumes "hpd_invariant h"
  shows "hpd_invariant (round_just_enough_with stack h e2 man)"
  using assms round_just_enough_loop_invariant [OF assms]
  by (cases stack) (simp add: round_just_enough_with_def Let_def split: prod.splits)


subsection \<open>The invariant: assign and parse\<close>

lemma assign_loop_digits:
  assumes "list_all (\<lambda>d. d \<le> 9) buf"
  shows "list_all (\<lambda>d. d \<le> 9) (assign_loop x buf)"
  using assms
proof (induction x buf rule: assign_loop.induct)
  case (1 x buf)
  have d: "x - x div 10 * 10 \<le> 9"
    by (simp add: minus_div_mult_eq_mod)
  show ?case
  proof (cases "x div 10 > 0")
    case True
    then have "assign_loop x buf = assign_loop (x div 10) ((x - x div 10 * 10) # buf)"
      by (subst assign_loop.simps) (simp add: Let_def)
    then show ?thesis using "1.IH" [OF refl refl True] "1.prems" d by simp
  next
    case False
    then have "assign_loop x buf = (x - x div 10 * 10) # buf"
      by (subst assign_loop.simps) (simp add: Let_def)
    then show ?thesis using "1.prems" d by simp
  qed
qed

lemma assign_loop_length:
  assumes "x < 10 ^ Suc k"
  shows "length (assign_loop x buf) \<le> length buf + Suc k"
  using assms
proof (induction x buf arbitrary: k rule: assign_loop.induct)
  case (1 x buf)
  show ?case
  proof (cases "x div 10 > 0")
    case True
    then have e: "assign_loop x buf = assign_loop (x div 10) ((x - x div 10 * 10) # buf)"
      by (subst assign_loop.simps) (simp add: Let_def)
    obtain j where k: "k = Suc j"
      using True "1.prems" by (cases k) auto
    have "x div 10 < 10 ^ Suc j"
      using "1.prems" k by (simp add: less_mult_imp_div_less)
    from "1.IH" [OF refl refl True this] show ?thesis
      unfolding e k by simp
  next
    case False
    then have "assign_loop x buf = (x - x div 10 * 10) # buf"
      by (subst assign_loop.simps) (simp add: Let_def)
    then show ?thesis by simp
  qed
qed

lemma assign_invariant:
  assumes "x < 2 ^ 64"
  shows "hpd_invariant (assign h x neg)"
proof (cases "x > 0")
  case False
  then have "assign h x neg = trim \<lparr>num_digits = 0, decimal_point = 0, negative = neg,
      truncated = False, digits = digits h\<rparr>"
    by (simp add: assign_def)
  moreover have "hpd_digits_ok \<lparr>num_digits = 0, decimal_point = 0, negative = neg,
      truncated = False, digits = digits h\<rparr>"
    by (simp add: hpd_digits_ok_iff)
  ultimately show ?thesis by (simp add: trim_invariant)
next
  case True
  define buf where "buf = assign_loop x []"
  have "x < 10 ^ Suc 19" using assms by simp
  from assign_loop_length [OF this, of "[]"] have len: "length buf \<le> 20"
    by (simp add: buf_def)
  have dig: "list_all (\<lambda>d. d \<le> 9) buf"
    unfolding buf_def by (rule assign_loop_digits) simp
  have "hpd_digits_ok \<lparr>num_digits = length buf, decimal_point = int (length buf),
      negative = neg, truncated = False,
      digits = (\<lambda>i. if i < 20 then (if i < length buf then buf ! i else 0) else digits h i)\<rparr>"
    using len dig by (auto simp: hpd_digits_ok_iff list_all_length DIGITS_PRECISION_def)
  then show ?thesis
    using True by (simp add: assign_def Let_def buf_def [symmetric] trim_invariant)
qed

lemma digit_byte_range:
  assumes "ch CHR ''0'' < c" and "c \<le> ch CHR ''9''"
  shows "c - ch CHR ''0'' \<le> 9"
  using assms by (simp add: ch_def)

lemma parse_digits_locals_ok:
  assumes "parse_locals_ok st"
  shows "parse_locals_ok (fst (snd (parse_digits p st)))"
  using assms
proof (induction p st rule: parse_digits.induct)
  case (1 st)
  then show ?case by simp
next
  case (2 c cs h nd dp saw_digits saw_non_zero_digits saw_dot)
  note ok = "2.prems"
  have ok': "num_digits h = 0" "nd \<le> DIGITS_PRECISION" "\<And>i. i < nd \<Longrightarrow> digits h i \<le> 9"
    using ok by (simp_all add: parse_locals_ok_def)
  have w: "parse_locals_ok (h\<lparr>digits := (digits h)(nd := v)\<rparr>, nd + 1, dp', a, b, d)"
    if "nd < DIGITS_PRECISION" "v \<le> 9" for v dp' a b d
    using that ok' by (auto simp: parse_locals_ok_def)
  have k: "parse_locals_ok (h, nd, dp', a, b, d)" for dp' a b d
    using ok' by (simp add: parse_locals_ok_def)
  have t: "parse_locals_ok (h\<lparr>truncated := True\<rparr>, nd, dp', a, b, d)" for dp' a b d
    using ok' by (simp add: parse_locals_ok_def)
  show ?case
  proof (cases "c = ch CHR ''_''")
    case True
    then show ?thesis using "2.IH"(1) [OF True ok] by simp
  next
    case nu: False
    show ?thesis
    proof (cases "c = ch CHR ''.'' \<or> c = ch CHR '',''")
      case True
      show ?thesis
      proof (cases saw_dot)
        case sd: True
        then show ?thesis using nu True ok by simp
      next
        case sd: False
        from "2.IH"(2) [OF nu True sd k] show ?thesis using nu True sd by simp
      qed
    next
      case ns: False
      show ?thesis
      proof (cases "ch CHR ''0'' = c")
        case z: True
        show ?thesis
        proof (cases "\<not> saw_dot \<and> \<not> saw_non_zero_digits \<and> saw_digits")
          case True
          then show ?thesis using nu ns z ok by simp
        next
          case nb: False
          show ?thesis
          proof (cases "nd = 0")
            case True
            from "2.IH"(3) [OF nu ns z nb True k] show ?thesis
              using nu ns z nb True by (auto simp: k)
          next
            case n0: False
            show ?thesis
            proof (cases "nd < DIGITS_PRECISION")
              case True
              from "2.IH"(4) [OF nu ns z nb n0 True w [OF True]] show ?thesis
                using nu ns z nb n0 True by (auto simp: k)
            next
              case False
              from "2.IH"(5) [OF nu ns z nb n0 False k] show ?thesis
                using nu ns z nb n0 False by (auto simp: k)
            qed
          qed
        qed
      next
        case nz: False
        show ?thesis
        proof (cases "ch CHR ''0'' < c \<and> c \<le> ch CHR ''9''")
          case dg: True
          show ?thesis
          proof (cases "\<not> saw_dot \<and> \<not> saw_non_zero_digits \<and> saw_digits")
            case True
            then show ?thesis using nu ns nz dg ok by simp
          next
            case nb: False
            show ?thesis
            proof (cases "nd < DIGITS_PRECISION")
              case True
              have v: "c - ch CHR ''0'' \<le> 9" using dg by (intro digit_byte_range) simp_all
              from "2.IH"(6) [OF nu ns nz dg nb True w [OF True v]] show ?thesis
                using nu ns nz dg nb True by (auto simp: k)
            next
              case False
              from "2.IH"(7) [OF nu ns nz dg nb False t] show ?thesis
                using nu ns nz dg nb False by (auto simp: k)
            qed
          qed
        next
          case False
          then show ?thesis using nu ns nz ok by auto
        qed
      qed
    qed
  qed
qed

lemma high_prec_dec_parse_invariant:
  assumes "high_prec_dec_parse (Some h0) s = (st, Some h)"
  shows "hpd_invariant h"
proof -
  define hz where
    "hz = h0\<lparr>num_digits := 0, decimal_point := 0, negative := False, truncated := False\<rparr>"
  have z: "hpd_invariant g" if "num_digits g = 0" for g
    using that by (simp add: hpd_invariant_def hpd_trimmed_def hpd_digits_ok_iff)
  show ?thesis
  proof (cases "skip_underscores s = []")
    case True
    then have "h = hz" using assms by (simp add: high_prec_dec_parse_def hz_def)
    then show ?thesis by (simp add: z hz_def)
  next
    case pne: False
    obtain neg p1 where ps: "parse_sign (skip_underscores s) = (neg, p1)"
      by (cases "parse_sign (skip_underscores s)") auto
    define h1 where "h1 = (if neg then hz\<lparr>negative := True\<rparr> else hz)"
    obtain r h2 nd dp sd snz sdot p2 where
      pd: "parse_digits p1 (h1, 0, 0, False, False, False) = (r, (h2, nd, dp, sd, snz, sdot), p2)"
      by (cases "parse_digits p1 (h1, 0, 0, False, False, False)") auto
    have "parse_locals_ok (h1, 0, 0, False, False, False)"
      by (simp add: parse_locals_ok_def h1_def hz_def)
    from parse_digits_locals_ok [OF this, of p1]
    have ok: "num_digits h2 = 0" "nd \<le> DIGITS_PRECISION" "\<And>i. i < nd \<Longrightarrow> digits h2 i \<le> 9"
      unfolding pd by (simp_all add: parse_locals_ok_def)
    have fin: "hpd_invariant (trim (h2\<lparr>num_digits := nd, decimal_point := d\<rparr>))" for d
      using ok by (intro trim_invariant) (simp add: hpd_digits_ok_iff)
    have "h = h2 \<or> (\<exists>d. h = trim (h2\<lparr>num_digits := nd, decimal_point := d\<rparr>))"
      using assms pne ps pd
      by (auto simp: high_prec_dec_parse_def Let_def hz_def [symmetric] h1_def [symmetric]
            split: if_splits sum.splits prod.splits simp del: parse_digits.simps)
    then show ?thesis using z [OF ok(1)] fin by auto
  qed
qed


subsection \<open>The invariant: small\_rshift\<close>

lemma drop_bit_zero_less:
  assumes "drop_bit shift n = 0"
  shows "(n::nat) < 2 ^ shift"
  using assms by (simp add: drop_bit_eq_div div_eq_0_iff)

lemma shifted_digit_small:
  assumes "(n::nat) < 10 * 2 ^ shift"
  shows "drop_bit shift n mod 256 \<le> 9"
proof -
  have "n div 2 ^ shift < 10"
    using assms by (simp add: less_mult_imp_div_less mult.commute)
  then show ?thesis by (simp add: drop_bit_eq_div)
qed

lemma and_mask_less: "(n::nat) AND (2 ^ shift - 1) < 2 ^ shift"
proof -
  have "(2::nat) ^ shift - 1 = mask shift" by (simp add: mask_eq_exp_minus_1)
  then have "n AND (2 ^ shift - 1) = take_bit shift n"
    by (simp add: take_bit_eq_mask)
  then show ?thesis by (simp add: take_bit_eq_mod)
qed

lemma next_carry_small:
  assumes "(m::nat) < 2 ^ shift" and "d \<le> 9" and "shift \<le> 60"
  shows "u64 (10 * m + d) < 10 * 2 ^ shift"
proof -
  have "10 * m + d < 10 * 2 ^ shift" using assms by simp
  moreover have "u64 (10 * m + d) \<le> 10 * m + d" by (simp add: u64_def)
  ultimately show ?thesis by simp
qed

lemma small_rshift_zeroes_small:
  assumes "n < 10 * 2 ^ shift"
  shows "snd (small_rshift_zeroes shift rx n) < 10 * 2 ^ shift"
  using assms
proof (induction shift rx n rule: small_rshift_zeroes.induct)
  case (1 shift rx n)
  show ?case
  proof (cases "drop_bit shift n = 0 \<and> n \<noteq> 0")
    case True
    then have "n < 2 ^ shift" by (simp add: drop_bit_zero_less)
    then have "10 * n < 10 * 2 ^ shift" by simp
    from "1.IH" [OF True this] show ?thesis
      using True by (subst small_rshift_zeroes.simps) simp
  next
    case False
    then show ?thesis using "1.prems" by (subst small_rshift_zeroes.simps) auto
  qed
qed

lemma small_rshift_pick_up_small:
  assumes "small_rshift_pick_up shift h rx n = Some (rx', n')"
    and "n < 10 * 2 ^ shift" and "shift \<le> 60" and "\<forall>i<num_digits h. digits h i \<le> 9"
  shows "n' < 10 * 2 ^ shift"
  using assms
proof (induction shift h rx n rule: small_rshift_pick_up.induct)
  case (1 shift h rx n)
  show ?case
  proof (cases "drop_bit shift n = 0")
    case False
    then have "small_rshift_pick_up shift h rx n = Some (rx, n)"
      by (subst small_rshift_pick_up.simps) simp
    then show ?thesis using "1.prems" by simp
  next
    case True
    then have m: "n < 2 ^ shift" by (rule drop_bit_zero_less)
    show ?thesis
    proof (cases "rx < num_digits h")
      case lt: True
      have c: "u64 (10 * n + digits h rx) < 10 * 2 ^ shift"
        using m lt "1.prems"(3,4) by (intro next_carry_small) simp_all
      have "small_rshift_pick_up shift h rx n
              = small_rshift_pick_up shift h (rx + 1) (u64 (10 * n + digits h rx))"
        using True lt by (subst small_rshift_pick_up.simps) simp
      then show ?thesis
        using "1.IH" [OF True lt _ c "1.prems"(3,4)] "1.prems"(1) by simp
    next
      case ge: False
      show ?thesis
      proof (cases "n = 0")
        case True
        then have "small_rshift_pick_up shift h rx n = None"
          using \<open>drop_bit shift n = 0\<close> ge by (subst small_rshift_pick_up.simps) simp
        then show ?thesis using "1.prems"(1) by simp
      next
        case False
        then have "small_rshift_pick_up shift h rx n = Some (small_rshift_zeroes shift rx n)"
          using True ge by (subst small_rshift_pick_up.simps) simp
        then have "n' = snd (small_rshift_zeroes shift rx n)"
          using "1.prems"(1) by (metis option.inject snd_conv)
        then show ?thesis
          using small_rshift_zeroes_small [OF "1.prems"(2), of rx] by simp
      qed
    qed
  qed
qed

text \<open>
  The state of the two writing loops: the digits still to be read and the digits written
  so far are decimal digits, and the carry is below \<open>10 * 2 ^ shift\<close>.
\<close>

lemma small_rshift_shift_ok:
  assumes "small_rshift_shift shift h rx wx n = (h1, wx1, n1)"
    and "n < 10 * 2 ^ shift" and "shift \<le> 60"
    and "\<forall>i<num_digits h. digits h i \<le> 9" and "\<forall>i<wx. digits h i \<le> 9"
    and "wx + (num_digits h - rx) \<le> b"
  shows "n1 < 10 * 2 ^ shift \<and> (\<forall>i<wx1. digits h1 i \<le> 9) \<and> wx1 \<le> b"
  using assms
proof (induction shift h rx wx n rule: small_rshift_shift.induct)
  case (1 shift h rx wx n)
  show ?case
  proof (cases "rx < num_digits h")
    case False
    then have "small_rshift_shift shift h rx wx n = (h, wx, n)"
      by (subst small_rshift_shift.simps) simp
    then show ?thesis using "1.prems" by auto
  next
    case True
    define new_digit where "new_digit = drop_bit shift n mod 256"
    define n2 where "n2 = u64 (10 * (n AND (2 ^ shift - 1)) + digits h rx)"
    define h' where "h' = h\<lparr>digits := (digits h)(wx := new_digit)\<rparr>"
    have e: "small_rshift_shift shift h rx wx n = small_rshift_shift shift h' (rx + 1) (wx + 1) n2"
      using True by (subst small_rshift_shift.simps) (simp add: Let_def new_digit_def n2_def h'_def)
    have nd: "new_digit \<le> 9"
      unfolding new_digit_def by (rule shifted_digit_small [OF "1.prems"(2)])
    have c: "n2 < 10 * 2 ^ shift"
      unfolding n2_def using True "1.prems"(3,4) by (intro next_carry_small and_mask_less) simp_all
    have q: "\<forall>i<num_digits h'. digits h' i \<le> 9"
      using "1.prems"(4) nd by (simp add: h'_def)
    have w: "\<forall>i<wx + 1. digits h' i \<le> 9"
      using "1.prems"(5) nd by (auto simp: h'_def less_Suc_eq)
    have b: "wx + 1 + (num_digits h' - (rx + 1)) \<le> b"
      using "1.prems"(6) True by (simp add: h'_def)
    have r: "small_rshift_shift shift h' (rx + 1) (wx + 1) n2 = (h1, wx1, n1)"
      using "1.prems"(1) e by simp
    show ?thesis
      by (rule "1.IH" [OF True new_digit_def n2_def r [unfolded h'_def] c "1.prems"(3)
            q [unfolded h'_def] w [unfolded h'_def] b [unfolded h'_def]])
  qed
qed

lemma small_rshift_put_down_ok:
  assumes "small_rshift_put_down shift h wx n = (h2, wx2)"
    and "n < 10 * 2 ^ shift" and "\<forall>i<wx. digits h i \<le> 9" and "wx \<le> DIGITS_PRECISION"
  shows "(\<forall>i<wx2. digits h2 i \<le> 9) \<and> wx2 \<le> DIGITS_PRECISION"
  using assms
proof (induction shift h wx n rule: small_rshift_put_down.induct)
  case (1 shift h wx n)
  show ?case
  proof (cases "n > 0")
    case False
    then have "small_rshift_put_down shift h wx n = (h, wx)"
      by (subst small_rshift_put_down.simps) simp
    then show ?thesis using "1.prems" by auto
  next
    case True
    define new_digit where "new_digit = drop_bit shift n mod 256"
    define n2 where "n2 = 10 * (n AND (2 ^ shift - 1))"
    have nd: "new_digit \<le> 9"
      unfolding new_digit_def by (rule shifted_digit_small [OF "1.prems"(2)])
    have c: "n2 < 10 * 2 ^ shift"
      unfolding n2_def using and_mask_less [of n shift] by simp
    show ?thesis
    proof (cases "wx < DIGITS_PRECISION")
      case lt: True
      define h' where "h' = h\<lparr>digits := (digits h)(wx := new_digit)\<rparr>"
      have e: "small_rshift_put_down shift h wx n = small_rshift_put_down shift h' (wx + 1) n2"
        using True lt
        by (subst small_rshift_put_down.simps) (simp add: Let_def new_digit_def n2_def h'_def)
      have w: "\<forall>i<wx + 1. digits h' i \<le> 9"
        using "1.prems"(3) nd by (auto simp: h'_def less_Suc_eq)
      have b: "wx + 1 \<le> DIGITS_PRECISION" using lt by simp
      have r: "small_rshift_put_down shift h' (wx + 1) n2 = (h2, wx2)"
        using "1.prems"(1) e by simp
      show ?thesis
        by (rule "1.IH"(1) [OF True new_digit_def n2_def lt r [unfolded h'_def] c
              w [unfolded h'_def] b])
    next
      case ge: False
      show ?thesis
      proof (cases "new_digit > 0")
        case pos: True
        define h' where "h' = h\<lparr>truncated := True\<rparr>"
        have e: "small_rshift_put_down shift h wx n = small_rshift_put_down shift h' wx n2"
          using True ge pos
          by (subst small_rshift_put_down.simps) (simp add: Let_def new_digit_def n2_def h'_def)
        have w: "\<forall>i<wx. digits h' i \<le> 9"
          using "1.prems"(3) by (simp add: h'_def)
        have r: "small_rshift_put_down shift h' wx n2 = (h2, wx2)"
          using "1.prems"(1) e by simp
        show ?thesis
          by (rule "1.IH"(2) [OF True new_digit_def n2_def ge pos
                r [unfolded h'_def] c w [unfolded h'_def] "1.prems"(4)])
      next
        case zero: False
        have e: "small_rshift_put_down shift h wx n = small_rshift_put_down shift h wx n2"
          using True ge zero
          by (subst small_rshift_put_down.simps) (simp add: Let_def new_digit_def n2_def)
        have r: "small_rshift_put_down shift h wx n2 = (h2, wx2)"
          using "1.prems"(1) e by simp
        show ?thesis
          by (rule "1.IH"(3) [OF True new_digit_def n2_def ge zero
                r c "1.prems"(3,4)])
      qed
    qed
  qed
qed

lemma small_rshift_invariant:
  assumes "hpd_invariant h" and "shift \<le> 60"
  shows "hpd_invariant (small_rshift h shift)"
proof (cases "small_rshift_pick_up shift h 0 0")
  case None
  then show ?thesis using assms by (simp add: small_rshift_def)
next
  case (Some r)
  obtain rx n where r: "r = (rx, n)" by (cases r) auto
  have ok: "num_digits h \<le> DIGITS_PRECISION" "\<forall>i<num_digits h. digits h i \<le> 9"
    using assms(1) by (simp_all add: hpd_invariant_def hpd_digits_ok_iff)
  have n: "n < 10 * 2 ^ shift"
    using small_rshift_pick_up_small [OF Some [unfolded r] _ assms(2) ok(2)] by simp
  define dp where "dp = decimal_point h - (int rx - 1)"
  show ?thesis
  proof (cases "dp < - DECIMAL_POINT_RANGE")
    case True
    then have "small_rshift h shift
        = h\<lparr>num_digits := 0, decimal_point := 0, negative := False, truncated := False\<rparr>"
      using Some r by (simp add: small_rshift_def dp_def Let_def)
    then show ?thesis
      by (simp add: hpd_invariant_def hpd_trimmed_def hpd_digits_ok_iff)
  next
    case False
    obtain h1 wx1 n1 where s: "small_rshift_shift shift (h\<lparr>decimal_point := dp\<rparr>) rx 0 n
        = (h1, wx1, n1)"
      by (cases "small_rshift_shift shift (h\<lparr>decimal_point := dp\<rparr>) rx 0 n") auto
    obtain h2 wx2 where p: "small_rshift_put_down shift h1 wx1 n1 = (h2, wx2)"
      by (cases "small_rshift_put_down shift h1 wx1 n1") auto
    have s_ok: "n1 < 10 * 2 ^ shift \<and> (\<forall>i<wx1. digits h1 i \<le> 9) \<and> wx1 \<le> DIGITS_PRECISION"
      using ok by (intro small_rshift_shift_ok [OF s n assms(2)]) simp_all
    have p_ok: "(\<forall>i<wx2. digits h2 i \<le> 9) \<and> wx2 \<le> DIGITS_PRECISION"
      using s_ok by (intro small_rshift_put_down_ok [OF p]) simp_all
    have "small_rshift h shift = trim (h2\<lparr>num_digits := wx2\<rparr>)"
      using Some r False s p by (simp add: small_rshift_def dp_def [symmetric] Let_def)
    moreover have "hpd_digits_ok (h2\<lparr>num_digits := wx2\<rparr>)"
      using p_ok by (simp add: hpd_digits_ok_iff)
    ultimately show ?thesis by (simp add: trim_invariant)
  qed
qed


subsection \<open>The invariant: small\_lshift\<close>

lemma small_lshift_put_keep:
  assumes "rem \<le> 9" and "digits h i \<le> 9"
  shows "digits (small_lshift_put h wx rem) i \<le> 9"
  using assms by (auto simp: small_lshift_put_def)

lemma small_lshift_put_written:
  assumes "rem \<le> 9" and "0 \<le> wx" and "wx < int DIGITS_PRECISION"
  shows "digits (small_lshift_put h wx rem) (nat wx) \<le> 9"
  using assms by (simp add: small_lshift_put_def)

lemma small_lshift_put_num_digits [simp]:
  "num_digits (small_lshift_put h wx rem) = num_digits h"
  by (simp add: small_lshift_put_def)

lemma u64_small: "x < 2 ^ 64 \<Longrightarrow> u64 x = x"
  by (simp add: u64_def)

lemma lshift_step:
  assumes "n < 2 ^ s" and "d \<le> 9" and "s \<le> 60"
  shows "u64 (n + u64 (d * 2 ^ s)) = n + d * 2 ^ s"
    and "(n + d * 2 ^ s) div 10 < 2 ^ s"
    and "n + d * 2 ^ s - 10 * ((n + d * 2 ^ s) div 10) \<le> 9"
proof -
  have p: "(2::nat) ^ s \<le> 2 ^ 60" using assms(3) by (intro power_increasing) simp_all
  have "d * 2 ^ s \<le> 9 * 2 ^ s" using assms(2) by simp
  then have b: "n + d * 2 ^ s < 10 * 2 ^ s" using assms(1) by linarith
  then have "n + d * 2 ^ s < 2 ^ 64" "d * 2 ^ s < 2 ^ 64" using p by simp_all
  then show "u64 (n + u64 (d * 2 ^ s)) = n + d * 2 ^ s" by (simp add: u64_small)
  show "(n + d * 2 ^ s) div 10 < 2 ^ s" using b by simp
  show "n + d * 2 ^ s - 10 * ((n + d * 2 ^ s) div 10) \<le> 9"
    by (simp add: minus_mult_div_eq_mod)
qed

lemma small_lshift_pick_up_ok:
  assumes "small_lshift_pick_up s h rx wx n = (h1, wx1, n1)"
    and "s \<le> 60" and "n < 2 ^ s" and "- 1 \<le> rx" and "rx < int (num_digits h)"
    and "\<forall>i<num_digits h. digits h i \<le> 9"
  shows "wx1 = wx - (rx + 1)
       \<and> n div 10 ^ nat (rx + 1) \<le> n1
       \<and> (\<forall>i. digits h i \<le> 9 \<longrightarrow> digits h1 i \<le> 9)
       \<and> (\<forall>i. wx1 < int i \<and> int i \<le> wx \<and> i < DIGITS_PRECISION \<longrightarrow> digits h1 i \<le> 9)"
  using assms
proof (induction s h rx wx n rule: small_lshift_pick_up.induct)
  case (1 s h rx wx n)
  show ?case
  proof (cases "rx \<ge> 0")
    case False
    then have "small_lshift_pick_up s h rx wx n = (h, wx, n)"
      by (subst small_lshift_pick_up.simps) simp
    moreover have "rx = - 1" using False "1.prems"(4) by simp
    ultimately show ?thesis using "1.prems"(1) by auto
  next
    case True
    define d where "d = digits h (nat rx)"
    have d9: "d \<le> 9" using "1.prems"(5,6) True by (simp add: d_def)
    define m where "m = u64 (n + u64 (d * 2 ^ s))"
    define quo where "quo = m div 10"
    define rem where "rem = m - 10 * quo"
    let ?h' = "small_lshift_put h wx rem"
    have m: "m = n + d * 2 ^ s"
      unfolding m_def by (rule lshift_step(1) [OF "1.prems"(3) d9 "1.prems"(2)])
    have q: "quo < 2 ^ s"
      unfolding quo_def m by (rule lshift_step(2) [OF "1.prems"(3) d9 "1.prems"(2)])
    have r9: "rem \<le> 9"
      unfolding rem_def quo_def m by (rule lshift_step(3) [OF "1.prems"(3) d9 "1.prems"(2)])
    have e: "small_lshift_pick_up s h rx wx n = small_lshift_pick_up s ?h' (rx - 1) (wx - 1) quo"
      unfolding rem_def quo_def m_def d_def
      by (subst small_lshift_pick_up.simps) (simp only: True if_True Let_def)
    have r: "small_lshift_pick_up s ?h' (rx - 1) (wx - 1) quo = (h1, wx1, n1)"
      using "1.prems"(1) e by simp
    have keep: "digits ?h' i \<le> 9" if "digits h i \<le> 9" for i
      by (rule small_lshift_put_keep [OF r9 that])
    have ih: "wx1 = wx - 1 - (rx - 1 + 1)
       \<and> quo div 10 ^ nat (rx - 1 + 1) \<le> n1
       \<and> (\<forall>i. digits ?h' i \<le> 9 \<longrightarrow> digits h1 i \<le> 9)
       \<and> (\<forall>i. wx1 < int i \<and> int i \<le> wx - 1 \<and> i < DIGITS_PRECISION \<longrightarrow> digits h1 i \<le> 9)"
    proof (rule "1.IH" [OF True m_def [unfolded d_def] quo_def rem_def r "1.prems"(2) q])
      show "- 1 \<le> rx - 1" using True by simp
      show "rx - 1 < int (num_digits ?h')" using "1.prems"(5) by simp
      show "\<forall>i<num_digits ?h'. digits ?h' i \<le> 9" using "1.prems"(6) keep by simp
    qed
    have c1: "wx1 = wx - (rx + 1)" using ih by simp
    have "n div 10 ^ nat (rx + 1) = (n div 10) div 10 ^ nat rx"
      using True by (simp add: nat_add_distrib div_mult2_eq)
    also have "\<dots> \<le> quo div 10 ^ nat rx"
      unfolding quo_def m by (intro div_le_mono) simp
    also have "\<dots> \<le> n1" using ih by simp
    finally have c2: "n div 10 ^ nat (rx + 1) \<le> n1" .
    have c3: "\<forall>i. digits h i \<le> 9 \<longrightarrow> digits h1 i \<le> 9"
      using keep ih by blast
    have c4: "digits h1 i \<le> 9" if "wx1 < int i \<and> int i \<le> wx \<and> i < DIGITS_PRECISION" for i
    proof (cases "int i = wx")
      case True
      then have nw: "nat wx = i" by auto
      have "digits ?h' (nat wx) \<le> 9"
        using that True by (intro small_lshift_put_written [OF r9]) simp_all
      then have "digits ?h' i \<le> 9" unfolding nw .
      then show ?thesis using ih by blast
    next
      case False
      then have "int i \<le> wx - 1" using that by simp
      then show ?thesis using ih that by blast
    qed
    show ?thesis using c1 c2 c3 c4 by blast
  qed
qed

lemma small_lshift_put_down_keep:
  assumes "digits h i \<le> 9"
  shows "digits (small_lshift_put_down h wx n) i \<le> 9"
  using assms
proof (induction h wx n rule: small_lshift_put_down.induct)
  case (1 h wx n)
  show ?case
  proof (cases "n > 0")
    case False
    then show ?thesis using "1.prems" by (subst small_lshift_put_down.simps) simp
  next
    case True
    have r9: "n - 10 * (n div 10) \<le> 9" by (simp add: minus_mult_div_eq_mod)
    have "digits (small_lshift_put h wx (n - 10 * (n div 10))) i \<le> 9"
      by (rule small_lshift_put_keep [OF r9 "1.prems"])
    from "1.IH" [OF True refl refl this] show ?thesis
      using True by (subst small_lshift_put_down.simps) (simp add: Let_def)
  qed
qed

lemma small_lshift_put_down_written:
  assumes "10 ^ nat (wx - int i) \<le> n" and "int i \<le> wx" and "i < DIGITS_PRECISION"
  shows "digits (small_lshift_put_down h wx n) i \<le> 9"
  using assms
proof (induction h wx n rule: small_lshift_put_down.induct)
  case (1 h wx n)
  have pos: "n > 0"
  proof (rule ccontr)
    assume "\<not> n > 0"
    then have "(10::nat) ^ nat (wx - int i) \<le> 0" using "1.prems"(1) by simp
    then show False by simp
  qed
  have r9: "n - 10 * (n div 10) \<le> 9" by (simp add: minus_mult_div_eq_mod)
  define h' where "h' = small_lshift_put h wx (n - 10 * (n div 10))"
  have e: "small_lshift_put_down h wx n = small_lshift_put_down h' (wx - 1) (n div 10)"
    using pos by (subst small_lshift_put_down.simps) (simp add: Let_def h'_def)
  show ?case
  proof (cases "int i = wx")
    case True
    have nw: "nat wx = i" using True by auto
    have "digits h' (nat wx) \<le> 9"
      unfolding h'_def using "1.prems"(2,3) True
      by (intro small_lshift_put_written [OF r9]) simp_all
    then have "digits h' i \<le> 9" unfolding nw .
    then show ?thesis unfolding e by (rule small_lshift_put_down_keep)
  next
    case False
    then have lt: "int i \<le> wx - 1" using "1.prems"(2) by simp
    have "nat (wx - int i) = Suc (nat (wx - 1 - int i))" using lt by simp
    then have "10 * 10 ^ nat (wx - 1 - int i) \<le> n" using "1.prems"(1) by simp
    then have b: "10 ^ nat (wx - 1 - int i) \<le> n div 10" by simp
    show ?thesis
      unfolding e h'_def by (rule "1.IH" [OF pos refl refl b lt "1.prems"(3)])
  qed
qed

lemma max_new_digits_facts:
  assumes "1 \<le> s" and "s \<le> 60"
  shows "10 ^ (max_new_digits s - 1) \<le> (2::nat) ^ s" and "max_new_digits s \<le> 19"
proof -
  have "s \<in> set [1..<61]" using assms by simp
  then show "10 ^ (max_new_digits s - 1) \<le> (2::nat) ^ s" and "max_new_digits s \<le> 19"
    using max_new_digits_pow2 by blast+
qed

lemma lshift_num_new_digits_le:
  assumes "1 \<le> s" and "s \<le> 60"
  shows "lshift_num_new_digits h s \<le> max_new_digits s"
  by (simp add: lshift_num_new_digits_lex [OF assms])

lemma small_lshift_untrimmed_digits_ok:
  assumes "hpd_invariant h" and "num_digits h > 0" and "1 \<le> s" and "s \<le> 60"
  shows "hpd_digits_ok (small_lshift_untrimmed h s)"
proof -
  define nd where "nd = num_digits h"
  define new where "new = lshift_num_new_digits h s"
  define N where "N = max_new_digits s"
  have ok: "nd \<le> DIGITS_PRECISION" "\<forall>i<num_digits h. digits h i \<le> 9"
    and last: "digits h (nd - 1) \<noteq> 0"
    using assms(1,2) by (simp_all add: hpd_invariant_def hpd_digits_ok_iff hpd_trimmed_def nd_def)
  have newN: "new \<le> N" unfolding new_def N_def by (rule lshift_num_new_digits_le [OF assms(3,4)])
  have N19: "N \<le> 19" and Npow: "10 ^ (N - 1) \<le> (2::nat) ^ s"
    unfolding N_def using max_new_digits_facts [OF assms(3,4)] by simp_all
  have nd0: "nd > 0" using assms(2) by (simp add: nd_def)
  define wx where "wx = int nd - 1 + int new"
  have wx: "int (u32 (nd - 1 + new)) = wx"
    using nd0 ok(1) newN N19 by (simp add: u32_def wx_def DIGITS_PRECISION_def)
  have tot: "u32 (nd + new) = nd + new"
    using ok(1) newN N19 by (simp add: u32_def DIGITS_PRECISION_def)
  obtain h1 wx1 n1 where pu: "small_lshift_pick_up s h (int nd - 1) wx 0 = (h1, wx1, n1)"
    by (cases "small_lshift_pick_up s h (int nd - 1) wx 0") auto
  define h2 where "h2 = small_lshift_put_down h1 wx1 n1"
  have res: "small_lshift_untrimmed h s =
      h2\<lparr>num_digits := (if nd + new > DIGITS_PRECISION then DIGITS_PRECISION else nd + new),
         decimal_point := decimal_point h + s32 new\<rparr>"
    unfolding small_lshift_untrimmed_def Let_def new_def [symmetric] nd_def [symmetric] wx tot pu
    by (simp add: h2_def)
  have all: "wx1 = wx - (int nd - 1 + 1)
       \<and> 0 div 10 ^ nat (int nd - 1 + 1) \<le> n1
       \<and> (\<forall>i. digits h i \<le> 9 \<longrightarrow> digits h1 i \<le> 9)
       \<and> (\<forall>i. wx1 < int i \<and> int i \<le> wx \<and> i < DIGITS_PRECISION \<longrightarrow> digits h1 i \<le> 9)"
    using ok(2) nd0 by (intro small_lshift_pick_up_ok [OF pu assms(4)]) (simp_all add: nd_def)
  then have wx1: "wx1 = int new - 1" by (simp add: wx_def)
  define d where "d = digits h (nd - 1)"
  have d1: "1 \<le> d" and d9: "d \<le> 9" using last ok(2) nd0 by (simp_all add: d_def nd_def)
  define quo where "quo = (d * 2 ^ s) div 10"
  define h' where "h' = small_lshift_put h wx (d * 2 ^ s - 10 * quo)"
  have st: "u64 (0 + u64 (d * 2 ^ s)) = 0 + d * 2 ^ s" "(0 + d * 2 ^ s) div 10 < 2 ^ s"
    using lshift_step [of 0 s d] d9 assms(4) by simp_all
  have st': "u64 (u64 (d * 2 ^ s)) = d * 2 ^ s" using st(1) by simp
  have ge: "int nd - 1 \<ge> 0" using nd0 by simp
  have dd: "digits h (nat (int nd - 1)) = d" using nd0 by (simp add: d_def nat_diff_distrib)
  have e: "small_lshift_pick_up s h (int nd - 1) wx 0
             = small_lshift_pick_up s h' (int nd - 1 - 1) (wx - 1) quo"
    unfolding h'_def quo_def
    by (subst small_lshift_pick_up.simps) (simp only: ge if_True Let_def dd st' add_0)
  have "wx1 = wx - 1 - (int nd - 1 - 1 + 1)
       \<and> quo div 10 ^ nat (int nd - 1 - 1 + 1) \<le> n1
       \<and> (\<forall>i. digits h' i \<le> 9 \<longrightarrow> digits h1 i \<le> 9)
       \<and> (\<forall>i. wx1 < int i \<and> int i \<le> wx - 1 \<and> i < DIGITS_PRECISION \<longrightarrow> digits h1 i \<le> 9)"
  proof (rule small_lshift_pick_up_ok [OF pu [unfolded e] assms(4)])
    show "quo < 2 ^ s" using st(2) by (simp add: quo_def)
    show "- 1 \<le> int nd - 1 - 1" using nd0 by simp
    show "int nd - 1 - 1 < int (num_digits h')" by (simp add: h'_def nd_def)
    have "d * 2 ^ s - 10 * quo \<le> 9" by (simp add: quo_def minus_mult_div_eq_mod)
    then show "\<forall>i<num_digits h'. digits h' i \<le> 9"
      using ok(2) by (simp add: h'_def small_lshift_put_keep)
  qed
  then have "quo div 10 ^ (nd - 1) \<le> n1"
    using nd0 by (simp add: nat_diff_distrib)
  moreover have "2 ^ s div 10 \<le> quo"
    unfolding quo_def using d1 by (intro div_le_mono) simp
  then have "(2 ^ s div 10) div 10 ^ (nd - 1) \<le> quo div 10 ^ (nd - 1)"
    by (rule div_le_mono)
  moreover have "((2::nat) ^ s div 10) div 10 ^ (nd - 1) = 2 ^ s div 10 ^ nd"
    using nd0 by (cases nd) (simp_all add: div_mult2_eq)
  ultimately have carry: "2 ^ s div 10 ^ nd \<le> n1" by simp
  have dig: "digits h2 i \<le> 9" if i: "i < nd + new" "i < DIGITS_PRECISION" for i
  proof (cases "new \<le> i")
    case True
    then have "wx1 < int i \<and> int i \<le> wx \<and> i < DIGITS_PRECISION"
      using i by (simp add: wx1 wx_def)
    then have "digits h1 i \<le> 9" using all by blast
    then show ?thesis unfolding h2_def by (rule small_lshift_put_down_keep)
  next
    case False
    show ?thesis
    proof (cases "i < nd")
      case True
      then have "digits h1 i \<le> 9" using all ok(2) by (simp add: nd_def)
      then show ?thesis unfolding h2_def by (rule small_lshift_put_down_keep)
    next
      case ge: False
      have k: "nat (wx1 - int i) = new - 1 - i" using False by (simp add: wx1 nat_diff_distrib)
      have "new - 1 - i \<le> N - 1 - nd" using ge newN by simp
      then have "(10::nat) ^ (new - 1 - i) \<le> 10 ^ (N - 1 - nd)"
        by (intro power_increasing) simp_all
      also have "\<dots> = 10 ^ (N - 1) div 10 ^ nd"
      proof (rule power_diff)
        show "(10::nat) \<noteq> 0" by simp
        show "nd \<le> N - 1" using ge False newN by simp
      qed
      also have "\<dots> \<le> 2 ^ s div 10 ^ nd" using Npow by (rule div_le_mono)
      also have "\<dots> \<le> n1" by (rule carry)
      finally have "10 ^ nat (wx1 - int i) \<le> n1" by (simp add: k)
      then show ?thesis
        unfolding h2_def using False i(2)
        by (intro small_lshift_put_down_written) (simp_all add: wx1)
    qed
  qed
  show ?thesis
    unfolding res using dig by (simp add: hpd_digits_ok_iff)
qed

lemma small_lshift_invariant:
  assumes "hpd_invariant h" and "1 \<le> s" and "s \<le> 60"
  shows "hpd_invariant (small_lshift h s)"
proof (cases "num_digits h = 0")
  case True
  then show ?thesis using assms(1) by (simp add: small_lshift_def)
next
  case False
  then have "hpd_digits_ok (small_lshift_untrimmed h s)"
    using assms by (intro small_lshift_untrimmed_digits_ok) simp_all
  then show ?thesis using False by (simp add: small_lshift_def trim_invariant)
qed


subsection \<open>Claim C9\<close>

lemma high_prec_dec_parse_some:
  "\<exists>g'. snd (high_prec_dec_parse (Some g) bs) = Some g'"
  by (auto simp: high_prec_dec_parse_def Let_def split: prod.splits sum.splits
        simp del: parse_digits.simps)

text \<open>
  Claim C9.  Every operation that writes an HPD keeps the invariant: the digits in use
  are decimal digits, at most \<^verbatim>\<open>DIGITS_PRECISION\<close> of them, and the last one is not zero
  unless there is none.  \<^verbatim>\<open>assign\<close> and the parser establish it whatever the HPD held
  before (the parser also when it fails, leaving \<open>num_digits = 0\<close>); the two small shifts,
  for a shift from 1 to 60 as their preconditions say, and the four rounding operations
  keep it.  The argument of \<^verbatim>\<open>assign\<close> is a \<^verbatim>\<open>uint64_t\<close>.
\<close>

theorem hpd_invariant_preserved:
  assumes "hpd_invariant h" and "1 \<le> s" and "s \<le> 60" and "x < 2 ^ 64"
  shows "hpd_invariant (assign g x neg)
       \<and> (\<exists>g'. snd (high_prec_dec_parse (Some g) bs) = Some g' \<and> hpd_invariant g')
       \<and> hpd_invariant (small_lshift h s)
       \<and> hpd_invariant (small_rshift h s)
       \<and> hpd_invariant (round_down h n)
       \<and> hpd_invariant (round_up h n)
       \<and> hpd_invariant (round_nearest h n)
       \<and> hpd_invariant (round_just_enough_with stack h e2 man)"
proof -
  obtain g' where g': "snd (high_prec_dec_parse (Some g) bs) = Some g'"
    using high_prec_dec_parse_some by blast
  then have "high_prec_dec_parse (Some g) bs = (fst (high_prec_dec_parse (Some g) bs), Some g')"
    by (metis prod.collapse)
  then have "hpd_invariant g'" by (rule high_prec_dec_parse_invariant)
  then show ?thesis
    using g' assign_invariant [OF assms(4)] small_lshift_invariant [OF assms(1,2,3)]
      small_rshift_invariant [OF assms(1,3)] round_down_invariant [OF assms(1)]
      round_up_invariant [OF assms(1)] round_nearest_invariant [OF assms(1)]
      round_just_enough_with_invariant [OF assms(1)]
    by blast
qed

theorem hpd_invariant_preserved_witness:
  "hpd_invariant (hpd_of False False [2, 5] 1)
   \<and> hpd_invariant (assign hpd_zero 250 False)
   \<and> hpd_invariant (small_lshift (hpd_of False False [2, 5] 1) 2)
   \<and> hpd_invariant (small_rshift (hpd_of False False [2, 5] 1) 2)
   \<and> hpd_invariant (round_down (hpd_of False False [2, 5] 1) 1)
   \<and> hpd_invariant (round_up (hpd_of False False [2, 5] 1) 1)
   \<and> hpd_invariant (round_nearest (hpd_of False False [2, 5] 1) 1)
   \<and> hpd_invariant (round_just_enough_with (hpd_zero, hpd_zero) (hpd_of False False [2, 5] 1)
        (- 2) 0x14000000000000)"
proof -
  have a: "hpd_invariant (hpd_of False False [2, 5] 1)"
    by (simp add: hpd_invariant_def hpd_trimmed_def hpd_digits_ok_def hpd_digit_list_def
          hpd_of_def digits_of_list_def upt_conv_Cons DIGITS_PRECISION_def)
  have b: "(1::nat) \<le> 2" "(2::nat) \<le> 60" "(250::nat) < 2 ^ 64"
    by simp_all
  from hpd_invariant_preserved [OF a b, of hpd_zero False "[]" 1 "(hpd_zero, hpd_zero)" "- 2"
      "0x14000000000000"] a
  show ?thesis by blast
qed

subsection \<open>The statuses of the parsers\<close>

lemma parse_digits_status:
  "fst (parse_digits p st) = None \<or> fst (parse_digits p st) = Some bad_argument"
proof (induction p st rule: parse_digits.induct)
  case (1 st)
  then show ?case by simp
next
  case (2 c cs h nd dp saw_digits saw_non_zero_digits saw_dot)
  then show ?case by auto
qed

lemma parse_exponent_status:
  "parse_exponent p dp = Inl e \<Longrightarrow> e = bad_argument"
  by (auto simp: parse_exponent_def Let_def split: list.splits if_splits prod.splits)

lemma high_prec_dec_parse_status:
  "fst (high_prec_dec_parse (Some h0) s) = None
   \<or> fst (high_prec_dec_parse (Some h0) s) = Some bad_argument"
proof -
  have pd: "r = None \<or> r = Some bad_argument" if "parse_digits p st = (r, st', p')"
    for p st r st' p'
    using parse_digits_status [of p st] that by simp
  show ?thesis
    by (auto simp: high_prec_dec_parse_def Let_def split: prod.splits sum.splits
          dest: pd parse_exponent_status simp del: parse_digits.simps)
qed

lemma parse_digits_lead:
  assumes "parse_digits p (h, nd, dp, a, b, c) = (r, (h', nd', dp', a', b', c'), p')"
    and "nd > 0 \<longrightarrow> digits h 0 \<noteq> 0"
  shows "nd' > 0 \<longrightarrow> digits h' 0 \<noteq> 0"
  using assms
proof (induction p "(h, nd, dp, a, b, c)" arbitrary: h nd dp a b c rule: parse_digits.induct)
  case 1
  then show ?case by simp
next
  case (2 ch0 cs h nd dp a b c)
  have w0: "ch CHR ''0'' < ch0 \<Longrightarrow> ch0 - ch CHR ''0'' \<noteq> 0" by simp
  show ?case
    using "2.prems" "2.hyps" w0
    by (auto split: if_splits simp: DIGITS_PRECISION_def)
qed


subsection \<open>small\_rshift makes progress\<close>

lemma trim_keeps_first:
  assumes "num_digits h \<ge> 1" and "digits h 0 \<noteq> 0"
  shows "num_digits (trim h) \<ge> 1 \<and> digits (trim h) = digits h
       \<and> decimal_point (trim h) = decimal_point h"
  using assms
proof (induction h rule: trim.induct)
  case (1 h)
  show ?case
  proof (cases "num_digits h > 0 \<and> digits h (num_digits h - 1) = 0")
    case True
    then have t: "trim h = trim (h\<lparr>num_digits := num_digits h - 1\<rparr>)"
      by (subst trim.simps) simp
    have "num_digits h \<noteq> 1" using True "1.prems"(2) by auto
    then have "num_digits (h\<lparr>num_digits := num_digits h - 1\<rparr>) \<ge> 1"
      using "1.prems"(1) by simp
    from "1.IH" [OF True this] show ?thesis using t "1.prems"(2) by simp
  next
    case False
    then have "trim h = h" by (subst trim.simps) auto
    then show ?thesis using "1.prems" by simp
  qed
qed

lemma drop_bit_nonzero_ge:
  assumes "drop_bit shift n \<noteq> 0"
  shows "(2::nat) ^ shift \<le> n"
  using assms by (simp add: drop_bit_eq_div div_eq_0_iff)

lemma small_rshift_zeroes_result:
  assumes "small_rshift_zeroes shift rx n = (rx', n')" and "n \<ge> 1"
  shows "drop_bit shift n' \<noteq> 0 \<and> rx \<le> rx' \<and> (2 ^ shift \<le> n * 10 ^ j \<longrightarrow> rx' \<le> rx + j)
       \<and> (rx' = rx \<longrightarrow> n' = n)"
  using assms
proof (induction shift rx n arbitrary: j rule: small_rshift_zeroes.induct)
  case (1 shift rx n)
  show ?case
  proof (cases "drop_bit shift n = 0 \<and> n \<noteq> 0")
    case True
    then have e: "small_rshift_zeroes shift rx n = small_rshift_zeroes shift (rx + 1) (10 * n)"
      by (subst small_rshift_zeroes.simps) simp
    have lt: "n < 2 ^ shift" using True by (simp add: drop_bit_zero_less)
    have r: "small_rshift_zeroes shift (rx + 1) (10 * n) = (rx', n')"
      using "1.prems"(1) e by simp
    have n10: "10 * n \<ge> 1" using "1.prems"(2) by simp
    note ih = "1.IH" [OF True r n10]
    have b: "rx' \<le> rx + j" if le: "2 ^ shift \<le> n * 10 ^ j"
    proof -
      obtain k where j: "j = Suc k" using le lt by (cases j) auto
      then have "2 ^ shift \<le> 10 * n * 10 ^ k" using le by (simp add: mult.assoc mult.left_commute)
      then have "rx' \<le> rx + 1 + k" using ih [of k] by simp
      then show ?thesis using j by simp
    qed
    show ?thesis using ih [of 0] b by auto
  next
    case False
    then have "small_rshift_zeroes shift rx n = (rx, n)"
      by (subst small_rshift_zeroes.simps) auto
    then show ?thesis using "1.prems" False by auto
  qed
qed

lemma small_rshift_pick_up_result:
  assumes "n \<ge> 1" and "n < 10 * 2 ^ shift" and "shift \<le> 60"
    and "\<forall>i<num_digits h. digits h i \<le> 9"
  shows "\<exists>rx' n'. small_rshift_pick_up shift h rx n = Some (rx', n')
           \<and> drop_bit shift n' \<noteq> 0 \<and> rx \<le> rx' \<and> rx' \<le> max rx (num_digits h) + shift
           \<and> (rx' = rx \<longrightarrow> n' = n)"
  using assms
proof (induction shift h rx n rule: small_rshift_pick_up.induct)
  case (1 shift h rx n)
  show ?case
  proof (cases "drop_bit shift n = 0")
    case False
    then have "small_rshift_pick_up shift h rx n = Some (rx, n)"
      by (subst small_rshift_pick_up.simps) simp
    then show ?thesis using False by simp
  next
    case True
    then have m: "n < 2 ^ shift" by (rule drop_bit_zero_less)
    show ?thesis
    proof (cases "rx < num_digits h")
      case lt: True
      define n2 where "n2 = u64 (10 * n + digits h rx)"
      have c: "n2 < 10 * 2 ^ shift"
        unfolding n2_def using m lt "1.prems"(3,4) by (intro next_carry_small) simp_all
      have "10 * n + digits h rx < 10 * 2 ^ 60"
      proof -
        have "(2::nat) ^ shift \<le> 2 ^ 60" using "1.prems"(3) by (intro power_increasing) simp_all
        moreover have "digits h rx \<le> 9" using lt "1.prems"(4) by simp
        ultimately show ?thesis using m by simp
      qed
      then have "n2 = 10 * n + digits h rx" by (simp add: n2_def u64_def)
      then have p: "n2 \<ge> 1" using "1.prems"(1) by simp
      have e: "small_rshift_pick_up shift h rx n = small_rshift_pick_up shift h (rx + 1) n2"
        using True lt by (subst small_rshift_pick_up.simps) (simp add: n2_def)
      from "1.IH" [OF True lt p [unfolded n2_def] c [unfolded n2_def] "1.prems"(3,4)]
      obtain rx' n' where r: "small_rshift_pick_up shift h (rx + 1) n2 = Some (rx', n')"
        "drop_bit shift n' \<noteq> 0" "rx + 1 \<le> rx'" "rx' \<le> max (rx + 1) (num_digits h) + shift"
        unfolding n2_def by blast
      have "max (rx + 1) (num_digits h) = max rx (num_digits h)" using lt by simp
      then show ?thesis using r e by auto
    next
      case ge: False
      have n0: "n \<noteq> 0" using "1.prems"(1) by simp
      obtain rx' n' where z: "small_rshift_zeroes shift rx n = (rx', n')"
        by (cases "small_rshift_zeroes shift rx n") auto
      have e: "small_rshift_pick_up shift h rx n = Some (rx', n')"
        using True ge n0 z by (subst small_rshift_pick_up.simps) simp
      have "(2::nat) ^ shift \<le> 10 ^ shift" by (intro power_mono) simp_all
      also have "\<dots> \<le> n * 10 ^ shift" using "1.prems"(1) by simp
      finally have "2 ^ shift \<le> n * 10 ^ shift" .
      then have "drop_bit shift n' \<noteq> 0 \<and> rx \<le> rx' \<and> rx' \<le> rx + shift \<and> (rx' = rx \<longrightarrow> n' = n)"
        using small_rshift_zeroes_result [OF z "1.prems"(1), of shift] by blast
      then show ?thesis using e by auto
    qed
  qed
qed

lemma small_rshift_shift_frame:
  assumes "small_rshift_shift shift h rx wx n = (h1, wx1, n1)"
  shows "decimal_point h1 = decimal_point h \<and> (\<forall>i<wx. digits h1 i = digits h i) \<and> wx \<le> wx1
       \<and> (rx < num_digits h \<longrightarrow> wx < wx1 \<and> digits h1 wx = drop_bit shift n mod 256)"
  using assms
proof (induction shift h rx wx n rule: small_rshift_shift.induct)
  case (1 shift h rx wx n)
  show ?case
  proof (cases "rx < num_digits h")
    case False
    then have "small_rshift_shift shift h rx wx n = (h, wx, n)"
      by (subst small_rshift_shift.simps) simp
    then show ?thesis using "1.prems" False by auto
  next
    case True
    define new_digit where "new_digit = drop_bit shift n mod 256"
    define n2 where "n2 = u64 (10 * (n AND (2 ^ shift - 1)) + digits h rx)"
    let ?h' = "h\<lparr>digits := (digits h)(wx := new_digit)\<rparr>"
    have e: "small_rshift_shift shift h rx wx n = small_rshift_shift shift ?h' (rx + 1) (wx + 1) n2"
      using True by (subst small_rshift_shift.simps) (simp add: Let_def new_digit_def n2_def)
    have r: "small_rshift_shift shift ?h' (rx + 1) (wx + 1) n2 = (h1, wx1, n1)"
      using "1.prems" e by simp
    note ih = "1.IH" [OF True new_digit_def n2_def r]
    show ?thesis using ih True by (auto simp: new_digit_def)
  qed
qed

lemma small_rshift_put_down_frame:
  assumes "small_rshift_put_down shift h wx n = (h2, wx2)"
  shows "decimal_point h2 = decimal_point h \<and> (\<forall>i<wx. digits h2 i = digits h i) \<and> wx \<le> wx2
       \<and> (n > 0 \<and> wx < DIGITS_PRECISION \<longrightarrow> wx < wx2 \<and> digits h2 wx = drop_bit shift n mod 256)"
  using assms
proof (induction shift h wx n rule: small_rshift_put_down.induct)
  case (1 shift h wx n)
  show ?case
  proof (cases "n > 0")
    case False
    then have "small_rshift_put_down shift h wx n = (h, wx)"
      by (subst small_rshift_put_down.simps) simp
    then show ?thesis using "1.prems" False by auto
  next
    case True
    define new_digit where "new_digit = drop_bit shift n mod 256"
    define n2 where "n2 = 10 * (n AND (2 ^ shift - 1))"
    show ?thesis
    proof (cases "wx < DIGITS_PRECISION")
      case lt: True
      let ?h' = "h\<lparr>digits := (digits h)(wx := new_digit)\<rparr>"
      have e: "small_rshift_put_down shift h wx n = small_rshift_put_down shift ?h' (wx + 1) n2"
        using True lt
        by (subst small_rshift_put_down.simps) (simp add: Let_def new_digit_def n2_def)
      have r: "small_rshift_put_down shift ?h' (wx + 1) n2 = (h2, wx2)"
        using "1.prems" e by simp
      note ih = "1.IH"(1) [OF True new_digit_def n2_def lt r]
      show ?thesis using ih lt by (auto simp: new_digit_def)
    next
      case ge: False
      show ?thesis
      proof (cases "new_digit > 0")
        case pos: True
        let ?h' = "h\<lparr>truncated := True\<rparr>"
        have e: "small_rshift_put_down shift h wx n = small_rshift_put_down shift ?h' wx n2"
          using True ge pos
          by (subst small_rshift_put_down.simps) (simp add: Let_def new_digit_def n2_def)
        have r: "small_rshift_put_down shift ?h' wx n2 = (h2, wx2)"
          using "1.prems" e by simp
        note ih = "1.IH"(2) [OF True new_digit_def n2_def ge pos r]
        show ?thesis using ih ge by auto
      next
        case zero: False
        have e: "small_rshift_put_down shift h wx n = small_rshift_put_down shift h wx n2"
          using True ge zero
          by (subst small_rshift_put_down.simps) (simp add: Let_def new_digit_def n2_def)
        have r: "small_rshift_put_down shift h wx n2 = (h2, wx2)"
          using "1.prems" e by simp
        note ih = "1.IH"(3) [OF True new_digit_def n2_def ge zero r]
        show ?thesis using ih ge by auto
      qed
    qed
  qed
qed

text \<open>
  An HPD in the state the scaling loops keep: the invariant holds, there is a digit, and
  the first digit is not zero.  This is written out in each statement.
\<close>

lemma small_rshift_progress:
  assumes inv: "hpd_invariant h" and nd: "num_digits h > 0" and lead: "digits h 0 \<noteq> 0"
    and s1: "1 \<le> shift" and s60: "shift \<le> 60" and dp: "- 1000 \<le> decimal_point h"
  shows "hpd_invariant (small_rshift h shift) \<and> num_digits (small_rshift h shift) > 0
       \<and> digits (small_rshift h shift) 0 \<noteq> 0
       \<and> decimal_point h - 1000 \<le> decimal_point (small_rshift h shift)
       \<and> (decimal_point (small_rshift h shift) < decimal_point h
          \<or> decimal_point (small_rshift h shift) = decimal_point h
            \<and> digits (small_rshift h shift) 0 < digits h 0)"
proof -
  have ok: "num_digits h \<le> DIGITS_PRECISION" "\<forall>i<num_digits h. digits h i \<le> 9"
    using inv by (simp_all add: hpd_invariant_def hpd_digits_ok_iff)
  define d0 where "d0 = digits h 0"
  have d0: "1 \<le> d0" "d0 \<le> 9" using lead nd ok(2) by (simp_all add: d0_def)
  have "digits h 0 mod 2 ^ 64 = digits h 0" using d0(2) by (simp add: d0_def)
  then have first: "small_rshift_pick_up shift h 0 0 = small_rshift_pick_up shift h 1 d0"
    using nd by (subst small_rshift_pick_up.simps) (simp add: u64_def d0_def)
  have "d0 < 10 * 2 ^ shift"
  proof -
    have "(1::nat) \<le> 2 ^ shift" by simp
    then show ?thesis using d0(2) by linarith
  qed
  from small_rshift_pick_up_result [OF d0(1) this s60 ok(2), of 1]
  obtain rx n where pu: "small_rshift_pick_up shift h 0 0 = Some (rx, n)"
    and n: "drop_bit shift n \<noteq> 0" and rx1: "1 \<le> rx"
    and rxb: "rx \<le> max 1 (num_digits h) + shift" and same: "rx = 1 \<longrightarrow> n = d0"
    unfolding first by blast
  have nsmall: "n < 10 * 2 ^ shift"
    using small_rshift_pick_up_small [OF pu _ s60 ok(2)] by simp
  define v where "v = drop_bit shift n mod 256"
  have v9: "v \<le> 9" unfolding v_def by (rule shifted_digit_small [OF nsmall])
  have "n div 2 ^ shift \<ge> 1"
    using n by (simp add: drop_bit_eq_div Suc_le_eq)
  moreover have "n div 2 ^ shift < 10"
    using nsmall by (simp add: less_mult_imp_div_less mult.commute)
  ultimately have v1: "v \<ge> 1" and vdiv: "v = n div 2 ^ shift"
    by (simp_all add: v_def drop_bit_eq_div)
  define dp' where "dp' = decimal_point h - (int rx - 1)"
  have "rx \<le> 860" using rxb ok(1) s60 nd by (simp add: DIGITS_PRECISION_def)
  then have nounder: "\<not> dp' < - DECIMAL_POINT_RANGE" and dplow: "decimal_point h - 1000 \<le> dp'"
    using dp by (simp_all add: dp'_def DECIMAL_POINT_RANGE_def)
  obtain h1 wx1 n1 where s: "small_rshift_shift shift (h\<lparr>decimal_point := dp'\<rparr>) rx 0 n
      = (h1, wx1, n1)"
    by (cases "small_rshift_shift shift (h\<lparr>decimal_point := dp'\<rparr>) rx 0 n") auto
  obtain h2 wx2 where p: "small_rshift_put_down shift h1 wx1 n1 = (h2, wx2)"
    by (cases "small_rshift_put_down shift h1 wx1 n1") auto
  have res: "small_rshift h shift = trim (h2\<lparr>num_digits := wx2\<rparr>)"
    using pu nounder s p by (simp add: small_rshift_def dp'_def [symmetric] Let_def)
  note f1 = small_rshift_shift_frame [OF s]
  note f2 = small_rshift_put_down_frame [OF p]
  have dph2: "decimal_point h2 = dp'" using f1 f2 by simp
  have w: "wx2 \<ge> 1 \<and> digits h2 0 = v"
  proof (cases "rx < num_digits h")
    case True
    then have "0 < wx1 \<and> digits h1 0 = v" using f1 by (simp add: v_def)
    then show ?thesis using f2 by auto
  next
    case False
    then have "small_rshift_shift shift (h\<lparr>decimal_point := dp'\<rparr>) rx 0 n
        = (h\<lparr>decimal_point := dp'\<rparr>, 0, n)"
      by (subst small_rshift_shift.simps) simp
    then have "wx1 = 0" "n1 = n" using s by simp_all
    moreover have "n > 0"
    proof -
      have "(0::nat) < 2 ^ shift" by simp
      then show ?thesis using drop_bit_nonzero_ge [OF n] by linarith
    qed
    ultimately show ?thesis using f2 by (auto simp: v_def DIGITS_PRECISION_def)
  qed
  have t: "num_digits (trim (h2\<lparr>num_digits := wx2\<rparr>)) \<ge> 1
      \<and> digits (trim (h2\<lparr>num_digits := wx2\<rparr>)) = digits (h2\<lparr>num_digits := wx2\<rparr>)
      \<and> decimal_point (trim (h2\<lparr>num_digits := wx2\<rparr>)) = decimal_point (h2\<lparr>num_digits := wx2\<rparr>)"
    using w v1 by (intro trim_keeps_first) simp_all
  have r_nd: "num_digits (small_rshift h shift) > 0"
    and r_d0: "digits (small_rshift h shift) 0 = v"
    and r_dp: "decimal_point (small_rshift h shift) = dp'"
    using t w dph2 unfolding res by simp_all
  have prog: "dp' < decimal_point h \<or> dp' = decimal_point h \<and> v < d0"
  proof (cases "rx = 1")
    case True
    then have "n = d0" using same by simp
    moreover have "d0 div 2 ^ shift < d0"
    proof (rule div_less_dividend)
      have "(2::nat) ^ 1 \<le> 2 ^ shift" using s1 by (intro power_increasing) simp_all
      then show "1 < (2::nat) ^ shift" by simp
      show "0 < d0" using d0(1) by simp
    qed
    ultimately show ?thesis using True by (simp add: vdiv dp'_def)
  next
    case False
    then show ?thesis using rx1 by (simp add: dp'_def)
  qed
  show ?thesis
    using small_rshift_invariant [OF inv s60] r_nd r_d0 r_dp v1 dplow prog
    by (simp add: d0_def)
qed


subsection \<open>The digit comparison of lshift\_num\_new\_digits, as a comparison of values\<close>

lemma digits_value_Cons: "digits_value (x # xs) = x * 10 ^ length xs + digits_value xs"
proof (induction xs rule: rev_induct)
  case Nil
  then show ?case by (simp add: digits_value_def)
next
  case (snoc d ys)
  have "digits_value (x # ys @ [d]) = 10 * digits_value (x # ys) + d"
    using digits_value_snoc [of "x # ys" d] by simp
  then show ?case using snoc by (simp add: digits_value_snoc algebra_simps)
qed

lemma digits_value_less:
  assumes "list_all (\<lambda>d. d \<le> 9) xs"
  shows "digits_value xs < 10 ^ length xs"
  using assms
proof (induction xs rule: rev_induct)
  case Nil
  then show ?case by (simp add: digits_value_def)
next
  case (snoc d ys)
  then have "digits_value ys < 10 ^ length ys" and "d \<le> 9" by simp_all
  then have "10 * digits_value ys + d < 10 * 10 ^ length ys" by linarith
  then show ?case by (simp add: digits_value_snoc)
qed

lemma digits_value_last_pos:
  assumes "ys \<noteq> []" and "last ys \<noteq> 0"
  shows "digits_value ys > 0"
proof -
  have "ys = butlast ys @ [last ys]" using assms(1) by simp
  then have "digits_value ys = 10 * digits_value (butlast ys) + last ys"
    using digits_value_snoc [of "butlast ys" "last ys"] by simp
  then show ?thesis using assms(2) by simp
qed

lemma lex_less_value:
  assumes "xs < ys" and "list_all (\<lambda>d. d \<le> 9) xs" and "ys \<noteq> [] \<longrightarrow> last ys \<noteq> 0"
  shows "digits_value xs * 10 ^ length ys < digits_value ys * 10 ^ length xs"
  using assms
proof (induction xs arbitrary: ys)
  case Nil
  then have "ys \<noteq> []" by auto
  then have "digits_value ys > 0" using Nil.prems(3) by (intro digits_value_last_pos) simp_all
  then show ?case by (simp add: digits_value_def)
next
  case (Cons x xs)
  obtain y ys' where ys: "ys = y # ys'" using Cons.prems(1) by (cases ys) auto
  define a where "a = length xs"
  define b where "b = length ys'"
  have vx: "digits_value xs < 10 ^ a"
    unfolding a_def using Cons.prems(2) by (intro digits_value_less) simp
  have cases: "x < y \<or> x = y \<and> xs < ys'" using Cons.prems(1) ys by simp
  show ?case
  proof (cases "x < y")
    case True
    have "digits_value (x # xs) < (x + 1) * 10 ^ a"
      using vx by (simp add: digits_value_Cons a_def)
    also have "\<dots> \<le> y * 10 ^ a" using True by (intro mult_right_mono) simp_all
    finally have "digits_value (x # xs) * 10 ^ (b + 1) < y * 10 ^ a * 10 ^ (b + 1)"
      by simp
    also have "\<dots> = (y * 10 ^ b) * 10 ^ (a + 1)" by simp
    also have "\<dots> \<le> digits_value (y # ys') * 10 ^ (a + 1)"
      by (intro mult_right_mono) (simp_all add: digits_value_Cons b_def)
    finally show ?thesis by (simp add: ys a_def b_def)
  next
    case False
    then have xy: "x = y" and lt: "xs < ys'" using cases by simp_all
    have l: "ys' \<noteq> [] \<longrightarrow> last ys' \<noteq> 0" using Cons.prems(3) ys by auto
    have "digits_value xs * 10 ^ b < digits_value ys' * 10 ^ a"
      unfolding a_def b_def using Cons.prems(2) by (intro Cons.IH [OF lt _ l]) simp
    then have "digits_value xs * 10 ^ b * 10 < digits_value ys' * 10 ^ a * 10" by simp
    then show ?thesis
      by (simp add: ys xy digits_value_Cons a_def [symmetric] b_def [symmetric] algebra_simps)
  qed
qed

lemma pow5_rows_lengths:
  "map length pow5_rows = map (\<lambda>s. s + 1 - max_new_digits s) [1..<61]"
  by (simp add: upt_conv_Cons pow5_rows_def max_new_digits_def hpd_left_shift_def drop_bit_eq_div)

lemma pow5_rows_last: "list_all (\<lambda>r. last r \<noteq> 0) pow5_rows"
  by (simp add: pow5_rows_def)

lemma pow5_slice_facts:
  assumes "1 \<le> s" and "s \<le> 60"
  shows "digits_value (pow5_slice s) = 5 ^ s"
    and "length (pow5_slice s) + max_new_digits s = s + 1"
    and "pow5_slice s \<noteq> [] \<longrightarrow> last (pow5_slice s) \<noteq> 0"
proof -
  have j: "s - 1 < length pow5_rows" using assms by (simp add: length_pow5_rows)
  have row: "pow5_slice s = pow5_rows ! (s - 1)" by (rule pow5_slice_row(1) [OF assms])
  have idx: "[1..<61] ! (s - 1) = s" using assms by (simp add: nth_upt)
  have "map digits_value pow5_rows ! (s - 1) = map (\<lambda>s. 5 ^ s) [1..<61] ! (s - 1)"
    unfolding pow5_rows_values ..
  then show "digits_value (pow5_slice s) = 5 ^ s"
    using j assms idx by (simp add: row)
  have "map length pow5_rows ! (s - 1) = map (\<lambda>s. s + 1 - max_new_digits s) [1..<61] ! (s - 1)"
    unfolding pow5_rows_lengths ..
  then have "length (pow5_slice s) = s + 1 - max_new_digits s"
    using j assms idx by (simp add: row)
  moreover have "max_new_digits s \<le> 19" "10 ^ (max_new_digits s - 1) \<le> (2::nat) ^ s"
    using max_new_digits_facts [OF assms] by simp_all
  moreover have "max_new_digits s \<le> s + 1"
  proof (rule ccontr)
    assume "\<not> max_new_digits s \<le> s + 1"
    then have "s + 1 \<le> max_new_digits s - 1" by simp
    then have "(10::nat) ^ (s + 1) \<le> 10 ^ (max_new_digits s - 1)"
      by (intro power_increasing) simp_all
    also have "\<dots> \<le> 2 ^ s" by fact
    also have "\<dots> \<le> 10 ^ s" by (intro power_mono) simp_all
    finally show False by simp
  qed
  ultimately show "length (pow5_slice s) + max_new_digits s = s + 1" by simp
  show "pow5_slice s \<noteq> [] \<longrightarrow> last (pow5_slice s) \<noteq> 0"
    using pow5_rows_last j by (simp add: row list_all_length)
qed

lemma max_new_digits_ge_1:
  assumes "1 \<le> s" and "s \<le> 60"
  shows "1 \<le> max_new_digits s" and "(2::nat) ^ s < 10 ^ max_new_digits s"
proof -
  have "s \<in> set [1..<61]" using assms by simp
  then show "1 \<le> max_new_digits s" and "(2::nat) ^ s < 10 ^ max_new_digits s"
    using max_new_digits_pow2 by blast+
qed

lemma lshift_lex_value:
  assumes "1 \<le> s" and "s \<le> 60" and "list_all (\<lambda>d. d \<le> 9) (hpd_digit_list h)"
    and "hpd_digit_list h < pow5_slice s"
  shows "digits_value (hpd_digit_list h) * 2 ^ s < 10 ^ (num_digits h + max_new_digits s - 1)"
proof -
  define V where "V = digits_value (hpd_digit_list h)"
  define L where "L = length (pow5_slice s)"
  define N where "N = max_new_digits s"
  define nd where "nd = num_digits h"
  note f = pow5_slice_facts [OF assms(1,2)]
  have LN: "L + N = s + 1" using f(2) by (simp add: L_def N_def)
  have "V * 10 ^ L < 5 ^ s * 10 ^ nd"
    using lex_less_value [OF assms(4,3) f(3)] by (simp add: V_def L_def nd_def f(1))
  then have "V * 10 ^ L * 2 ^ s < 5 ^ s * 10 ^ nd * 2 ^ s" by simp
  also have "\<dots> = 10 ^ s * 10 ^ nd"
    by (simp add: power_mult_distrib [symmetric] mult.assoc mult.left_commute mult.commute)
  also have "\<dots> = 10 ^ (nd + N - 1) * 10 ^ L"
  proof -
    have "1 \<le> N" unfolding N_def by (rule max_new_digits_ge_1(1) [OF assms(1,2)])
    then have "s + nd = (nd + N - 1) + L" using LN by simp
    then show ?thesis by (simp add: power_add [symmetric])
  qed
  finally have "(V * 2 ^ s) * 10 ^ L < 10 ^ (nd + N - 1) * 10 ^ L"
    by (simp add: mult.assoc mult.left_commute mult.commute)
  then show ?thesis by (simp add: V_def nd_def N_def)
qed


subsection \<open>small\_lshift makes progress\<close>

lemma prefix_value_Suc:
  "digits_value (map f [0..<Suc k]) = 10 * digits_value (map f [0..<k]) + f k"
  by (simp add: digits_value_snoc)

lemma small_lshift_put_other:
  assumes "int i \<noteq> wx"
  shows "digits (small_lshift_put h wx rem) i = digits h i"
  using assms by (auto simp: small_lshift_put_def)

lemma small_lshift_put_at:
  assumes "0 \<le> wx" and "wx < int DIGITS_PRECISION" and "rem \<le> 9"
  shows "digits (small_lshift_put h wx rem) (nat wx) = rem"
  using assms by (simp add: small_lshift_put_def)

text \<open>
  The first loop of \<^verbatim>\<open>small_lshift\<close> leaves the carry of the shifted digits: with \<open>P\<close> the
  number that the digits \<open>0, \<dots>, rx\<close> spell, the carry is \<open>(n + P * 2 ^ s) div 10 ^ (rx + 1)\<close>.
  It does not touch the digits below its last write.
\<close>

lemma small_lshift_pick_up_carry:
  assumes "small_lshift_pick_up s h rx wx n = (h1, wx1, n1)"
    and "s \<le> 60" and "n < 2 ^ s" and "- 1 \<le> rx" and "rx < int (num_digits h)"
    and "\<forall>i<num_digits h. digits h i \<le> 9" and "rx \<le> wx"
  shows "n1 = (n + digits_value (map (digits h) [0..<nat (rx + 1)]) * 2 ^ s) div 10 ^ nat (rx + 1)
       \<and> n1 < 2 ^ s
       \<and> (\<forall>i. int i \<le> wx - (rx + 1) \<longrightarrow> digits h1 i = digits h i)"
  using assms
proof (induction s h rx wx n rule: small_lshift_pick_up.induct)
  case (1 s h rx wx n)
  show ?case
  proof (cases "rx \<ge> 0")
    case False
    then have "small_lshift_pick_up s h rx wx n = (h, wx, n)"
      by (subst small_lshift_pick_up.simps) simp
    moreover have "rx = - 1" using False "1.prems"(4) by simp
    ultimately show ?thesis
      using "1.prems"(1,3) by (auto simp: digits_value_def)
  next
    case True
    define k where "k = nat rx"
    have rx: "rx = int k" using True by (simp add: k_def)
    define d where "d = digits h (nat rx)"
    have d9: "d \<le> 9" using "1.prems"(5,6) True by (simp add: d_def)
    define m where "m = u64 (n + u64 (d * 2 ^ s))"
    define quo where "quo = m div 10"
    define rem where "rem = m - 10 * quo"
    let ?h' = "small_lshift_put h wx rem"
    have m: "m = n + d * 2 ^ s"
      unfolding m_def by (rule lshift_step(1) [OF "1.prems"(3) d9 "1.prems"(2)])
    have q: "quo < 2 ^ s"
      unfolding quo_def m by (rule lshift_step(2) [OF "1.prems"(3) d9 "1.prems"(2)])
    have r9: "rem \<le> 9"
      unfolding rem_def quo_def m by (rule lshift_step(3) [OF "1.prems"(3) d9 "1.prems"(2)])
    have e: "small_lshift_pick_up s h rx wx n = small_lshift_pick_up s ?h' (rx - 1) (wx - 1) quo"
      unfolding rem_def quo_def m_def d_def
      by (subst small_lshift_pick_up.simps) (simp only: True if_True Let_def)
    have r: "small_lshift_pick_up s ?h' (rx - 1) (wx - 1) quo = (h1, wx1, n1)"
      using "1.prems"(1) e by simp
    have keep: "digits ?h' i \<le> 9" if "digits h i \<le> 9" for i
      by (rule small_lshift_put_keep [OF r9 that])
    have same: "digits ?h' i = digits h i" if "i < k" for i
      using that "1.prems"(7) rx by (intro small_lshift_put_other) simp
    have ih: "n1 = (quo + digits_value (map (digits ?h') [0..<nat (rx - 1 + 1)]) * 2 ^ s)
                    div 10 ^ nat (rx - 1 + 1)
       \<and> n1 < 2 ^ s
       \<and> (\<forall>i. int i \<le> wx - 1 - (rx - 1 + 1) \<longrightarrow> digits h1 i = digits ?h' i)"
    proof (rule "1.IH" [OF True m_def [unfolded d_def] quo_def rem_def r "1.prems"(2) q])
      show "- 1 \<le> rx - 1" using True by simp
      show "rx - 1 < int (num_digits ?h')" using "1.prems"(5) by simp
      show "\<forall>i<num_digits ?h'. digits ?h' i \<le> 9" using "1.prems"(6) keep by simp
      show "rx - 1 \<le> wx - 1" using "1.prems"(7) by simp
    qed
    have pm: "map (digits ?h') [0..<k] = map (digits h) [0..<k]"
      using same by simp
    define P where "P = digits_value (map (digits h) [0..<k])"
    have n1: "n1 = (quo + P * 2 ^ s) div 10 ^ k"
      using ih by (simp add: rx pm P_def)
    have full: "digits_value (map (digits h) [0..<nat (rx + 1)]) = 10 * P + d"
      unfolding P_def d_def rx using prefix_value_Suc [of "digits h" k] by (simp add: nat_add_distrib)
    have "(n + (10 * P + d) * 2 ^ s) div 10 ^ nat (rx + 1)
            = ((m + 10 * (P * 2 ^ s)) div 10) div 10 ^ k"
      unfolding m rx by (simp add: nat_add_distrib div_mult2_eq algebra_simps)
    also have "(m + 10 * (P * 2 ^ s)) div 10 = quo + P * 2 ^ s"
      by (simp add: quo_def)
    finally have c1: "n1 = (n + digits_value (map (digits h) [0..<nat (rx + 1)]) * 2 ^ s)
        div 10 ^ nat (rx + 1)"
      using n1 full by simp
    have c3: "digits h1 i = digits h i" if "int i \<le> wx - (rx + 1)" for i
    proof -
      have "digits h1 i = digits ?h' i" using ih that by simp
      also have "\<dots> = digits h i" using that True by (intro small_lshift_put_other) simp
      finally show ?thesis .
    qed
    show ?thesis using c1 ih c3 by blast
  qed
qed

lemma small_lshift_put_down_lead:
  assumes "n < 10 ^ nat (wx + 1)" and "- 1 \<le> wx" and "wx < int DIGITS_PRECISION"
    and "digits h 0 \<noteq> 0"
  shows "digits (small_lshift_put_down h wx n) 0 \<noteq> 0"
  using assms
proof (induction h wx n rule: small_lshift_put_down.induct)
  case (1 h wx n)
  show ?case
  proof (cases "n > 0")
    case False
    then show ?thesis using "1.prems"(4) by (subst small_lshift_put_down.simps) simp
  next
    case True
    have wx0: "0 \<le> wx"
    proof (rule ccontr)
      assume "\<not> 0 \<le> wx"
      then have "wx = - 1" using "1.prems"(2) by simp
      then show False using "1.prems"(1) True by simp
    qed
    let ?rem = "n - 10 * (n div 10)"
    have r9: "?rem \<le> 9" by (simp add: minus_mult_div_eq_mod)
    let ?h' = "small_lshift_put h wx ?rem"
    have e: "small_lshift_put_down h wx n = small_lshift_put_down ?h' (wx - 1) (n div 10)"
      using True by (subst small_lshift_put_down.simps) (simp add: Let_def)
    have "nat (wx + 1) = Suc (nat wx)" using wx0 by simp
    then have "n < 10 * 10 ^ nat wx" using "1.prems"(1) by simp
    then have q: "n div 10 < 10 ^ nat (wx - 1 + 1)" by simp
    have lead: "digits ?h' 0 \<noteq> 0"
    proof (cases "wx = 0")
      case True
      then have "n < 10" using "1.prems"(1) by simp
      then have "?rem = n" by simp
      moreover have "digits ?h' (nat wx) = ?rem"
        using wx0 "1.prems"(3) r9 by (rule small_lshift_put_at)
      ultimately show ?thesis using True \<open>n > 0\<close> by simp
    next
      case False
      then have "digits ?h' 0 = digits h 0" by (intro small_lshift_put_other) simp
      then show ?thesis using "1.prems"(4) by simp
    qed
    have "digits (small_lshift_put_down ?h' (wx - 1) (n div 10)) 0 \<noteq> 0"
    proof (rule "1.IH" [OF True refl refl q])
      show "- 1 \<le> wx - 1" using wx0 by simp
      show "wx - 1 < int DIGITS_PRECISION" using "1.prems"(3) by simp
      show "digits ?h' 0 \<noteq> 0" by (rule lead)
    qed
    then show ?thesis unfolding e .
  qed
qed

lemma small_lshift_pick_up_lead:
  assumes "small_lshift_pick_up s h rx rx n = (h1, wx1, 0)"
    and "s \<le> 60" and "n < 2 ^ s" and "0 \<le> rx" and "rx < int (num_digits h)"
    and "\<forall>i<num_digits h. digits h i \<le> 9" and "rx < int DIGITS_PRECISION"
  shows "digits h 0 * 2 ^ s \<le> digits h1 0"
  using assms
proof (induction s h rx wx\<equiv>rx n rule: small_lshift_pick_up.induct)
  case (1 s h rx n)
  define d where "d = digits h (nat rx)"
  have d9: "d \<le> 9" using "1.prems"(4,5,6) by (simp add: d_def)
  define m where "m = u64 (n + u64 (d * 2 ^ s))"
  define quo where "quo = m div 10"
  define rem where "rem = m - 10 * quo"
  let ?h' = "small_lshift_put h rx rem"
  have m: "m = n + d * 2 ^ s"
    unfolding m_def by (rule lshift_step(1) [OF "1.prems"(3) d9 "1.prems"(2)])
  have q: "quo < 2 ^ s"
    unfolding quo_def m by (rule lshift_step(2) [OF "1.prems"(3) d9 "1.prems"(2)])
  have r9: "rem \<le> 9"
    unfolding rem_def quo_def m by (rule lshift_step(3) [OF "1.prems"(3) d9 "1.prems"(2)])
  have e: "small_lshift_pick_up s h rx rx n = small_lshift_pick_up s ?h' (rx - 1) (rx - 1) quo"
    unfolding rem_def quo_def m_def d_def
    by (subst small_lshift_pick_up.simps) (simp only: "1.prems"(4) if_True Let_def)
  have r: "small_lshift_pick_up s ?h' (rx - 1) (rx - 1) quo = (h1, wx1, 0)"
    using "1.prems"(1) e by simp
  have keep: "digits ?h' i \<le> 9" if "digits h i \<le> 9" for i
    by (rule small_lshift_put_keep [OF r9 that])
  show ?case
  proof (cases "rx = 0")
    case True
    have "small_lshift_pick_up s ?h' (rx - 1) (rx - 1) quo = (?h', rx - 1, quo)"
      using True by (subst small_lshift_pick_up.simps) simp
    then have h1: "h1 = ?h'" and "quo = 0" using r by simp_all
    then have "m < 10" by (simp add: quo_def)
    then have "rem = m" by (simp add: rem_def quo_def)
    moreover have "digits ?h' (nat rx) = rem"
      using "1.prems"(4,7) r9 by (rule small_lshift_put_at)
    ultimately have "digits h1 0 = n + digits h 0 * 2 ^ s"
      using True h1 m by (simp add: d_def)
    then show ?thesis by simp
  next
    case False
    then have pos: "0 \<le> rx - 1" using "1.prems"(4) by simp
    have "digits ?h' 0 * 2 ^ s \<le> digits h1 0"
    proof (rule "1.hyps" [OF "1.prems"(4) m_def [unfolded d_def] quo_def rem_def r
          "1.prems"(2) q pos])
      show "rx - 1 < int (num_digits ?h')" using "1.prems"(5) by simp
      show "\<forall>i<num_digits ?h'. digits ?h' i \<le> 9" using "1.prems"(6) keep by simp
      show "rx - 1 < int DIGITS_PRECISION" using "1.prems"(7) by simp
    qed
    moreover have "digits ?h' 0 = digits h 0"
      using False by (intro small_lshift_put_other) simp
    ultimately show ?thesis by simp
  qed
qed

lemma small_lshift_progress:
  assumes inv: "hpd_invariant h" and nd: "num_digits h > 0" and lead: "digits h 0 \<noteq> 0"
    and s1: "1 \<le> s" and s60: "s \<le> 60"
  shows "hpd_invariant (small_lshift h s) \<and> num_digits (small_lshift h s) > 0
       \<and> digits (small_lshift h s) 0 \<noteq> 0
       \<and> decimal_point (small_lshift h s) \<le> decimal_point h + 19
       \<and> (decimal_point h < decimal_point (small_lshift h s)
          \<or> decimal_point (small_lshift h s) = decimal_point h
            \<and> digits h 0 < digits (small_lshift h s) 0)"
proof -
  define nd where "nd = num_digits h"
  define new where "new = lshift_num_new_digits h s"
  define N where "N = max_new_digits s"
  define V where "V = digits_value (hpd_digit_list h)"
  define d0 where "d0 = digits h 0"
  have ok: "nd \<le> DIGITS_PRECISION" "\<forall>i<num_digits h. digits h i \<le> 9"
    using inv by (simp_all add: hpd_invariant_def hpd_digits_ok_iff nd_def)
  have ok3: "list_all (\<lambda>d. d \<le> 9) (hpd_digit_list h)"
    using inv by (simp add: hpd_invariant_def hpd_digits_ok_def)
  have nd0: "nd > 0" using nd by (simp add: nd_def)
  have d0: "1 \<le> d0" using lead by (simp add: d0_def)
  have lex: "new = (if hpd_digit_list h < pow5_slice s then N - 1 else N)"
    unfolding new_def N_def by (rule lshift_num_new_digits_lex [OF s1 s60])
  have N19: "N \<le> 19" and N1: "1 \<le> N" and pN: "(2::nat) ^ s < 10 ^ N"
    unfolding N_def using max_new_digits_facts [OF s1 s60] max_new_digits_ge_1 [OF s1 s60]
    by simp_all
  have newN: "new \<le> N" using lex by simp
  define wx where "wx = int nd - 1 + int new"
  have wx: "int (u32 (nd - 1 + new)) = wx"
    using nd0 ok(1) newN N19 by (simp add: u32_def wx_def DIGITS_PRECISION_def)
  have tot: "u32 (nd + new) = nd + new"
    using ok(1) newN N19 by (simp add: u32_def DIGITS_PRECISION_def)
  have s32: "s32 new = int new" using newN N19 by (simp add: s32_def)
  obtain h1 wx1 n1 where pu: "small_lshift_pick_up s h (int nd - 1) wx 0 = (h1, wx1, n1)"
    by (cases "small_lshift_pick_up s h (int nd - 1) wx 0") auto
  define h2 where "h2 = small_lshift_put_down h1 wx1 n1"
  define U where "U = small_lshift_untrimmed h s"
  have res: "U = h2\<lparr>num_digits := (if nd + new > DIGITS_PRECISION then DIGITS_PRECISION else nd + new),
         decimal_point := decimal_point h + int new\<rparr>"
    unfolding U_def small_lshift_untrimmed_def Let_def new_def [symmetric] nd_def [symmetric]
      wx tot pu s32
    by (simp add: h2_def)
  have basic: "wx1 = wx - (int nd - 1 + 1)
       \<and> 0 div 10 ^ nat (int nd - 1 + 1) \<le> n1
       \<and> (\<forall>i. digits h i \<le> 9 \<longrightarrow> digits h1 i \<le> 9)
       \<and> (\<forall>i. wx1 < int i \<and> int i \<le> wx \<and> i < DIGITS_PRECISION \<longrightarrow> digits h1 i \<le> 9)"
    using ok(2) nd0 by (intro small_lshift_pick_up_ok [OF pu s60]) (simp_all add: nd_def)
  then have wx1: "wx1 = int new - 1" by (simp add: wx_def)
  have carry: "n1 = (0 + digits_value (map (digits h) [0..<nat (int nd - 1 + 1)]) * 2 ^ s)
                      div 10 ^ nat (int nd - 1 + 1)
       \<and> n1 < 2 ^ s
       \<and> (\<forall>i. int i \<le> wx - (int nd - 1 + 1) \<longrightarrow> digits h1 i = digits h i)"
    using ok(2) nd0
    by (intro small_lshift_pick_up_carry [OF pu s60]) (simp_all add: nd_def wx_def)
  have n1: "n1 = (V * 2 ^ s) div 10 ^ nd"
    using carry by (simp add: V_def hpd_digit_list_def nd_def)
  have small: "n1 < 10 ^ new"
  proof (cases "hpd_digit_list h < pow5_slice s")
    case False
    then have "new = N" using lex by simp
    moreover have "n1 < 2 ^ s" using carry by simp
    ultimately show ?thesis using pN by simp
  next
    case True
    then have new': "new = N - 1" using lex by simp
    have "V * 2 ^ s < 10 ^ (nd + N - 1)"
      unfolding V_def nd_def N_def by (rule lshift_lex_value [OF s1 s60 ok3 True])
    also have "\<dots> = 10 ^ new * 10 ^ nd"
      using N1 by (simp add: new' power_add [symmetric] add.commute)
    finally show ?thesis unfolding n1 by (rule less_mult_imp_div_less)
  qed
  have top: "digits h2 0 \<noteq> 0 \<and> (new = 0 \<longrightarrow> d0 < digits h2 0)"
  proof (cases "new = 0")
    case False
    have "digits h1 0 = digits h 0" using carry False by (simp add: wx_def)
    then have "digits h1 0 \<noteq> 0" using lead by simp
    moreover have "n1 < 10 ^ nat (wx1 + 1)" using small False by (simp add: wx1 nat_diff_distrib)
    moreover have "- 1 \<le> wx1" "wx1 < int DIGITS_PRECISION"
      using newN N19 by (simp_all add: wx1 DIGITS_PRECISION_def)
    ultimately have "digits h2 0 \<noteq> 0"
      unfolding h2_def by (intro small_lshift_put_down_lead)
    then show ?thesis using False by simp
  next
    case True
    then have z: "n1 = 0" using small by simp
    have w: "wx = int nd - 1" using True by (simp add: wx_def)
    have a: "d0 * 2 ^ s \<le> digits h1 0"
      unfolding d0_def using nd0 ok(1,2)
      by (intro small_lshift_pick_up_lead [OF pu [unfolded w z] s60]) (simp_all add: nd_def)
    have "(2::nat) ^ 1 \<le> 2 ^ s" using s1 by (intro power_increasing) simp_all
    then have "d0 * 2 ^ 1 \<le> d0 * 2 ^ s" by (rule mult_left_mono) simp
    then have b: "2 * d0 \<le> d0 * 2 ^ s" by simp
    have "d0 < digits h1 0" using a b d0 by linarith
    moreover have "h2 = h1"
      unfolding h2_def z by (subst small_lshift_put_down.simps) simp
    ultimately show ?thesis using d0 by simp
  qed
  have Und: "num_digits U \<ge> 1" using nd0 by (simp add: res DIGITS_PRECISION_def)
  have Ud: "digits U 0 = digits h2 0" and Udp: "decimal_point U = decimal_point h + int new"
    by (simp_all add: res)
  have t: "num_digits (trim U) \<ge> 1 \<and> digits (trim U) = digits U
      \<and> decimal_point (trim U) = decimal_point U"
    using Und top Ud by (intro trim_keeps_first) simp_all
  have r: "small_lshift h s = trim U"
    using nd by (simp add: small_lshift_def U_def)
  have prog: "decimal_point h < decimal_point h + int new
        \<or> decimal_point h + int new = decimal_point h \<and> d0 < digits h2 0"
    using top by (cases "new = 0") simp_all
  have fd: "digits (small_lshift h s) 0 = digits h2 0" using t Ud r by simp
  have fdp: "decimal_point (small_lshift h s) = decimal_point h + int new" using t Udp r by simp
  have fnd: "num_digits (small_lshift h s) > 0" using t r by simp
  have f19: "decimal_point h + int new \<le> decimal_point h + 19" using newN N19 by simp
  show ?thesis
    unfolding fd fdp
    using small_lshift_invariant [OF inv s1 s60] fnd top prog f19
    by (simp add: d0_def)
qed


subsection \<open>The scaling loops end\<close>

lemma powers_range:
  assumes "1 \<le> n"
  shows "1 \<le> (if n < num_powers then powers ! n else SHIFT_MAX_INCL)
       \<and> (if n < num_powers then powers ! n else SHIFT_MAX_INCL) \<le> 60"
proof (cases "n < num_powers")
  case False
  then show ?thesis by (simp add: SHIFT_MAX_INCL_def)
next
  case True
  have "\<forall>k \<in> set [1..<19]. 1 \<le> powers ! k \<and> powers ! k \<le> 60"
    by (simp add: upt_conv_Cons powers_def)
  moreover have "n \<in> set [1..<19]" using True assms by (simp add: num_powers_def)
  ultimately show ?thesis using True by simp
qed

lemma invariant_first_digit:
  assumes "hpd_invariant h" and "num_digits h > 0"
  shows "digits h 0 \<le> 9"
  using assms by (simp add: hpd_invariant_def hpd_digits_ok_iff)

lemma scale_right_total:
  assumes "hpd_invariant h" and "num_digits h > 0" and "digits h 0 \<noteq> 0"
  shows "\<exists>r. scale_right h e = Some r
           \<and> (\<forall>h' e'. r = Next (h', e') \<longrightarrow>
                 hpd_invariant h' \<and> num_digits h' > 0 \<and> digits h' 0 \<noteq> 0)"
  using assms
proof (induction "nat (decimal_point h) * 10 + digits h 0" arbitrary: h e rule: less_induct)
  case less
  show ?case
  proof (cases "decimal_point h > 0")
    case False
    then have "scale_right h e = Some (Next (h, e))"
      by (subst scale_right.simps) simp
    then show ?thesis using less.prems by simp
  next
    case True
    define n where "n = nat (decimal_point h)"
    define shift where "shift = (if n < num_powers then powers ! n else SHIFT_MAX_INCL)"
    define h1 where "h1 = small_rshift h shift"
    have n1: "1 \<le> n" using True by (simp add: n_def)
    have sh: "1 \<le> shift" "shift \<le> 60"
      unfolding shift_def using powers_range [OF n1] by simp_all
    have dp: "- 1000 \<le> decimal_point h" using True by simp
    note p = small_rshift_progress [OF less.prems sh dp, folded h1_def]
    have e: "scale_right h e =
        (if decimal_point h1 < - DECIMAL_POINT_RANGE then Some (Goto_zero h1)
         else scale_right h1 (e + int shift))"
      using True
      by (subst scale_right.simps) (simp add: Let_def n_def [symmetric] shift_def [symmetric]
            h1_def [symmetric])
    show ?thesis
    proof (cases "decimal_point h1 < - DECIMAL_POINT_RANGE")
      case under: True
      then show ?thesis using e by simp
    next
      case False
      have d9: "digits h1 0 \<le> 9" using p by (intro invariant_first_digit) simp_all
      have "nat (decimal_point h1) * 10 + digits h1 0 < nat (decimal_point h) * 10 + digits h 0"
      proof (cases "decimal_point h1 < decimal_point h")
        case lt: True
        then have "nat (decimal_point h1) + 1 \<le> nat (decimal_point h)" using True by simp
        then have "(nat (decimal_point h1) + 1) * 10 \<le> nat (decimal_point h) * 10"
          by (rule mult_right_mono) simp
        then show ?thesis using d9 by simp
      next
        case False
        then show ?thesis using p by simp
      qed
      from less.hyps [OF this, of "e + int shift"] p
      show ?thesis using e False by simp
    qed
  qed
qed

lemma scale_left_total:
  assumes "hpd_invariant h" and "num_digits h > 0" and "digits h 0 \<noteq> 0"
  shows "\<exists>r. scale_left h e = Some r"
  using assms
proof (induction "nat (1 - decimal_point h) * 10 + (9 - digits h 0)" arbitrary: h e
    rule: less_induct)
  case less
  show ?case
  proof (cases "decimal_point h \<le> 0 \<and> \<not> (decimal_point h = 0 \<and> digits h 0 \<ge> 5)")
    case False
    then have "scale_left h e = Some (Next (h, e))"
      by (subst scale_left.simps) auto
    then show ?thesis by simp
  next
    case True
    define shift where "shift =
      (if decimal_point h = 0 then (if digits h 0 \<le> 2 then 2 else 1)
       else
         (let n = nat (- decimal_point h)
          in if n < num_powers then powers ! n else SHIFT_MAX_INCL))"
    define h1 where "h1 = small_lshift h shift"
    have sh: "1 \<le> shift" "shift \<le> 60"
    proof -
      show "1 \<le> shift"
      proof (cases "decimal_point h = 0")
        case True
        then show ?thesis by (simp add: shift_def)
      next
        case False
        then have "1 \<le> nat (- decimal_point h)" using True by simp
        from powers_range [OF this] show ?thesis using False by (simp add: shift_def Let_def)
      qed
      show "shift \<le> 60"
      proof (cases "decimal_point h = 0")
        case True
        then show ?thesis by (simp add: shift_def)
      next
        case False
        then have "1 \<le> nat (- decimal_point h)" using True by simp
        from powers_range [OF this] show ?thesis using False by (simp add: shift_def Let_def)
      qed
    qed
    note p = small_lshift_progress [OF less.prems sh, folded h1_def]
    have e: "scale_left h e =
        (if decimal_point h1 > DECIMAL_POINT_RANGE then Some (Goto_infinity h1)
         else scale_left h1 (e - int shift))"
      using True
      by (subst scale_left.simps)
         (simp only: Let_def shift_def [unfolded Let_def, symmetric] h1_def [symmetric]
            simp_thms if_True if_False)
    show ?thesis
    proof (cases "decimal_point h1 > DECIMAL_POINT_RANGE")
      case over: True
      then show ?thesis using e by simp
    next
      case False
      have d9: "digits h1 0 \<le> 9" using p by (intro invariant_first_digit) simp_all
      have d9': "digits h 0 \<le> 9" using less.prems by (intro invariant_first_digit) simp_all
      have "nat (1 - decimal_point h1) * 10 + (9 - digits h1 0)
              < nat (1 - decimal_point h) * 10 + (9 - digits h 0)"
      proof (cases "decimal_point h < decimal_point h1")
        case lt: True
        then have "nat (1 - decimal_point h1) + 1 \<le> nat (1 - decimal_point h)" using True by arith
        then have "(nat (1 - decimal_point h1) + 1) * 10 \<le> nat (1 - decimal_point h) * 10"
          by (rule mult_right_mono) simp
        then show ?thesis by simp
      next
        case False
        then have "decimal_point h1 = decimal_point h" "digits h 0 < digits h1 0"
          using p by simp_all
        then show ?thesis using d9 by simp
      qed
      from less.hyps [OF this, of "e - int shift"] p
      show ?thesis using e False by simp
    qed
  qed
qed

subsection \<open>Claim C10\<close>

lemma parse_number_f64_special_status:
  "fst (parse_number_f64_special s fb) = fb \<or> fst (parse_number_f64_special s fb) = None"
  by (auto simp: parse_number_f64_special_def Let_def split: prod.splits option.splits)

lemma parse_finish_status: "fst (parse_finish h e) = None"
  by (simp add: parse_finish_def parse_infinity_def Let_def split: prod.splits)

lemma high_prec_dec_parse_lead:
  assumes "high_prec_dec_parse (Some h0) s = (None, Some h)" and "num_digits h > 0"
  shows "digits h 0 \<noteq> 0"
proof -
  define hz where
    "hz = h0\<lparr>num_digits := 0, decimal_point := 0, negative := False, truncated := False\<rparr>"
  have pne: "skip_underscores s \<noteq> []"
  proof
    assume "skip_underscores s = []"
    then have "fst (high_prec_dec_parse (Some h0) s) = Some bad_argument"
      by (simp add: high_prec_dec_parse_def)
    then show False using assms(1) by simp
  qed
  obtain neg p1 where ps: "parse_sign (skip_underscores s) = (neg, p1)"
    by (cases "parse_sign (skip_underscores s)") auto
  define h1 where "h1 = (if neg then hz\<lparr>negative := True\<rparr> else hz)"
  obtain r h2 nd dp sd snz sdot p2 where
    pd: "parse_digits p1 (h1, 0, 0, False, False, False) = (r, (h2, nd, dp, sd, snz, sdot), p2)"
    by (cases "parse_digits p1 (h1, 0, 0, False, False, False)") auto
  have l: "nd > 0 \<longrightarrow> digits h2 0 \<noteq> 0"
    by (rule parse_digits_lead [OF pd]) simp
  have "\<exists>d. h = trim (h2\<lparr>num_digits := nd, decimal_point := d\<rparr>)"
    using assms(1) pne ps pd
    by (auto simp: high_prec_dec_parse_def Let_def hz_def [symmetric] h1_def [symmetric]
          split: if_splits sum.splits prod.splits simp del: parse_digits.simps)
  then obtain d where h: "h = trim (h2\<lparr>num_digits := nd, decimal_point := d\<rparr>)" by blast
  have "num_digits h \<le> nd" unfolding h using num_digits_trim_le [of "h2\<lparr>num_digits := nd, decimal_point := d\<rparr>"] by simp
  then have nd: "nd > 0" using assms(2) by simp
  then have "digits (trim (h2\<lparr>num_digits := nd, decimal_point := d\<rparr>))
      = digits (h2\<lparr>num_digits := nd, decimal_point := d\<rparr>)"
    using l by (intro trim_keeps_first [THEN conjunct2, THEN conjunct1]) simp_all
  then show ?thesis using l nd by (simp add: h)
qed

text \<open>
  Claim C10.  For every input, and whatever the stack held, \<^verbatim>\<open>parse_number_f64\<close> returns,
  and its status is null or \<^verbatim>\<open>bad_argument\<close>: the inner parser gets a non-null HPD, so it
  never answers \<^verbatim>\<open>bad_receiver\<close>; a failure of the fast path is dropped and the slow path
  taken, whose two scaling loops end and whose result has the null status.
\<close>

theorem parse_number_f64_status:
  "\<exists>st v. parse_number_f64 h0 s = Some (st, v) \<and> (st = None \<or> st = Some bad_argument)"
proof -
  obtain st hp where hp: "high_prec_dec_parse (Some h0) s = (st, hp)"
    by (cases "high_prec_dec_parse (Some h0) s") auto
  obtain h where h: "hp = Some h"
    using high_prec_dec_parse_some [of h0 s] hp by auto
  have stc: "st = None \<or> st = Some bad_argument"
    using high_prec_dec_parse_status [of h0 s] hp by simp
  show ?thesis
  proof (cases st)
    case (Some x)
    then have x: "x = bad_argument" using stc by simp
    have "parse_number_f64 h0 s = Some (parse_number_f64_special s (Some bad_argument))"
      using hp Some x by (simp add: parse_number_f64_def)
    moreover obtain a b where sp: "parse_number_f64_special s (Some bad_argument) = (a, b)"
      by (cases "parse_number_f64_special s (Some bad_argument)") auto
    moreover have "a = Some bad_argument \<or> a = None"
      using parse_number_f64_special_status [of s "Some bad_argument"] sp by simp
    ultimately show ?thesis by auto
  next
    case None
    note hp' = hp [unfolded None h]
    have inv: "hpd_invariant h" by (rule high_prec_dec_parse_invariant [OF hp'])
    show ?thesis
    proof (cases "num_digits h = 0 \<or> decimal_point h < - 326")
      case True
      then have "parse_number_f64 h0 s = Some (parse_zero h)"
        using hp' by (simp add: parse_number_f64_def)
      then show ?thesis by (simp add: parse_zero_def)
    next
      case nz: False
      show ?thesis
      proof (cases "decimal_point h > 310")
        case True
        then have "parse_number_f64 h0 s = Some (parse_infinity h)"
          using hp' nz by (simp add: parse_number_f64_def)
        then show ?thesis by (simp add: parse_infinity_def)
      next
        case ni: False
        obtain ms mv where mpb: "mpb_parse_number_f64 h False = (ms, mv)"
          by (cases "mpb_parse_number_f64 h False") auto
        show ?thesis
        proof (cases ms)
          case None
          then have "parse_number_f64 h0 s = Some (None, mv)"
            using hp' nz ni mpb by (simp add: parse_number_f64_def)
          then show ?thesis by simp
        next
          case (Some failed)
          have nd: "num_digits h > 0" using nz by simp
          have lead: "digits h 0 \<noteq> 0" by (rule high_prec_dec_parse_lead [OF hp' nd])
          have slow: "parse_number_f64 h0 s =
              (case scale_right h 0 of
                 None \<Rightarrow> None
               | Some (Goto_zero h1) \<Rightarrow> Some (parse_zero h1)
               | Some (Goto_infinity h1) \<Rightarrow> Some (parse_infinity h1)
               | Some (Next (h1, e1)) \<Rightarrow>
                   (case scale_left h1 e1 of
                      None \<Rightarrow> None
                    | Some (Goto_zero h2) \<Rightarrow> Some (parse_zero h2)
                    | Some (Goto_infinity h2) \<Rightarrow> Some (parse_infinity h2)
                    | Some (Next (h2, e2)) \<Rightarrow>
                        (let (h3, e3) = scale_subnormal h2 (e2 - 1)
                         in Some (parse_finish h3 e3))))"
            using hp' nz ni mpb Some by (simp add: parse_number_f64_def)
          obtain r where r: "scale_right h 0 = Some r"
            and rk: "\<And>h' e'. r = Next (h', e') \<Longrightarrow>
                      hpd_invariant h' \<and> num_digits h' > 0 \<and> digits h' 0 \<noteq> 0"
            using scale_right_total [OF inv nd lead, of 0] by blast
          show ?thesis
          proof (cases r)
            case (Goto_zero h1)
            then have "parse_number_f64 h0 s = Some (parse_zero h1)" using slow r by simp
            then show ?thesis by (simp add: parse_zero_def)
          next
            case (Goto_infinity h1)
            then have "parse_number_f64 h0 s = Some (parse_infinity h1)" using slow r by simp
            then show ?thesis by (simp add: parse_infinity_def)
          next
            case (Next he)
            obtain h1 e1 where he: "he = (h1, e1)" by (cases he) auto
            have k1: "hpd_invariant h1" "num_digits h1 > 0" "digits h1 0 \<noteq> 0"
              using rk [of h1 e1] Next he by simp_all
            obtain r2 where r2: "scale_left h1 e1 = Some r2"
              using scale_left_total [OF k1, of e1] by blast
            show ?thesis
            proof (cases r2)
              case (Goto_zero h2)
              then have "parse_number_f64 h0 s = Some (parse_zero h2)"
                using slow r Next he r2 by simp
              then show ?thesis by (simp add: parse_zero_def)
            next
              case (Goto_infinity h2)
              then have "parse_number_f64 h0 s = Some (parse_infinity h2)"
                using slow r Next he r2 by simp
              then show ?thesis by (simp add: parse_infinity_def)
            next
              case inner: (Next he2)
              obtain h2 e2 where he2: "he2 = (h2, e2)" by (cases he2) auto
              obtain h3 e3 where sub: "scale_subnormal h2 (e2 - 1) = (h3, e3)"
                by (cases "scale_subnormal h2 (e2 - 1)") auto
              have "parse_number_f64 h0 s = Some (parse_finish h3 e3)"
                using slow r Next he r2 inner he2 sub by simp
              moreover obtain a b where pf: "parse_finish h3 e3 = (a, b)"
                by (cases "parse_finish h3 e3") auto
              moreover have "a = None" using parse_finish_status [of h3 e3] pf by simp
              ultimately show ?thesis by simp
            qed
          qed
        qed
      qed
    qed
  qed
qed

theorem parse_number_f64_status_witness:
  "\<exists>st v. parse_number_f64 hpd_zero (bytes_of ''0.25000000000000002776'') = Some (st, v)
      \<and> (st = None \<or> st = Some bad_argument)"
  by (rule parse_number_f64_status)

end
